(* ===== verification/Prelude.thy ===== *)
theory Prelude imports Main "HOL-Library.Word" begin

text \<open>
  Shared vocabulary of the development: the machine types of the C++ code, memory writes into a
  fixed array, and the collections of rewrite rules the component theories extend.
  A C++ array is a list whose length never changes; \<open>overwrite\<close> is what memcpy or a loop of
  stores does to it.
\<close>

unbundle bit_operations_syntax

type_synonym u8 = "8 word"
type_synonym u16 = "16 word"
type_synonym u32 = "32 word"
type_synonym u64 = "64 word"

named_theorems mem_simps \<open>writes into fixed arrays\<close>
named_theorems flag_defs \<open>numeric constants of the protocol\<close>

subsection \<open>Writes into a fixed array\<close>

definition overwrite :: "'a list \<Rightarrow> nat \<Rightarrow> 'a list \<Rightarrow> 'a list" where
  "overwrite buf p xs = take p buf @ xs @ drop (p + length xs) buf"

lemma length_overwrite [mem_simps]:
  "p + length xs \<le> length buf \<Longrightarrow> length (overwrite buf p xs) = length buf"
  by (simp add: overwrite_def)

lemma take_overwrite_le [mem_simps]:
  "n \<le> p \<Longrightarrow> p \<le> length buf \<Longrightarrow> take n (overwrite buf p xs) = take n buf"
  by (simp add: overwrite_def min_def)

lemma take_overwrite_all [mem_simps]:
  "p \<le> length buf \<Longrightarrow> take (p + length xs) (overwrite buf p xs) = take p buf @ xs"
  by (simp add: overwrite_def)

lemma take_overwrite_ge:
  assumes "p \<le> length buf" "n \<le> length xs"
  shows "take (p + n) (overwrite buf p xs) = take p buf @ take n xs"
  using assms by (simp add: overwrite_def min_def)

lemma overwrite_nil [simp]: "overwrite buf p [] = buf"
  by (simp add: overwrite_def)

lemma drop_overwrite:
  "p + length xs \<le> n \<Longrightarrow> p + length xs \<le> length buf \<Longrightarrow>
   drop n (overwrite buf p xs) = drop n buf"
  by (simp add: overwrite_def)

lemma nth_overwrite:
  assumes "p + length xs \<le> length buf" "i < length buf"
  shows "overwrite buf p xs ! i =
    (if i < p then buf ! i else if i < p + length xs then xs ! (i - p) else buf ! i)"
  using assms by (auto simp: overwrite_def nth_append)

lemma overwrite_single:
  "p < length buf \<Longrightarrow> overwrite buf p [x] = buf[p := x]"
  by (simp add: overwrite_def upd_conv_take_nth_drop)

lemma take_drop_overwrite:
  assumes "h + p + length xs \<le> length buf"
  shows "take (p + length xs) (drop h (overwrite buf (h + p) xs)) = take p (drop h buf) @ xs"
    "take p (drop h (overwrite buf (h + p) xs)) = take p (drop h buf)"
proof -
  have d: "drop h (overwrite buf (h + p) xs) = take p (drop h buf) @ xs @ drop (h + p + length xs) buf"
    using assms by (simp add: overwrite_def drop_take)
  have l: "length (take p (drop h buf)) = p" using assms by simp
  show "take (p + length xs) (drop h (overwrite buf (h + p) xs)) = take p (drop h buf) @ xs"
    using assms by (simp add: d l)
  show "take p (drop h (overwrite buf (h + p) xs)) = take p (drop h buf)"
    using l assms by (simp only: d take_append) simp
qed

text \<open>memmove within one array: \<open>n\<close> bytes from index \<open>src\<close> to index \<open>dst\<close>.\<close>

definition memmove :: "'a list \<Rightarrow> nat \<Rightarrow> nat \<Rightarrow> nat \<Rightarrow> 'a list" where
  "memmove buf dst src n = overwrite buf dst (take n (drop src buf))"

lemma length_memmove [mem_simps]:
  "dst + n \<le> length buf \<Longrightarrow> src + n \<le> length buf \<Longrightarrow> length (memmove buf dst src n) = length buf"
  by (simp add: memmove_def length_overwrite)

lemma take_memmove:
  assumes "dst + n \<le> length buf" "src + n \<le> length buf" "k \<le> n"
  shows "take k (drop dst (memmove buf dst src n)) = take k (drop src buf)"
proof -
  have "dst \<le> length buf" "n \<le> length buf - src" using assms by auto
  with assms(3) show ?thesis by (simp add: memmove_def overwrite_def min_def)
qed

lemma take_memmove_front:
  assumes "dst + n \<le> length buf" "src + n \<le> length buf" "k \<le> dst"
  shows "take k (memmove buf dst src n) = take k buf"
  using assms by (simp add: memmove_def take_overwrite_le)

subsection \<open>Bits of a word\<close>

lemma and_or_disjoint:
  fixes a m v :: "'a::len word"
  shows "((a AND NOT m) OR (v AND m)) AND m = v AND m"
  by (rule bit_eqI) (auto simp: bit_simps)

lemma and_or_disjoint_other:
  fixes a m v n :: "'a::len word"
  assumes "m AND n = 0"
  shows "((a AND NOT m) OR (v AND m)) AND n = a AND n"
proof (rule bit_word_eqI)
  fix i assume "i < LENGTH('a)"
  have "bit (m AND n) i = bit (0::'a word) i" using assms by simp
  then have "\<not> (bit m i \<and> bit n i)" by (simp add: bit_simps)
  then show "bit (((a AND NOT m) OR (v AND m)) AND n) i = bit (a AND n) i"
    using \<open>i < LENGTH('a)\<close> by (auto simp: bit_simps)
qed

lemma and_or_restore:
  fixes a m :: "'a::len word"
  shows "(a AND NOT m) OR (a AND m) = a"
  by (rule bit_eqI) (auto simp: bit_simps)

lemma word_nonzero_bit: "(w :: 'a::len word) \<noteq> 0 \<longleftrightarrow> (\<exists>n. bit w n)"
  by (metis bit_0_eq bit_eqI bot_apply bot_bool_def)

subsection \<open>Widening\<close>

lemma unat_u16_u32 [simp]: "unat (ucast (i :: u16) :: u32) = unat i"
  using unsigned_less [of i, where ?'a = nat] by (simp add: unsigned_ucast_eq take_bit_eq_mod)

lemma unat_u8_u32 [simp]: "unat (ucast (i :: u8) :: u32) = unat i"
  using unsigned_less [of i, where ?'a = nat] by (simp add: unsigned_ucast_eq take_bit_eq_mod)

lemma unat_inj [simp]: "unat a = unat b \<longleftrightarrow> a = b"
  by (simp add: word_eq_iff_unsigned [where ?'a = nat])

lemma ucast_u16_u32_inj [simp]: "(ucast (i :: u16) :: u32) = ucast j \<longleftrightarrow> i = j"
  by (metis unat_u16_u32 unat_inj)

lemma of_nat_unat_u16: "(of_nat (unat (i :: u16)) :: u32) = ucast i"
  by (metis unat_u16_u32 of_nat_unat ucast_id)

subsection \<open>Characters\<close>

lemma unat_of_char_u8: "unat (of_char c :: u8) = of_char c"
proof -
  have "unat (of_char c :: u8) = unat (of_nat (of_char c) :: u8)" by (simp only: of_nat_of_char)
  also have "\<dots> = of_char c mod 256" by (simp add: unat_of_nat)
  finally show ?thesis by simp
qed

lemma char_of_unat_of_char [simp]: "char_of (unat (of_char c :: u8)) = c"
  by (simp add: unat_of_char_u8)

end
