(* ===== verification/CanId.thy ===== *)
theory CanId imports Prelude begin

text \<open>
  The CAN identifier of ThingSet: src/can/CanID.cpp and include/thingset++/can/CanID.hpp.
  A \<open>CanID\<close> object holds a 32-bit id, whose bit fields (source, target or data id, sequence
  number, multi-frame type, message number, bridge, message type, priority) are read and written
  by the accessors below, and a mask that collects the fields that were written; the mask is what
  a hardware filter is set to. The accessors come in two shapes, a shifted integer field and an
  enum stored in place; the locale \<open>can_field\<close> states what every accessor pair promises, and is
  interpreted once for each field of the code.
\<close>

subsection \<open>Fields\<close>

record can_id =
  cid_id :: u32
  cid_mask :: u32

definition sourceMask :: u32 where "sourceMask = push_bit 0 0xff"
definition targetMask :: u32 where "targetMask = push_bit 8 0xff"
definition dataIdMask :: u32 where "dataIdMask = push_bit 8 0xffff"
definition sequenceNumberMask :: u32 where "sequenceNumberMask = push_bit 8 0xf"
definition multiFrameTypeMask :: u32 where "multiFrameTypeMask = push_bit 12 0x3"
definition messageNumberMask :: u32 where "messageNumberMask = push_bit 14 0x3"
definition bridgeMask :: u32 where "bridgeMask = push_bit 16 0xff"
definition messageTypeMask :: u32 where "messageTypeMask = push_bit 24 0x3"
definition messagePriorityMask :: u32 where "messagePriorityMask = push_bit 26 0x7"

lemmas mask_defs = sourceMask_def targetMask_def dataIdMask_def sequenceNumberMask_def
  multiFrameTypeMask_def messageNumberMask_def bridgeMask_def messageTypeMask_def
  messagePriorityMask_def

text \<open>Addresses with a fixed meaning, and the default address range.\<close>

definition minAddress :: u8 where "minAddress = 0x01"
definition maxAddress :: u8 where "maxAddress = 0xfd"
definition anonymousAddress :: u8 where "anonymousAddress = 0xfe"
definition broadcastAddress :: u8 where "broadcastAddress = 0xff"
definition defaultBridge :: u8 where "defaultBridge = 0x00"

definition CAN_SFF_MASK :: u32 where "CAN_SFF_MASK = 0x7FF"
definition CAN_EFF_MASK :: u32 where "CAN_EFF_MASK = 0x1FFFFFFF"
definition CAN_EFF_FLAG :: u32 where "CAN_EFF_FLAG = 0x80000000"

subsection \<open>The enums, as the numbers the code stores in the id\<close>

datatype message_type = requestResponse | multiFrameReport | singleFrameReport | network

fun message_type_val :: "message_type \<Rightarrow> u32" where
  "message_type_val requestResponse = push_bit 24 0x0"
| "message_type_val multiFrameReport = push_bit 24 0x1"
| "message_type_val singleFrameReport = push_bit 24 0x2"
| "message_type_val network = push_bit 24 0x3"

datatype mf_type = mf_first | mf_consecutive | mf_last | mf_single

fun mf_type_val :: "mf_type \<Rightarrow> u32" where
  "mf_type_val mf_first = push_bit 12 0x0"
| "mf_type_val mf_consecutive = push_bit 12 0x1"
| "mf_type_val mf_last = push_bit 12 0x2"
| "mf_type_val mf_single = push_bit 12 0x3"

lemma mf_type_val_inj [simp]: "mf_type_val a = mf_type_val b \<longleftrightarrow> a = b"
  by (cases a; cases b) simp_all

datatype message_priority =
  controlEmergency | controlHigh | controlLow | networkManagement | reportHigh | channel | reportLow

fun message_priority_val :: "message_priority \<Rightarrow> u32" where
  "message_priority_val controlEmergency = push_bit 26 0x0"
| "message_priority_val controlHigh = push_bit 26 0x2"
| "message_priority_val controlLow = push_bit 26 0x3"
| "message_priority_val networkManagement = push_bit 26 0x4"
| "message_priority_val reportHigh = push_bit 26 0x5"
| "message_priority_val channel = push_bit 26 0x6"
| "message_priority_val reportLow = push_bit 26 0x7"

subsection \<open>Construction\<close>

definition CanID_default :: can_id where
  "CanID_default = \<lparr>cid_id = 0, cid_mask = 0\<rparr>"

definition CanID_make :: "u32 \<Rightarrow> u32 \<Rightarrow> can_id" where
  "CanID_make i m = \<lparr>cid_id = i, cid_mask = m\<rparr>"

definition CanID_create :: "u32 \<Rightarrow> can_id" where
  "CanID_create i =
    (let m = (if i \<le> CAN_SFF_MASK then CAN_SFF_MASK else CAN_EFF_MASK) in CanID_make (i AND m) m)"

definition getIdWithFlags :: "can_id \<Rightarrow> u32" where
  "getIdWithFlags c = (if cid_id c > CAN_SFF_MASK then cid_id c OR CAN_EFF_FLAG else cid_id c)"

definition setMask :: "u32 \<Rightarrow> can_id \<Rightarrow> can_id" where
  "setMask m c = c\<lparr>cid_mask := m\<rparr>"

subsection \<open>Accessors\<close>

definition getSource :: "can_id \<Rightarrow> u8" where
  "getSource c = ucast (drop_bit 0 (cid_id c AND sourceMask))"

definition setSource :: "u8 \<Rightarrow> can_id \<Rightarrow> can_id" where
  "setSource v c = c\<lparr>cid_id := (cid_id c AND NOT sourceMask) OR (push_bit 0 (ucast v) AND sourceMask),
     cid_mask := cid_mask c OR sourceMask\<rparr>"

definition getTarget :: "can_id \<Rightarrow> u8" where
  "getTarget c = ucast (drop_bit 8 (cid_id c AND targetMask))"

definition setTarget :: "u8 \<Rightarrow> can_id \<Rightarrow> can_id" where
  "setTarget v c = c\<lparr>cid_id := (cid_id c AND NOT targetMask) OR (push_bit 8 (ucast v) AND targetMask),
     cid_mask := cid_mask c OR targetMask\<rparr>"

definition getDataId :: "can_id \<Rightarrow> u16" where
  "getDataId c = ucast (drop_bit 8 (cid_id c AND dataIdMask))"

definition setDataId :: "u16 \<Rightarrow> can_id \<Rightarrow> can_id" where
  "setDataId v c = c\<lparr>cid_id := (cid_id c AND NOT dataIdMask) OR (push_bit 8 (ucast v) AND dataIdMask),
     cid_mask := cid_mask c OR dataIdMask\<rparr>"

definition getSequenceNumber :: "can_id \<Rightarrow> u8" where
  "getSequenceNumber c = ucast (drop_bit 8 (cid_id c AND sequenceNumberMask))"

definition setSequenceNumber :: "u8 \<Rightarrow> can_id \<Rightarrow> can_id" where
  "setSequenceNumber v c =
     c\<lparr>cid_id := (cid_id c AND NOT sequenceNumberMask) OR (push_bit 8 (ucast v) AND sequenceNumberMask),
     cid_mask := cid_mask c OR sequenceNumberMask\<rparr>"

definition getMessageNumber :: "can_id \<Rightarrow> u8" where
  "getMessageNumber c = ucast (drop_bit 14 (cid_id c AND messageNumberMask))"

definition setMessageNumber :: "u8 \<Rightarrow> can_id \<Rightarrow> can_id" where
  "setMessageNumber v c =
     c\<lparr>cid_id := (cid_id c AND NOT messageNumberMask) OR (push_bit 14 (ucast v) AND messageNumberMask),
     cid_mask := cid_mask c OR messageNumberMask\<rparr>"

definition getBridge :: "can_id \<Rightarrow> u8" where
  "getBridge c = ucast (drop_bit 16 (cid_id c AND bridgeMask))"

definition setBridge :: "u8 \<Rightarrow> can_id \<Rightarrow> can_id" where
  "setBridge v c = c\<lparr>cid_id := (cid_id c AND NOT bridgeMask) OR (push_bit 16 (ucast v) AND bridgeMask),
     cid_mask := cid_mask c OR bridgeMask\<rparr>"

definition getRandomElement :: "can_id \<Rightarrow> u8" where
  "getRandomElement c = getBridge c"

definition setRandomElement :: "u8 \<Rightarrow> can_id \<Rightarrow> can_id" where
  "setRandomElement v c = setBridge v c"

text \<open>The enum fields are compared as the masked id, the number the code casts to the enum.\<close>

definition getMessageType :: "can_id \<Rightarrow> u32" where
  "getMessageType c = cid_id c AND messageTypeMask"

definition setMessageType :: "message_type \<Rightarrow> can_id \<Rightarrow> can_id" where
  "setMessageType v c = c\<lparr>cid_id := (cid_id c AND NOT messageTypeMask) OR message_type_val v,
     cid_mask := cid_mask c OR messageTypeMask\<rparr>"

definition getMultiFrameMessageType :: "can_id \<Rightarrow> u32" where
  "getMultiFrameMessageType c = cid_id c AND multiFrameTypeMask"

definition setMultiFrameMessageType :: "mf_type \<Rightarrow> can_id \<Rightarrow> can_id" where
  "setMultiFrameMessageType v c = c\<lparr>cid_id := (cid_id c AND NOT multiFrameTypeMask) OR mf_type_val v,
     cid_mask := cid_mask c OR multiFrameTypeMask\<rparr>"

definition getMessagePriority :: "can_id \<Rightarrow> u32" where
  "getMessagePriority c = cid_id c AND messagePriorityMask"

definition setMessagePriority :: "message_priority \<Rightarrow> can_id \<Rightarrow> can_id" where
  "setMessagePriority v c = c\<lparr>cid_id := (cid_id c AND NOT messagePriorityMask) OR message_priority_val v,
     cid_mask := cid_mask c OR messagePriorityMask\<rparr>"

definition getReplyId :: "can_id \<Rightarrow> can_id" where
  "getReplyId c = setSource (getTarget c) (setTarget (getSource c) c)"


subsection \<open>The contract of an accessor\<close>

text \<open>
  Every accessor pair reads and writes the bits of one mask of the id: the setter replaces the
  bits under the mask by a function of the new value (\<open>put\<close>), and adds the mask to the filter
  mask; the getter is a function of the bits under the mask (\<open>read\<close>).
\<close>

locale can_field =
  fixes get :: "can_id \<Rightarrow> 'v"
    and set :: "'w \<Rightarrow> can_id \<Rightarrow> can_id"
    and m :: u32
    and put :: "'w \<Rightarrow> u32"
    and read :: "u32 \<Rightarrow> 'v"
  assumes get_eq: "get c = read (cid_id c AND m)"
    and set_id: "cid_id (set v c) = (cid_id c AND NOT m) OR put v"
    and set_mask: "cid_mask (set v c) = cid_mask c OR m"
    and put_in: "put v AND m = put v"
begin

lemma set_eq: "set v c = \<lparr>cid_id = (cid_id c AND NOT m) OR put v, cid_mask = cid_mask c OR m\<rparr>"
  by (simp add: set_id set_mask)

lemma set_id_masked: "cid_id (set v c) = (cid_id c AND NOT m) OR (put v AND m)"
  by (simp add: set_id put_in)

lemma set_own_bits: "cid_id (set v c) AND m = put v"
  by (simp add: set_id_masked and_or_disjoint) (simp add: put_in)

lemma get_set: "get (set v c) = read (put v)"
  by (simp add: get_eq set_own_bits)

lemma set_other_bits: "m AND n = 0 \<Longrightarrow> cid_id (set v c) AND n = cid_id c AND n"
  by (simp add: set_id_masked and_or_disjoint_other)

lemma set_set: "set v (set w c) = set v c"
proof -
  have "(cid_id (set w c) AND NOT m) = cid_id c AND NOT m"
    by (rule set_other_bits) (simp add: bit_eq_iff bit_simps)
  then show ?thesis by (simp add: set_eq)
qed

lemma set_restore: "put v = cid_id c AND m \<Longrightarrow> cid_id (set v c) = cid_id c"
  by (simp add: set_id and_or_restore)

lemma set_keeps_bound:
  assumes "cid_id c AND NOT b = 0" "m AND NOT b = 0"
  shows "cid_id (set v c) AND NOT b = 0"
proof -
  have "cid_id (set v c) AND NOT b = cid_id c AND NOT b"
    using assms(2) by (rule set_other_bits)
  then show ?thesis using assms(1) by simp
qed

end

text \<open>The shifted integer fields: a mask of \<open>w\<close> ones at position \<open>p\<close>.\<close>

lemma ucast_field:
  fixes v :: "'v::len word"
  assumes "p + LENGTH('v) \<le> 32"
  shows "(ucast (drop_bit p ((push_bit p (ucast v) :: u32) AND push_bit p (mask w))) :: 'v word) = v AND mask w"
  by (rule bit_word_eqI) (use assms in \<open>auto simp: bit_simps\<close>)

lemma ones_mask: "(0xff :: u32) = mask 8" "(0xffff :: u32) = mask 16" "(0xf :: u32) = mask 4" "(0x3 :: u32) = mask 2"
  by (simp_all add: mask_eq_exp_minus_1)

lemma full_mask: "v AND mask 8 = (v :: u8)" "w AND mask 16 = (w :: u16)"
  by (simp_all add: bit_eq_iff bit_simps)

lemma put_masked: "((a :: u32) AND m) AND m = a AND m"
  by (simp add: bit_eq_iff bit_simps)

interpretation src: can_field getSource setSource sourceMask
  "\<lambda>v. push_bit 0 (ucast v) AND sourceMask" "\<lambda>b. ucast (drop_bit 0 b)"
  by unfold_locales (simp_all add: getSource_def setSource_def put_masked)

interpretation tgt: can_field getTarget setTarget targetMask
  "\<lambda>v. push_bit 8 (ucast v) AND targetMask" "\<lambda>b. ucast (drop_bit 8 b)"
  by unfold_locales (simp_all add: getTarget_def setTarget_def put_masked)

interpretation did: can_field getDataId setDataId dataIdMask
  "\<lambda>v. push_bit 8 (ucast v) AND dataIdMask" "\<lambda>b. ucast (drop_bit 8 b)"
  by unfold_locales (simp_all add: getDataId_def setDataId_def put_masked)

interpretation seq: can_field getSequenceNumber setSequenceNumber sequenceNumberMask
  "\<lambda>v. push_bit 8 (ucast v) AND sequenceNumberMask" "\<lambda>b. ucast (drop_bit 8 b)"
  by unfold_locales (simp_all add: getSequenceNumber_def setSequenceNumber_def put_masked)

interpretation msgno: can_field getMessageNumber setMessageNumber messageNumberMask
  "\<lambda>v. push_bit 14 (ucast v) AND messageNumberMask" "\<lambda>b. ucast (drop_bit 14 b)"
  by unfold_locales (simp_all add: getMessageNumber_def setMessageNumber_def put_masked)

interpretation brg: can_field getBridge setBridge bridgeMask
  "\<lambda>v. push_bit 16 (ucast v) AND bridgeMask" "\<lambda>b. ucast (drop_bit 16 b)"
  by unfold_locales (simp_all add: getBridge_def setBridge_def put_masked)

interpretation mtype: can_field getMessageType setMessageType messageTypeMask message_type_val id
proof unfold_locales
  fix v show "message_type_val v AND messageTypeMask = message_type_val v"
    by (cases v) (simp_all add: mask_defs)
qed (simp_all add: getMessageType_def setMessageType_def)

interpretation mf: can_field getMultiFrameMessageType setMultiFrameMessageType multiFrameTypeMask mf_type_val id
proof unfold_locales
  fix v show "mf_type_val v AND multiFrameTypeMask = mf_type_val v"
    by (cases v) (simp_all add: mask_defs)
qed (simp_all add: getMultiFrameMessageType_def setMultiFrameMessageType_def)

interpretation prio: can_field getMessagePriority setMessagePriority messagePriorityMask message_priority_val id
proof unfold_locales
  fix v show "message_priority_val v AND messagePriorityMask = message_priority_val v"
    by (cases v) (simp_all add: mask_defs)
qed (simp_all add: getMessagePriority_def setMessagePriority_def)


lemma int_field_get_set:
  "getSource (setSource a c) = a"
  "getTarget (setTarget a c) = a"
  "getBridge (setBridge a c) = a"
  "getDataId (setDataId d c) = d"
  "getSequenceNumber (setSequenceNumber a c) = a AND mask 4"
  "getMessageNumber (setMessageNumber a c) = a AND mask 2"
  unfolding src.get_set tgt.get_set brg.get_set did.get_set seq.get_set msgno.get_set mask_defs ones_mask
  by (subst ucast_field; simp add: full_mask)+

subsection \<open>Properties\<close>

text \<open>
  C28. Every shifted field reads back what was written to it, cut to the width of the field: source,
  target, bridge and data id completely, the sequence number modulo 16, the message number
  modulo 4.
\<close>
theorem can_field_roundtrip:
  "getSource (setSource a c) = a \<and>
   getTarget (setTarget a c) = a \<and>
   getBridge (setBridge a c) = a \<and>
   getRandomElement (setRandomElement a c) = a \<and>
   getDataId (setDataId d c) = d \<and>
   getSequenceNumber (setSequenceNumber a c) = a AND 0xf \<and>
   getMessageNumber (setMessageNumber a c) = a AND 0x3 \<and>
   getMessageType (setMessageType t c) = message_type_val t \<and>
   getMultiFrameMessageType (setMultiFrameMessageType u c) = mf_type_val u \<and>
   getMessagePriority (setMessagePriority q c) = message_priority_val q"
  by (simp add: int_field_get_set getRandomElement_def setRandomElement_def mtype.get_set mf.get_set
      prio.get_set mask_eq_exp_minus_1)

text \<open>The masks of the layouts the code uses together do not overlap.\<close>

definition report_masks :: "u32 list" where
  "report_masks = [sourceMask, sequenceNumberMask, multiFrameTypeMask, messageNumberMask, bridgeMask,
     messageTypeMask, messagePriorityMask]"

definition request_masks :: "u32 list" where
  "request_masks = [sourceMask, targetMask, bridgeMask, messageTypeMask, messagePriorityMask]"

definition control_masks :: "u32 list" where
  "control_masks = [sourceMask, dataIdMask, messageTypeMask, messagePriorityMask]"

fun pairwise_disjoint :: "u32 list \<Rightarrow> bool" where
  "pairwise_disjoint [] = True"
| "pairwise_disjoint (m # ms) = ((\<forall>n \<in> set ms. m AND n = 0) \<and> pairwise_disjoint ms)"

lemma layouts_disjoint:
  "pairwise_disjoint report_masks" "pairwise_disjoint request_masks" "pairwise_disjoint control_masks"
  by (simp_all add: report_masks_def request_masks_def control_masks_def mask_defs)

lemma mask_disjoint:
  "sourceMask AND targetMask = 0" "targetMask AND sourceMask = 0"
  "sourceMask AND sequenceNumberMask = 0" "sequenceNumberMask AND sourceMask = 0"
  "sourceMask AND multiFrameTypeMask = 0" "multiFrameTypeMask AND sourceMask = 0"
  "sourceMask AND messageNumberMask = 0" "messageNumberMask AND sourceMask = 0"
  "sourceMask AND bridgeMask = 0" "bridgeMask AND sourceMask = 0"
  "sourceMask AND messageTypeMask = 0" "messageTypeMask AND sourceMask = 0"
  "sourceMask AND messagePriorityMask = 0" "messagePriorityMask AND sourceMask = 0"
  "sourceMask AND dataIdMask = 0" "dataIdMask AND sourceMask = 0"
  "targetMask AND bridgeMask = 0" "bridgeMask AND targetMask = 0"
  "targetMask AND messageTypeMask = 0" "messageTypeMask AND targetMask = 0"
  "targetMask AND messagePriorityMask = 0" "messagePriorityMask AND targetMask = 0"
  "sequenceNumberMask AND multiFrameTypeMask = 0" "multiFrameTypeMask AND sequenceNumberMask = 0"
  "sequenceNumberMask AND messageNumberMask = 0" "messageNumberMask AND sequenceNumberMask = 0"
  "sequenceNumberMask AND bridgeMask = 0" "bridgeMask AND sequenceNumberMask = 0"
  "sequenceNumberMask AND messageTypeMask = 0" "messageTypeMask AND sequenceNumberMask = 0"
  "sequenceNumberMask AND messagePriorityMask = 0" "messagePriorityMask AND sequenceNumberMask = 0"
  "multiFrameTypeMask AND messageNumberMask = 0" "messageNumberMask AND multiFrameTypeMask = 0"
  "multiFrameTypeMask AND bridgeMask = 0" "bridgeMask AND multiFrameTypeMask = 0"
  "multiFrameTypeMask AND messageTypeMask = 0" "messageTypeMask AND multiFrameTypeMask = 0"
  "multiFrameTypeMask AND messagePriorityMask = 0" "messagePriorityMask AND multiFrameTypeMask = 0"
  "messageNumberMask AND bridgeMask = 0" "bridgeMask AND messageNumberMask = 0"
  "messageNumberMask AND messageTypeMask = 0" "messageTypeMask AND messageNumberMask = 0"
  "messageNumberMask AND messagePriorityMask = 0" "messagePriorityMask AND messageNumberMask = 0"
  "bridgeMask AND messageTypeMask = 0" "messageTypeMask AND bridgeMask = 0"
  "bridgeMask AND messagePriorityMask = 0" "messagePriorityMask AND bridgeMask = 0"
  "messageTypeMask AND messagePriorityMask = 0" "messagePriorityMask AND messageTypeMask = 0"
  "dataIdMask AND messageTypeMask = 0" "messageTypeMask AND dataIdMask = 0"
  "dataIdMask AND messagePriorityMask = 0" "messagePriorityMask AND dataIdMask = 0"
  by (simp_all add: mask_defs)

lemmas can_other_bits = src.set_other_bits tgt.set_other_bits did.set_other_bits seq.set_other_bits
  msgno.set_other_bits brg.set_other_bits mtype.set_other_bits mf.set_other_bits prio.set_other_bits

lemmas can_own_bits = src.set_own_bits tgt.set_own_bits did.set_own_bits seq.set_own_bits
  msgno.set_own_bits brg.set_own_bits mtype.set_own_bits mf.set_own_bits prio.set_own_bits

lemmas can_masks = src.set_mask tgt.set_mask did.set_mask seq.set_mask
  msgno.set_mask brg.set_mask mtype.set_mask mf.set_mask prio.set_mask

lemmas can_gets = getSource_def getTarget_def getDataId_def getSequenceNumber_def getMessageNumber_def
  getBridge_def getMessageType_def getMultiFrameMessageType_def getMessagePriority_def

text \<open>
  Writing one field of an identifier leaves every other field of the same layout as it was: a
  setter changes no bit outside its own mask, and the masks of the report layout, of the
  request/response layout and of the control layout are pairwise disjoint.
\<close>
theorem can_fields_independent:
  "(\<forall>n. sourceMask AND n = 0 \<longrightarrow> cid_id (setSource a c) AND n = cid_id c AND n) \<and>
   (\<forall>n. targetMask AND n = 0 \<longrightarrow> cid_id (setTarget a c) AND n = cid_id c AND n) \<and>
   (\<forall>n. dataIdMask AND n = 0 \<longrightarrow> cid_id (setDataId d c) AND n = cid_id c AND n) \<and>
   (\<forall>n. sequenceNumberMask AND n = 0 \<longrightarrow> cid_id (setSequenceNumber a c) AND n = cid_id c AND n) \<and>
   (\<forall>n. messageNumberMask AND n = 0 \<longrightarrow> cid_id (setMessageNumber a c) AND n = cid_id c AND n) \<and>
   (\<forall>n. bridgeMask AND n = 0 \<longrightarrow> cid_id (setBridge a c) AND n = cid_id c AND n) \<and>
   (\<forall>n. messageTypeMask AND n = 0 \<longrightarrow> cid_id (setMessageType t c) AND n = cid_id c AND n) \<and>
   (\<forall>n. multiFrameTypeMask AND n = 0 \<longrightarrow> cid_id (setMultiFrameMessageType u c) AND n = cid_id c AND n) \<and>
   (\<forall>n. messagePriorityMask AND n = 0 \<longrightarrow> cid_id (setMessagePriority q c) AND n = cid_id c AND n) \<and>
   pairwise_disjoint report_masks \<and> pairwise_disjoint request_masks \<and> pairwise_disjoint control_masks"
  by (simp add: can_other_bits layouts_disjoint)

theorem can_fields_independent_witness:
  "cid_id (setSource 3 (setTarget 9 CanID_default)) AND targetMask = cid_id (setTarget 9 CanID_default) AND targetMask"
  using can_fields_independent [of 3 "setTarget 9 CanID_default" 0 requestResponse mf_first channel]
  by (simp add: mask_disjoint)

subsection \<open>Reply addresses\<close>

lemma getReplyId_fields:
  "getSource (getReplyId c) = getTarget c" "getTarget (getReplyId c) = getSource c"
proof -
  show "getSource (getReplyId c) = getTarget c"
    by (simp add: getReplyId_def int_field_get_set)
  show "getTarget (getReplyId c) = getSource c"
    using int_field_get_set(2) [of "getSource c" c]
    by (simp add: getReplyId_def getTarget_def can_other_bits mask_disjoint)
qed

lemma getReplyId_bits:
  "sourceMask AND n = 0 \<Longrightarrow> targetMask AND n = 0 \<Longrightarrow> cid_id (getReplyId c) AND n = cid_id c AND n"
  by (simp add: getReplyId_def can_other_bits)

lemma id_from_parts:
  assumes "a AND m = b AND m" "a AND n = b AND n" "a AND NOT (m OR n) = b AND NOT (m OR n)"
  shows "a = (b :: u32)"
proof (rule bit_eqI)
  fix i
  have "bit (a AND m) i = bit (b AND m) i" "bit (a AND n) i = bit (b AND n) i"
    "bit (a AND NOT (m OR n)) i = bit (b AND NOT (m OR n)) i"
    using assms by simp_all
  then show "bit a i = bit b i"
    by (cases "i < 32") (auto simp: bit_simps dest: bit_imp_le_length)
qed

lemma source_bits: "cid_id c AND sourceMask = push_bit 0 (ucast (getSource c)) AND sourceMask"
  by (rule bit_eqI) (auto simp: getSource_def sourceMask_def bit_simps ones_mask)

lemma target_bits: "cid_id c AND targetMask = push_bit 8 (ucast (getTarget c)) AND targetMask"
  by (rule bit_eqI) (auto simp: getTarget_def targetMask_def bit_simps ones_mask)

text \<open>
  The reply identifier exchanges source and target and changes nothing else; replying to a reply
  gives back the identifier of the request.
\<close>
theorem can_reply_id:
  "getSource (getReplyId c) = getTarget c \<and> getTarget (getReplyId c) = getSource c \<and>
   cid_id (getReplyId c) AND NOT (sourceMask OR targetMask) = cid_id c AND NOT (sourceMask OR targetMask) \<and>
   cid_id (getReplyId (getReplyId c)) = cid_id c"
proof -
  let ?r = "getReplyId (getReplyId c)"
  have d: "sourceMask AND NOT (sourceMask OR targetMask) = 0" "targetMask AND NOT (sourceMask OR targetMask) = 0"
    by (simp_all add: mask_defs)
  have "cid_id ?r = cid_id c"
  proof (rule id_from_parts [where m = sourceMask and n = targetMask])
    show "cid_id ?r AND sourceMask = cid_id c AND sourceMask"
      by (simp only: source_bits [of ?r] source_bits [of c] getReplyId_fields)
    show "cid_id ?r AND targetMask = cid_id c AND targetMask"
      by (simp only: target_bits [of ?r] target_bits [of c] getReplyId_fields)
    show "cid_id ?r AND NOT (sourceMask OR targetMask) = cid_id c AND NOT (sourceMask OR targetMask)"
      by (simp only: getReplyId_bits [OF d])
  qed
  then show ?thesis by (simp only: getReplyId_fields getReplyId_bits [OF d] simp_thms)
qed

subsection \<open>Identifiers on the wire\<close>

text \<open>An identifier as the accessors build it fits in 29 bits; the extended flag is bit 31.\<close>

definition eff_valid :: "can_id \<Rightarrow> bool" where
  "eff_valid c \<longleftrightarrow> cid_id c AND NOT CAN_EFF_MASK = 0"

lemma eff_valid_default [simp]: "eff_valid CanID_default"
  by (simp add: eff_valid_def CanID_default_def)

lemma eff_masks:
  "sourceMask AND NOT CAN_EFF_MASK = 0" "targetMask AND NOT CAN_EFF_MASK = 0"
  "dataIdMask AND NOT CAN_EFF_MASK = 0" "sequenceNumberMask AND NOT CAN_EFF_MASK = 0"
  "messageNumberMask AND NOT CAN_EFF_MASK = 0" "bridgeMask AND NOT CAN_EFF_MASK = 0"
  "messageTypeMask AND NOT CAN_EFF_MASK = 0" "multiFrameTypeMask AND NOT CAN_EFF_MASK = 0"
  "messagePriorityMask AND NOT CAN_EFF_MASK = 0"
  by (simp_all add: mask_defs CAN_EFF_MASK_def)

lemma eff_valid_set [simp]:
  "eff_valid c \<Longrightarrow> eff_valid (setSource a c)"
  "eff_valid c \<Longrightarrow> eff_valid (setTarget a c)"
  "eff_valid c \<Longrightarrow> eff_valid (setDataId d c)"
  "eff_valid c \<Longrightarrow> eff_valid (setSequenceNumber a c)"
  "eff_valid c \<Longrightarrow> eff_valid (setMessageNumber a c)"
  "eff_valid c \<Longrightarrow> eff_valid (setBridge a c)"
  "eff_valid c \<Longrightarrow> eff_valid (setMessageType t c)"
  "eff_valid c \<Longrightarrow> eff_valid (setMultiFrameMessageType u c)"
  "eff_valid c \<Longrightarrow> eff_valid (setMessagePriority q c)"
  unfolding eff_valid_def
  by (simp_all add: eff_masks src.set_keeps_bound tgt.set_keeps_bound did.set_keeps_bound
      seq.set_keeps_bound msgno.set_keeps_bound brg.set_keeps_bound mtype.set_keeps_bound
      mf.set_keeps_bound prio.set_keeps_bound)

lemma eff_mask_id: "eff_valid c \<Longrightarrow> cid_id c AND CAN_EFF_MASK = cid_id c"
  using and_or_restore [of "cid_id c" CAN_EFF_MASK] by (simp add: eff_valid_def)

lemma sff_mask_id: "(i :: u32) \<le> CAN_SFF_MASK \<Longrightarrow> i AND CAN_SFF_MASK = i"
proof -
  assume "i \<le> CAN_SFF_MASK"
  then have "i < 2 ^ 11" by (auto simp: CAN_SFF_MASK_def word_le_nat_alt word_less_nat_alt)
  then have "i AND mask 11 = i" by (rule less_mask_eq)
  then have "take_bit 11 i = i" by (simp add: take_bit_eq_mask)
  then show ?thesis by (simp add: CAN_SFF_MASK_def take_bit_eq_mask mask_eq_exp_minus_1)
qed

lemma flag_above: "i OR CAN_EFF_FLAG > CAN_SFF_MASK"
proof -
  have "CAN_EFF_FLAG AND (i OR CAN_EFF_FLAG) = CAN_EFF_FLAG" by (rule bit_eqI) (auto simp: bit_simps)
  then have "CAN_EFF_FLAG \<le> i OR CAN_EFF_FLAG" by (metis word_and_le1)
  moreover have "CAN_SFF_MASK < CAN_EFF_FLAG" by (simp add: CAN_SFF_MASK_def CAN_EFF_FLAG_def)
  ultimately show ?thesis by order
qed

lemma flag_mask: "(i OR CAN_EFF_FLAG) AND CAN_EFF_MASK = i AND CAN_EFF_MASK"
  by (simp add: word_ao_dist CAN_EFF_FLAG_def CAN_EFF_MASK_def)

lemma create_flagged:
  assumes "eff_valid c"
  shows "cid_id (CanID_create (getIdWithFlags c)) = cid_id c"
proof (cases "cid_id c > CAN_SFF_MASK")
  case True
  then have "\<not> (cid_id c OR CAN_EFF_FLAG) \<le> CAN_SFF_MASK" using flag_above [of "cid_id c"] by (simp add: not_le)
  with True show ?thesis
    by (simp add: CanID_create_def CanID_make_def getIdWithFlags_def flag_mask eff_mask_id assms)
next
  case False
  then have le: "cid_id c \<le> CAN_SFF_MASK" by simp
  have "getIdWithFlags c = cid_id c" using False by (simp only: getIdWithFlags_def if_False)
  with le show ?thesis by (simp add: CanID_create_def CanID_make_def sff_mask_id)
qed

text \<open>
  C28. An identifier that fits in 29 bits (and every chain of setters from the default keeps it there)
  survives the socket interface: writing it with the extended-frame flag and reading it back with
  \<open>create\<close> gives the same identifier.
\<close>
theorem can_id_wire_roundtrip:
  "(eff_valid c \<longrightarrow> cid_id (CanID_create (getIdWithFlags c)) = cid_id c) \<and>
   eff_valid (setSource s (setTarget g (setBridge b (setMessageType t (setMessagePriority q CanID_default))))) \<and>
   eff_valid (setSource s (setDataId d (setMessageType t (setMessagePriority q CanID_default)))) \<and>
   eff_valid (setMessageNumber n (setSource s (setSequenceNumber k (setMultiFrameMessageType u
     (setMessageType t (setMessagePriority q CanID_default))))))"
  by (simp add: create_flagged)

theorem can_id_wire_roundtrip_witness:
  "cid_id (CanID_create (getIdWithFlags (setSource 5 (setMessagePriority reportLow CanID_default)))) =
   cid_id (setSource 5 (setMessagePriority reportLow CanID_default))"
  using can_id_wire_roundtrip [of "setSource 5 (setMessagePriority reportLow CanID_default)" 0 0 0 network channel 0 0 0 mf_first]
  by simp

end
