(* ===== verification/Access.thy ===== *)
theory Access imports Prelude begin

text \<open>
  Access flags, request types and status codes: include/thingset++/ThingSetAccess.hpp,
  ThingSetStatus.hpp, ThingSetResult.hpp, ThingSetCompatibility.hpp and src/ThingSetResult.cpp.
  An access value is the byte of the enum's underlying type: four read flags below four write flags.
  The compatibility header rebuilds the flags of the C implementation with macros over unsigned
  int and maps four combinations to the enum; the results at the end of the theory say that the
  mapping is the identity wherever it is defined.
\<close>

subsection \<open>ThingSetAccess\<close>

definition access_none :: u8 where [flag_defs]: "access_none = 0"
definition userRead :: u8 where [flag_defs]: "userRead = push_bit 0 1"
definition expertRead :: u8 where [flag_defs]: "expertRead = push_bit 1 1"
definition manufacturerRead :: u8 where [flag_defs]: "manufacturerRead = push_bit 2 1"
definition anyRead :: u8 where [flag_defs]: "anyRead = userRead OR expertRead OR manufacturerRead"
definition userWrite :: u8 where [flag_defs]: "userWrite = push_bit 4 userRead"
definition expertWrite :: u8 where [flag_defs]: "expertWrite = push_bit 4 expertRead"
definition manufacturerWrite :: u8 where [flag_defs]: "manufacturerWrite = push_bit 4 manufacturerRead"
definition anyWrite :: u8 where [flag_defs]: "anyWrite = userWrite OR expertWrite OR manufacturerWrite"
definition userReadWrite :: u8 where [flag_defs]: "userReadWrite = userRead OR userWrite"
definition expertReadWrite :: u8 where [flag_defs]: "expertReadWrite = expertRead OR expertWrite"
definition manufacturerReadWrite :: u8 where
  [flag_defs]: "manufacturerReadWrite = manufacturerRead OR manufacturerWrite"
definition anyReadWrite :: u8 where [flag_defs]: "anyReadWrite = anyRead OR anyWrite"

definition access_and :: "u8 \<Rightarrow> u8 \<Rightarrow> u8" where [flag_defs]: "access_and l r = l AND r"
definition access_or :: "u8 \<Rightarrow> u8 \<Rightarrow> u8" where [flag_defs]: "access_or l r = l OR r"

lemmas access_vals = access_none_def userRead_def expertRead_def manufacturerRead_def anyRead_def
  userWrite_def expertWrite_def manufacturerWrite_def anyWrite_def userReadWrite_def
  expertReadWrite_def manufacturerReadWrite_def anyReadWrite_def

subsection \<open>Request types\<close>

datatype request_type =
  rq_get | rq_exec | rq_remove | rq_fetch | rq_create | rq_update | rq_forward | rq_desire |
  rq_enhancedReport | rq_report

fun binary_request_val :: "request_type \<Rightarrow> u8" where
  "binary_request_val rq_get = 0x01"
| "binary_request_val rq_exec = 0x02"
| "binary_request_val rq_remove = 0x04"
| "binary_request_val rq_fetch = 0x05"
| "binary_request_val rq_create = 0x06"
| "binary_request_val rq_update = 0x07"
| "binary_request_val rq_forward = 0x1c"
| "binary_request_val rq_desire = 0x1d"
| "binary_request_val rq_enhancedReport = 0x1e"
| "binary_request_val rq_report = 0x1f"

text \<open>
  The text enum has no enhanced report, and fetch is an alias of get. Its characters are the bytes
  of the request buffer.
\<close>

fun text_request_val :: "request_type \<Rightarrow> u8 option" where
  "text_request_val rq_get = Some 0x3f"      \<comment> \<open>'?'\<close>
| "text_request_val rq_exec = Some 0x21"     \<comment> \<open>'!'\<close>
| "text_request_val rq_remove = Some 0x2d"   \<comment> \<open>'-'\<close>
| "text_request_val rq_fetch = Some 0x3f"    \<comment> \<open>get\<close>
| "text_request_val rq_create = Some 0x2b"   \<comment> \<open>'+'\<close>
| "text_request_val rq_update = Some 0x3d"   \<comment> \<open>'='\<close>
| "text_request_val rq_forward = Some 0x3e"  \<comment> \<open>'>'\<close>
| "text_request_val rq_desire = Some 0x40"   \<comment> \<open>'@'\<close>
| "text_request_val rq_enhancedReport = None"
| "text_request_val rq_report = Some 0x23"   \<comment> \<open>'#'\<close>

subsection \<open>Status codes\<close>

datatype status_code =
  st_created | st_deleted | st_changed | st_content | st_badRequest | st_unauthorised |
  st_forbidden | st_notFound | st_methodNotAllowed | st_requestIncomplete | st_conflict |
  st_requestTooLarge | st_unsupportedFormat | st_internalServerError | st_notImplemented |
  st_gatewayTimeout | st_notAGateway

fun status_val :: "status_code \<Rightarrow> u8" where
  "status_val st_created = 0x81"
| "status_val st_deleted = 0x82"
| "status_val st_changed = 0x84"
| "status_val st_content = 0x85"
| "status_val st_badRequest = 0xa0"
| "status_val st_unauthorised = 0xa1"
| "status_val st_forbidden = 0xa3"
| "status_val st_notFound = 0xa4"
| "status_val st_methodNotAllowed = 0xa5"
| "status_val st_requestIncomplete = 0xa8"
| "status_val st_conflict = 0xa9"
| "status_val st_requestTooLarge = 0xad"
| "status_val st_unsupportedFormat = 0xaf"
| "status_val st_internalServerError = 0xc0"
| "status_val st_notImplemented = 0xc1"
| "status_val st_gatewayTimeout = 0xc4"
| "status_val st_notAGateway = 0xc5"

text \<open>
  \<open>ThingSetResult\<close> holds whatever byte was cast to the enum (a client casts the first byte of the
  response), so success is a function of the byte.
\<close>

definition result_success :: "u8 \<Rightarrow> bool" where
  "result_success code \<longleftrightarrow> code \<in> {status_val st_content, status_val st_changed,
     status_val st_created, status_val st_deleted}"

lemma status_val_inj [simp]: "status_val a = status_val b \<longleftrightarrow> a = b"
  by (cases a; cases b) simp_all

lemma binary_request_val_inj [simp]: "binary_request_val a = binary_request_val b \<longleftrightarrow> a = b"
  by (cases a; cases b) simp_all

subsection \<open>The compatibility macros\<close>

definition THINGSET_ROLE_USR :: u32 where "THINGSET_ROLE_USR = push_bit 0 1"
definition THINGSET_ROLE_EXP :: u32 where "THINGSET_ROLE_EXP = push_bit 1 1"
definition THINGSET_ROLE_MFR :: u32 where "THINGSET_ROLE_MFR = push_bit 2 1"

definition THINGSET_READ :: "u32 \<Rightarrow> u32" where "THINGSET_READ roles = roles AND 0x0F"
definition THINGSET_WRITE :: "u32 \<Rightarrow> u32" where "THINGSET_WRITE roles = push_bit 4 roles AND 0xF0"
definition THINGSET_READ_WRITE :: "u32 \<Rightarrow> u32" where
  "THINGSET_READ_WRITE roles = THINGSET_READ roles OR THINGSET_WRITE roles"

definition THINGSET_USR_R :: u32 where "THINGSET_USR_R = THINGSET_READ THINGSET_ROLE_USR"
definition THINGSET_EXP_R :: u32 where "THINGSET_EXP_R = THINGSET_READ THINGSET_ROLE_EXP"
definition THINGSET_MFR_R :: u32 where "THINGSET_MFR_R = THINGSET_READ THINGSET_ROLE_MFR"
definition THINGSET_ROLE_ANY :: u32 where
  "THINGSET_ROLE_ANY = THINGSET_USR_R OR THINGSET_EXP_R OR THINGSET_MFR_R"
definition THINGSET_ANY_R :: u32 where "THINGSET_ANY_R = THINGSET_READ THINGSET_ROLE_ANY"
definition THINGSET_USR_W :: u32 where "THINGSET_USR_W = THINGSET_WRITE THINGSET_ROLE_USR"
definition THINGSET_EXP_W :: u32 where "THINGSET_EXP_W = THINGSET_WRITE THINGSET_ROLE_EXP"
definition THINGSET_MFR_W :: u32 where "THINGSET_MFR_W = THINGSET_WRITE THINGSET_ROLE_MFR"
definition THINGSET_ANY_W :: u32 where "THINGSET_ANY_W = THINGSET_WRITE THINGSET_ROLE_ANY"
definition THINGSET_ANY_RW :: u32 where "THINGSET_ANY_RW = THINGSET_READ_WRITE THINGSET_ROLE_ANY"

lemmas compat_defs = THINGSET_ROLE_USR_def THINGSET_ROLE_EXP_def THINGSET_ROLE_MFR_def
  THINGSET_READ_def THINGSET_WRITE_def THINGSET_READ_WRITE_def THINGSET_USR_R_def
  THINGSET_EXP_R_def THINGSET_MFR_R_def THINGSET_ROLE_ANY_def THINGSET_ANY_R_def
  THINGSET_USR_W_def THINGSET_EXP_W_def THINGSET_MFR_W_def THINGSET_ANY_W_def THINGSET_ANY_RW_def

text \<open>
  The specialisations of \<open>convertAccess\<close>. The primary template declares a value and never defines
  it, so any other combination does not link: \<open>None\<close>.
\<close>

definition convertAccess :: "u32 \<Rightarrow> u8 option" where
  "convertAccess a =
    (if a = THINGSET_ANY_R then Some anyRead
     else if a = THINGSET_ANY_RW then Some anyReadWrite
     else if a = THINGSET_ANY_R OR THINGSET_MFR_W then Some (access_or anyRead manufacturerWrite)
     else if a = (THINGSET_ANY_R OR THINGSET_EXP_W) OR THINGSET_MFR_W
     then Some (access_or (access_or anyRead expertWrite) manufacturerWrite)
     else None)"

subsection \<open>Properties\<close>

text \<open>
  The compatibility macros give every role the flags of the enum (read flags in the low nibble,
  the write flags of the same roles four bits up), and convertAccess, where it is specialised,
  returns the access value with exactly the flags of its argument.
\<close>
theorem compat_access:
  "convertAccess a = Some v \<Longrightarrow>
     ucast a = v \<and> a = ucast v \<and>
     ucast THINGSET_USR_R = userRead \<and> ucast THINGSET_EXP_R = expertRead \<and>
     ucast THINGSET_MFR_R = manufacturerRead \<and> ucast THINGSET_USR_W = userWrite \<and>
     ucast THINGSET_EXP_W = expertWrite \<and> ucast THINGSET_MFR_W = manufacturerWrite \<and>
     ucast THINGSET_ANY_RW = anyReadWrite"
  by (simp add: convertAccess_def compat_defs flag_defs split: if_splits)

theorem compat_access_witness:
  "(ucast (THINGSET_ANY_R OR THINGSET_MFR_W) :: u8) = 0x47"
proof -
  have "convertAccess (THINGSET_ANY_R OR THINGSET_MFR_W) = Some 0x47"
    by (simp add: convertAccess_def compat_defs flag_defs)
  from compat_access [OF this] show ?thesis by simp
qed

text \<open>
  A write check of the server, \<open>access & granted & anyWrite != none\<close>: it holds exactly when one
  role may write the node and has been granted write access.
\<close>

definition may_write :: "u8 \<Rightarrow> u8 \<Rightarrow> bool" where
  "may_write node granted \<longleftrightarrow> access_and (access_and node granted) anyWrite \<noteq> access_none"

lemma write_flag_bits: "anyWrite = 0x70" "anyRead = 0x07"
  by (simp_all add: access_vals)

lemma bit_anyWrite: "bit anyWrite n \<longleftrightarrow> n \<in> {4, 5, 6}"
proof
  assume b: "bit anyWrite n"
  then have "n < 8" using bit_imp_le_length [OF b] by simp
  with b show "n \<in> {4, 5, 6}"
    unfolding write_flag_bits by (simp add: bit_numeral_word_iff less_Suc_eq_0_disj numeral_eq_Suc) auto
qed (auto simp: write_flag_bits bit_numeral_word_iff)

lemma may_write_bits: "may_write a g \<longleftrightarrow> (\<exists>n \<in> {4, 5, 6}. bit a n \<and> bit g n)"
proof -
  have "may_write a g \<longleftrightarrow> (\<exists>n. bit ((a AND g) AND anyWrite) n)"
    unfolding may_write_def access_and_def access_none_def by (rule word_nonzero_bit)
  then show ?thesis by (auto simp: bit_and_iff bit_anyWrite)
qed

end
