(* ===== verification/Encoder.thy ===== *)
theory Encoder imports Prelude begin

text \<open>
  The encoder interface of include/thingset++/ThingSetEncoder.hpp and src/ThingSetEncoder.cpp.
  The pure virtual functions are the fields of \<open>encoder_ops\<close> (the vtable of an encoder whose
  object state is \<open>'e\<close>); each returns the bool of the code and the new object state. The
  template functions built on them (lists, maps, pairs, arrays, classes) are the functions below,
  over the values a property can hold. A value carries its C++ type in its constructor, which is
  what overload resolution selects on; floating point values are their IEEE 754 bit patterns.
\<close>

subsection \<open>Values\<close>

datatype prim =
    PBool bool
  | PU8 u8 | PU16 u16 | PU32 u32 | PU64 u64
  | PI8 u8 | PI16 u16 | PI32 u32 | PI64 u64
  | PF32 u32 | PF64 u64
  | PStr string

datatype tsval =
    Prim prim
  | VArr "tsval list"                      \<comment> \<open>std::array, or pointer and size\<close>
  | VList "tsval list"                     \<comment> \<open>std::list\<close>
  | VMap "(tsval \<times> tsval) list"           \<comment> \<open>std::map, in key order\<close>
  | VRec "(u16 \<times> string \<times> tsval) list"  \<comment> \<open>class with ThingSet members: id, name, value\<close>

subsection \<open>The virtual functions\<close>

record 'e encoder_ops =
  o_cstr :: "string \<Rightarrow> 'e \<Rightarrow> bool \<times> 'e"
  o_f32 :: "u32 \<Rightarrow> 'e \<Rightarrow> bool \<times> 'e"
  o_f64 :: "u64 \<Rightarrow> 'e \<Rightarrow> bool \<times> 'e"
  o_bool :: "bool \<Rightarrow> 'e \<Rightarrow> bool \<times> 'e"
  o_u8 :: "u8 \<Rightarrow> 'e \<Rightarrow> bool \<times> 'e"
  o_u16 :: "u16 \<Rightarrow> 'e \<Rightarrow> bool \<times> 'e"
  o_u32 :: "u32 \<Rightarrow> 'e \<Rightarrow> bool \<times> 'e"
  o_u64 :: "u64 \<Rightarrow> 'e \<Rightarrow> bool \<times> 'e"
  o_i8 :: "u8 \<Rightarrow> 'e \<Rightarrow> bool \<times> 'e"
  o_i16 :: "u16 \<Rightarrow> 'e \<Rightarrow> bool \<times> 'e"
  o_i32 :: "u32 \<Rightarrow> 'e \<Rightarrow> bool \<times> 'e"
  o_i64 :: "u64 \<Rightarrow> 'e \<Rightarrow> bool \<times> 'e"
  o_null :: "'e \<Rightarrow> bool \<times> 'e"
  o_preamble :: "'e \<Rightarrow> bool \<times> 'e"
  o_list_start :: "'e \<Rightarrow> bool \<times> 'e"
  o_list_start_n :: "nat \<Rightarrow> 'e \<Rightarrow> bool \<times> 'e"
  o_list_end :: "'e \<Rightarrow> bool \<times> 'e"
  o_list_end_n :: "nat \<Rightarrow> 'e \<Rightarrow> bool \<times> 'e"
  o_map_start :: "'e \<Rightarrow> bool \<times> 'e"
  o_map_start_n :: "nat \<Rightarrow> 'e \<Rightarrow> bool \<times> 'e"
  o_map_end :: "'e \<Rightarrow> bool \<times> 'e"
  o_map_end_n :: "nat \<Rightarrow> 'e \<Rightarrow> bool \<times> 'e"
  o_bytes :: "u8 list \<Rightarrow> 'e \<Rightarrow> bool \<times> 'e"
  o_list_sep :: "'e \<Rightarrow> bool \<times> 'e"
  o_kv_sep :: "'e \<Rightarrow> bool \<times> 'e"
  o_keys_as_ids :: "'e \<Rightarrow> bool"
  o_outline :: "'e \<Rightarrow> bool"
  o_rendered :: "nat \<Rightarrow> 'e \<Rightarrow> nat"
  o_trunc :: "'e \<Rightarrow> bool \<times> 'e"
  o_length :: "'e \<Rightarrow> nat"

text \<open>The hooks an encoder need not override.\<close>

definition default_outline :: "'e \<Rightarrow> bool" where "default_outline e = False"
definition default_rendered :: "nat \<Rightarrow> 'e \<Rightarrow> nat" where "default_rendered n e = n"
definition default_trunc :: "'e \<Rightarrow> bool \<times> 'e" where "default_trunc e = (True, e)"

text \<open>A chain \<open>f() && g() && ...\<close>: it stops at the first false, with the state reached there.\<close>

fun seq :: "('e \<Rightarrow> bool \<times> 'e) list \<Rightarrow> 'e \<Rightarrow> bool \<times> 'e" where
  "seq [] e = (True, e)"
| "seq [f] e = f e"
| "seq (f # g # fs) e = (let (r, e') = f e in if r then seq (g # fs) e' else (False, e'))"

subsection \<open>The template functions\<close>

fun enc_prim :: "'e encoder_ops \<Rightarrow> prim \<Rightarrow> 'e \<Rightarrow> bool \<times> 'e" where
  "enc_prim ops (PBool b) = o_bool ops b"
| "enc_prim ops (PU8 v) = o_u8 ops v"
| "enc_prim ops (PU16 v) = o_u16 ops v"
| "enc_prim ops (PU32 v) = o_u32 ops v"
| "enc_prim ops (PU64 v) = o_u64 ops v"
| "enc_prim ops (PI8 v) = o_i8 ops v"
| "enc_prim ops (PI16 v) = o_i16 ops v"
| "enc_prim ops (PI32 v) = o_i32 ops v"
| "enc_prim ops (PI64 v) = o_i64 ops v"
| "enc_prim ops (PF32 v) = o_f32 ops v"
| "enc_prim ops (PF64 v) = o_f64 ops v"
| "enc_prim ops (PStr s) = o_cstr ops s"

text \<open>
  Each template function takes the encode calls of its elements as actions on the encoder, in
  order; \<open>enc_val\<close> supplies them, as the instantiation of the template does.
  \<open>enc_elems\<close> is the loop of the pointer-and-size overload: a failure clears the result but the
  loop goes on. \<open>enc_items\<close> is the loop over a std::list, which stops at the first failure and
  writes no separator. \<open>enc_fields\<close> ignores every result, as the code does.
\<close>

type_synonym 'e action = "'e \<Rightarrow> bool \<times> 'e"

fun enc_elems :: "'e encoder_ops \<Rightarrow> 'e action list \<Rightarrow> bool \<times> 'e \<Rightarrow> bool \<times> 'e" where
  "enc_elems ops [] re = re"
| "enc_elems ops (x # xs) (r, e) =
     (let (a, e') = seq [x, o_list_sep ops] e in enc_elems ops xs (r \<and> a, e'))"

definition enc_array :: "'e encoder_ops \<Rightarrow> 'e action list \<Rightarrow> 'e action" where
  "enc_array ops xs e =
     (let rendered = o_rendered ops (length xs) e;
          (r1, e1) = enc_elems ops (take rendered xs) (o_list_start_n ops (length xs) e);
          (r2, e2) = (if rendered < length xs
                      then let (t, e') = seq [o_trunc ops, o_list_sep ops] e1 in (r1 \<and> t, e')
                      else (r1, e1))
      in if r2 then o_list_end_n ops (length xs) e2 else (False, e2))"

fun enc_items :: "'e encoder_ops \<Rightarrow> 'e action list \<Rightarrow> 'e action" where
  "enc_items ops [] e = (True, e)"
| "enc_items ops (x # xs) e = seq [x, enc_items ops xs] e"

definition enc_list :: "'e encoder_ops \<Rightarrow> 'e action list \<Rightarrow> 'e action" where
  "enc_list ops xs =
     seq [o_list_start_n ops (length xs), enc_items ops xs, o_list_end_n ops (length xs)]"

text \<open>\<open>encode(std::pair)\<close>: also what groups and the server call with a key and an encodable object.\<close>

definition enc_pair :: "'e encoder_ops \<Rightarrow> 'e action \<times> 'e action \<Rightarrow> 'e action" where
  "enc_pair ops kv = seq [fst kv, o_kv_sep ops, snd kv, o_list_sep ops]"

fun enc_pairs :: "'e encoder_ops \<Rightarrow> ('e action \<times> 'e action) list \<Rightarrow> 'e action" where
  "enc_pairs ops [] e = (True, e)"
| "enc_pairs ops (kv # kvs) e = seq [enc_pair ops kv, enc_pairs ops kvs] e"

definition enc_map :: "'e encoder_ops \<Rightarrow> ('e action \<times> 'e action) list \<Rightarrow> 'e action" where
  "enc_map ops kvs =
     seq [o_map_start_n ops (length kvs), enc_pairs ops kvs, o_map_end_n ops (length kvs)]"

fun enc_fields :: "'e encoder_ops \<Rightarrow> (u16 \<times> string \<times> 'e action) list \<Rightarrow> 'e \<Rightarrow> 'e" where
  "enc_fields ops [] e = e"
| "enc_fields ops ((i, n, v) # fs) e =
     (let e1 = snd (if o_keys_as_ids ops e then o_u32 ops (ucast i) e else o_cstr ops n e);
          e2 = snd (o_kv_sep ops e1);
          e3 = snd (v e2);
          e4 = snd (o_list_sep ops e3)
      in enc_fields ops fs e4)"

definition enc_class :: "'e encoder_ops \<Rightarrow> (u16 \<times> string \<times> 'e action) list \<Rightarrow> 'e action" where
  "enc_class ops fs e =
     (let (r, e1) = o_map_start_n ops (length fs) e
      in if r then o_map_end_n ops (length fs) (enc_fields ops fs e1) else (False, e1))"

fun enc_val :: "'e encoder_ops \<Rightarrow> tsval \<Rightarrow> 'e action" where
  "enc_val ops (Prim p) = enc_prim ops p"
| "enc_val ops (VArr xs) = enc_array ops (map (enc_val ops) xs)"
| "enc_val ops (VList xs) = enc_list ops (map (enc_val ops) xs)"
| "enc_val ops (VMap kvs) = enc_map ops (map (\<lambda>(k, v). (enc_val ops k, enc_val ops v)) kvs)"
| "enc_val ops (VRec fs) = enc_class ops (map (\<lambda>(i, n, v). (i, n, enc_val ops v)) fs)"

text \<open>\<open>encodeList(args...)\<close>: the arguments of a request.\<close>

fun encodeAndShift :: "'e encoder_ops \<Rightarrow> 'e action list \<Rightarrow> 'e action" where
  "encodeAndShift ops [] e = (True, e)"
| "encodeAndShift ops (a # rest) e = seq [a, o_list_sep ops, encodeAndShift ops rest] e"

definition encodeList :: "'e encoder_ops \<Rightarrow> 'e action list \<Rightarrow> 'e action" where
  "encodeList ops args =
     seq [o_list_start_n ops (length args), encodeAndShift ops args, o_list_end_n ops (length args)]"

subsection \<open>Lemmas on chains\<close>

lemma seq_Cons: "seq (f # fs) e = (let (r, e') = f e in if r then seq fs e' else (False, e'))"
  by (cases fs; cases "f e") auto

lemma seq_append: "seq (fs @ gs) e = (let (r, e') = seq fs e in if r then seq gs e' else (False, e'))"
  by (induction fs arbitrary: e) (auto simp: seq_Cons Let_def split: prod.splits)

lemma seq_TrueI: "f e = (True, e') \<Longrightarrow> seq (f # fs) e = seq fs e'"
  by (simp add: seq_Cons)

text \<open>A preserved predicate of the single operations is preserved by a chain.\<close>

definition keeps :: "('e \<Rightarrow> bool) \<Rightarrow> ('e \<Rightarrow> bool \<times> 'e) \<Rightarrow> bool" where
  "keeps I f \<longleftrightarrow> (\<forall>e. I e \<longrightarrow> I (snd (f e)))"

lemma keepsD: "keeps I f \<Longrightarrow> I e \<Longrightarrow> I (snd (f e))"
  by (simp add: keeps_def)

lemma keeps_seq: "(\<And>f. f \<in> set fs \<Longrightarrow> keeps I f) \<Longrightarrow> keeps I (seq fs)"
proof (induction fs)
  case Nil
  then show ?case by (simp add: keeps_def)
next
  case (Cons f fs)
  then have k: "keeps I f" "keeps I (seq fs)" by auto
  show ?case
  proof (unfold keeps_def, intro allI impI)
    fix e assume "I e"
    with k(1) have i: "I (snd (f e))" by (rule keepsD)
    with k(2) have "I (snd (seq fs (snd (f e))))" by (rule keepsD)
    with i show "I (snd (seq (f # fs) e))" by (simp add: seq_Cons case_prod_beta)
  qed
qed

end
