(* ===== verification/TextEncoder.thy ===== *)
theory TextEncoder imports Encoder begin

text \<open>
  The text encoder: include/thingset++/ThingSetTextEncoder.hpp and src/ThingSetTextEncoder.cpp.
  The object holds the response buffer, its size, the write position, the nesting depth (a
  uint8_t that wraps) and the options; characters are the bytes of the buffer. snprintf is modelled
  from the C standard: it writes at most n - 1 characters and a NUL. The two build-time settings
  (float precision, abbreviation length) are a record. The second half gives the text a value
  denotes, and shows that the encoder writes exactly that text.
\<close>

subsection \<open>Bytes of text\<close>

definition bytes_of :: "string \<Rightarrow> u8 list" where "bytes_of = map of_char"

fun dec_text :: "nat \<Rightarrow> u8 list" where
  "dec_text n = (if n < 10 then [of_nat (48 + n)] else dec_text (n div 10) @ [of_nat (48 + n mod 10)])"

declare dec_text.simps [simp del]

definition int_text :: "int \<Rightarrow> u8 list" where
  "int_text i = (if i < 0 then 45 # dec_text (nat (- i)) else dec_text (nat i))"

fun pad_dec :: "nat \<Rightarrow> nat \<Rightarrow> u8 list" where
  "pad_dec 0 n = []"
| "pad_dec (Suc k) n = pad_dec k (n div 10) @ [of_nat (48 + n mod 10)]"

text \<open>
  \<open>%.pf\<close> of an IEEE 754 number with \<open>ebits\<close> exponent and \<open>mbits\<close> fraction bits: the exact value is
  \<open>m * 2 ^ e\<close>, scaled by \<open>10 ^ p\<close> and rounded to the nearest integer, ties to even.
\<close>

definition round_half_even :: "nat \<Rightarrow> nat \<Rightarrow> nat" where
  "round_half_even n d =
    (let q = n div d; r = n mod d
     in if 2 * r < d \<or> (2 * r = d \<and> even q) then q else q + 1)"

definition ieee_text :: "nat \<Rightarrow> nat \<Rightarrow> nat \<Rightarrow> nat \<Rightarrow> u8 list" where
  "ieee_text ebits mbits p bits =
    (let frac = bits mod 2 ^ mbits;
         ex = bits div 2 ^ mbits mod 2 ^ ebits;
         sign = (if bits div 2 ^ (ebits + mbits) mod 2 = 1 then [45] else []);
         m = (if ex = 0 then frac else frac + 2 ^ mbits);
         e = (if ex = 0 then 1 else int ex) - (2 ^ (ebits - 1) - 1) - int mbits;
         n = (if 0 \<le> e then m * 2 ^ nat e * 10 ^ p else round_half_even (m * 10 ^ p) (2 ^ nat (- e)))
     in if ex = 2 ^ ebits - 1 then sign @ (if frac = 0 then bytes_of ''inf'' else bytes_of ''nan'')
        else sign @ dec_text (n div 10 ^ p) @ (if p = 0 then [] else 46 # pad_dec p (n mod 10 ^ p)))"

definition f32_text :: "nat \<Rightarrow> u32 \<Rightarrow> u8 list" where "f32_text p v = ieee_text 8 23 p (unat v)"
definition f64_text :: "nat \<Rightarrow> u64 \<Rightarrow> u8 list" where "f64_text p v = ieee_text 11 52 p (unat v)"

text \<open>A C string ends at its first NUL.\<close>

definition c_str :: "string \<Rightarrow> u8 list" where
  "c_str s = takeWhile (\<lambda>b. b \<noteq> 0) (bytes_of s)"

subsection \<open>Options\<close>

definition opt_none :: u32 where "opt_none = 0"
definition opt_abbreviateArrays :: u32 where "opt_abbreviateArrays = push_bit 0 1"
definition opt_outlineGroups :: u32 where "opt_outlineGroups = push_bit 1 1"
definition opt_displayFriendly :: u32 where
  "opt_displayFriendly = opt_abbreviateArrays OR opt_outlineGroups"

definition opts_any :: "u32 \<Rightarrow> u32 \<Rightarrow> bool" where
  "opts_any v flag \<longleftrightarrow> v AND flag \<noteq> 0"

record text_cfg =
  tc_precision :: nat           \<comment> \<open>CONFIG_THINGSET_PLUS_PLUS_TEXT_FLOAT_PRECISION\<close>
  tc_array_max :: "nat option"  \<comment> \<open>CONFIG_THINGSET_PLUS_PLUS_TEXT_ARRAY_MAX, when defined\<close>

definition default_text_cfg :: text_cfg where
  "default_text_cfg = \<lparr>tc_precision = 6, tc_array_max = None\<rparr>"

subsection \<open>The encoder object\<close>

record text_encoder =
  te_buf :: "u8 list"
  te_size :: nat
  te_pos :: nat
  te_depth :: u8
  te_opts :: u32

definition te_make :: "u8 list \<Rightarrow> nat \<Rightarrow> u32 \<Rightarrow> text_encoder" where
  "te_make buf sz opts = \<lparr>te_buf = buf, te_size = sz, te_pos = 0, te_depth = 0, te_opts = opts\<rparr>"

definition te_append :: "u8 \<Rightarrow> text_encoder \<Rightarrow> bool \<times> text_encoder" where
  "te_append c e =
    (if te_pos e \<ge> te_size e then (False, e)
     else (True, e\<lparr>te_buf := (te_buf e)[te_pos e := c], te_pos := te_pos e + 1\<rparr>))"

text \<open>snprintf into \<open>n\<close> bytes at \<open>p\<close>.\<close>

definition snprintf_at :: "u8 list \<Rightarrow> nat \<Rightarrow> nat \<Rightarrow> u8 list \<Rightarrow> u8 list" where
  "snprintf_at buf p n s = (if n = 0 then buf else overwrite buf p (take (n - 1) s @ [0]))"

definition te_appendFormat :: "u8 list \<Rightarrow> text_encoder \<Rightarrow> bool \<times> text_encoder" where
  "te_appendFormat s e =
    (if te_size e < te_pos e + length s then (False, e)
     else (True, e\<lparr>te_buf := snprintf_at (te_buf e) (te_pos e) (te_size e - te_pos e) s,
                   te_pos := te_pos e + length s\<rparr>))"

definition te_cstr :: "string \<Rightarrow> text_encoder \<Rightarrow> bool \<times> text_encoder" where
  "te_cstr s = seq [te_append 34, te_appendFormat (c_str s), te_append 34]"

definition te_null :: "text_encoder \<Rightarrow> bool \<times> text_encoder" where
  "te_null = te_appendFormat (bytes_of ''null'')"

definition te_preamble :: "text_encoder \<Rightarrow> bool \<times> text_encoder" where
  "te_preamble e = (True, e)"

definition te_map_start :: "text_encoder \<Rightarrow> bool \<times> text_encoder" where
  "te_map_start e = te_append 123 (e\<lparr>te_depth := te_depth e + 1\<rparr>)"

definition te_strip :: "text_encoder \<Rightarrow> text_encoder" where
  "te_strip e = (if te_pos e > 0 \<and> te_buf e ! (te_pos e - 1) = 44 then e\<lparr>te_pos := te_pos e - 1\<rparr> else e)"

definition te_map_end :: "text_encoder \<Rightarrow> bool \<times> text_encoder" where
  "te_map_end e = te_append 125 (te_strip (e\<lparr>te_depth := te_depth e - 1\<rparr>))"

definition te_list_start :: "text_encoder \<Rightarrow> bool \<times> text_encoder" where
  "te_list_start e = te_append 91 (e\<lparr>te_depth := te_depth e + 1\<rparr>)"

definition te_list_end :: "text_encoder \<Rightarrow> bool \<times> text_encoder" where
  "te_list_end e = te_append 93 (te_strip (e\<lparr>te_depth := te_depth e - 1\<rparr>))"

definition te_bytes :: "u8 list \<Rightarrow> text_encoder \<Rightarrow> bool \<times> text_encoder" where
  "te_bytes bs e = (False, e)"

definition te_outline :: "text_encoder \<Rightarrow> bool" where
  "te_outline e \<longleftrightarrow> opts_any (te_opts e) opt_outlineGroups \<and> te_depth e > 0"

definition renderedListLength :: "text_cfg \<Rightarrow> u32 \<Rightarrow> u8 \<Rightarrow> nat \<Rightarrow> nat" where
  "renderedListLength cfg opts depth sz =
    (case tc_array_max cfg of
       None \<Rightarrow> sz
     | Some m \<Rightarrow> if m > 0 \<and> opts_any opts opt_abbreviateArrays \<and> depth > 0 \<and> sz > m then m else sz)"

definition te_rendered :: "text_cfg \<Rightarrow> nat \<Rightarrow> text_encoder \<Rightarrow> nat" where
  "te_rendered cfg sz e = renderedListLength cfg (te_opts e) (te_depth e) sz"

definition te_trunc :: "text_encoder \<Rightarrow> bool \<times> text_encoder" where
  "te_trunc = seq [te_append 46, te_append 46, te_append 46]"

definition text_ops :: "text_cfg \<Rightarrow> text_encoder encoder_ops" where
  "text_ops cfg = \<lparr>
     o_cstr = te_cstr,
     o_f32 = \<lambda>v. te_appendFormat (f32_text (tc_precision cfg) v),
     o_f64 = \<lambda>v. te_appendFormat (f64_text (tc_precision cfg) v),
     o_bool = \<lambda>b. te_appendFormat (int_text (if b then 1 else 0)),
     o_u8 = \<lambda>v. te_appendFormat (int_text (uint v)),
     o_u16 = \<lambda>v. te_appendFormat (int_text (uint v)),
     o_u32 = \<lambda>v. te_appendFormat (int_text (uint v)),
     o_u64 = \<lambda>v. te_appendFormat (int_text (uint v)),
     o_i8 = \<lambda>v. te_appendFormat (int_text (sint v)),
     o_i16 = \<lambda>v. te_appendFormat (int_text (sint v)),
     o_i32 = \<lambda>v. te_appendFormat (int_text (sint v)),
     o_i64 = \<lambda>v. te_appendFormat (int_text (sint v)),
     o_null = te_null,
     o_preamble = te_preamble,
     o_list_start = te_list_start,
     o_list_start_n = \<lambda>n. te_list_start,
     o_list_end = te_list_end,
     o_list_end_n = \<lambda>n. te_list_end,
     o_map_start = te_map_start,
     o_map_start_n = \<lambda>n. te_map_start,
     o_map_end = te_map_end,
     o_map_end_n = \<lambda>n. te_map_end,
     o_bytes = te_bytes,
     o_list_sep = te_append 44,
     o_kv_sep = te_append 58,
     o_keys_as_ids = \<lambda>e. False,
     o_outline = te_outline,
     o_rendered = te_rendered cfg,
     o_trunc = te_trunc,
     o_length = te_pos\<rparr>"

subsection \<open>The text of a value\<close>

text \<open>
  What the encoder promises: \<open>text_of cfg opts d v\<close> is the text of \<open>v\<close> at nesting depth \<open>d\<close>. Arrays,
  maps and classes are comma separated; a std::list is written without separators, as the code does.
\<close>

fun commas :: "u8 list list \<Rightarrow> u8 list" where
  "commas [] = []"
| "commas [t] = t"
| "commas (t # u # ts) = t @ 44 # commas (u # ts)"

fun text_prim :: "nat \<Rightarrow> prim \<Rightarrow> u8 list" where
  "text_prim p (PBool b) = int_text (if b then 1 else 0)"
| "text_prim p (PU8 v) = int_text (uint v)"
| "text_prim p (PU16 v) = int_text (uint v)"
| "text_prim p (PU32 v) = int_text (uint v)"
| "text_prim p (PU64 v) = int_text (uint v)"
| "text_prim p (PI8 v) = int_text (sint v)"
| "text_prim p (PI16 v) = int_text (sint v)"
| "text_prim p (PI32 v) = int_text (sint v)"
| "text_prim p (PI64 v) = int_text (sint v)"
| "text_prim p (PF32 v) = f32_text p v"
| "text_prim p (PF64 v) = f64_text p v"
| "text_prim p (PStr s) = 34 # c_str s @ [34]"

definition text_array :: "text_cfg \<Rightarrow> u32 \<Rightarrow> u8 \<Rightarrow> u8 list list \<Rightarrow> u8 list" where
  "text_array cfg opts d ts =
     (let r = renderedListLength cfg opts d (length ts)
      in 91 # commas (take r ts @ (if r < length ts then [[46, 46, 46]] else [])) @ [93])"

definition text_map :: "(u8 list \<times> u8 list) list \<Rightarrow> u8 list" where
  "text_map kvs = 123 # commas (map (\<lambda>(k, v). k @ 58 # v) kvs) @ [125]"

fun text_of :: "text_cfg \<Rightarrow> u32 \<Rightarrow> u8 \<Rightarrow> tsval \<Rightarrow> u8 list" where
  "text_of cfg opts d (Prim p) = text_prim (tc_precision cfg) p"
| "text_of cfg opts d (VArr xs) = text_array cfg opts d (map (text_of cfg opts (d + 1)) xs)"
| "text_of cfg opts d (VList xs) = 91 # concat (map (text_of cfg opts (d + 1)) xs) @ [93]"
| "text_of cfg opts d (VMap kvs) =
     text_map (map (\<lambda>(k, v). (text_of cfg opts (d + 1) k, text_of cfg opts (d + 1) v)) kvs)"
| "text_of cfg opts d (VRec fs) =
     text_map (map (\<lambda>(i, n, v). (34 # c_str n @ [34], text_of cfg opts (d + 1) v)) fs)"

lemma concat_commas: "ts \<noteq> [] \<Longrightarrow> concat (map (\<lambda>t. t @ [44]) ts) = commas ts @ [44]"
  by (induction ts rule: commas.induct) auto

lemma length_commas: "length (concat (map (\<lambda>t. t @ [44]) ts)) \<le> Suc (length (commas ts))"
proof (cases "ts = []")
  case False
  from arg_cong [OF concat_commas [OF this], of length] show ?thesis by simp
qed simp

subsection \<open>Writing exactly a text\<close>

definition te_wf :: "text_encoder \<Rightarrow> bool" where
  "te_wf e \<longleftrightarrow> te_pos e \<le> te_size e \<and> te_size e \<le> length (te_buf e)"

text \<open>\<open>emits e bs r\<close>: the result \<open>r\<close> is success with \<open>bs\<close> added to what \<open>e\<close> had written.\<close>

definition emits :: "text_encoder \<Rightarrow> u8 list \<Rightarrow> bool \<times> text_encoder \<Rightarrow> bool" where
  "emits e bs r \<longleftrightarrow>
     fst r \<and> te_pos (snd r) = te_pos e + length bs \<and>
     take (te_pos (snd r)) (te_buf (snd r)) = take (te_pos e) (te_buf e) @ bs \<and>
     length (te_buf (snd r)) = length (te_buf e) \<and>
     te_size (snd r) = te_size e \<and> te_depth (snd r) = te_depth e \<and> te_opts (snd r) = te_opts e"

definition fits :: "text_encoder \<Rightarrow> u8 list \<Rightarrow> bool" where
  "fits e bs \<longleftrightarrow> te_wf e \<and> te_pos e + length bs < te_size e"

definition writes :: "text_encoder action \<Rightarrow> (u32 \<Rightarrow> u8 \<Rightarrow> u8 list) \<Rightarrow> bool" where
  "writes f t \<longleftrightarrow> (\<forall>e. fits e (t (te_opts e) (te_depth e)) \<longrightarrow> emits e (t (te_opts e) (te_depth e)) (f e))"

lemma writesD: "writes f t \<Longrightarrow> fits e (t (te_opts e) (te_depth e)) \<Longrightarrow> emits e (t (te_opts e) (te_depth e)) (f e)"
  by (simp add: writes_def)

lemma emits_refl [simp]: "emits e [] (True, e)"
  by (simp add: emits_def)

lemma emits_append: "fits e [c] \<Longrightarrow> emits e [c] (te_append c e)"
  by (auto simp: fits_def te_wf_def emits_def te_append_def take_Suc_conv_app_nth)

lemma emits_appendFormat: "fits e s \<Longrightarrow> emits e s (te_appendFormat s e)"
proof -
  assume f: "fits e s"
  then have le: "te_pos e \<le> length (te_buf e)" "te_pos e + length s < te_size e" "te_size e \<le> length (te_buf e)"
    by (auto simp: fits_def te_wf_def)
  let ?xs = "take (te_size e - te_pos e - 1) s @ [0]"
  have xs: "take (length s) ?xs = s" "length s \<le> length ?xs" "length ?xs \<le> te_size e - te_pos e"
    using le by auto
  have "take (te_pos e + length s) (overwrite (te_buf e) (te_pos e) ?xs) = take (te_pos e) (te_buf e) @ s"
    using le(1) xs(1,2) by (simp only: take_overwrite_ge)
  moreover have "length (overwrite (te_buf e) (te_pos e) ?xs) = length (te_buf e)"
    using le xs(3) by (intro length_overwrite) linarith
  ultimately show ?thesis using le by (simp add: te_appendFormat_def emits_def snprintf_at_def)
qed

lemma emits_trans:
  assumes "emits e a (True, e1)" "emits e1 b r"
  shows "emits e (a @ b) r"
proof -
  have "take (te_pos (snd r)) (te_buf (snd r)) = take (te_pos e1) (te_buf e1) @ b"
    using assms(2) unfolding emits_def by blast
  moreover have "take (te_pos e1) (te_buf e1) = take (te_pos e) (te_buf e) @ a"
    using assms(1) unfolding emits_def by auto
  ultimately have t: "take (te_pos (snd r)) (te_buf (snd r)) = take (te_pos e) (te_buf e) @ a @ b"
    by simp
  have p: "te_pos (snd r) = te_pos e + length (a @ b)" using assms by (simp add: emits_def)
  show ?thesis unfolding emits_def using assms by (intro conjI t p) (simp_all add: emits_def)
qed

lemma fits_after: "emits e a (True, e1) \<Longrightarrow> fits e (a @ b) \<Longrightarrow> fits e1 b"
  by (auto simp: emits_def fits_def te_wf_def)

lemma fits_le: "fits e bs \<Longrightarrow> length cs \<le> length bs \<Longrightarrow> fits e cs"
  by (auto simp: fits_def)

lemma fits_prefix: "fits e (a @ b) \<Longrightarrow> fits e a"
  by (auto simp: fits_def)

lemma emits_obtain:
  assumes "emits e a r"
  obtains e1 where "r = (True, e1)" "emits e a (True, e1)" "te_opts e1 = te_opts e" "te_depth e1 = te_depth e"
  using assms by (cases r) (auto simp: emits_def)

lemma writes_at:
  "writes f t \<Longrightarrow> fits e (t q d @ bs) \<Longrightarrow> q = te_opts e \<Longrightarrow> d = te_depth e \<Longrightarrow> emits e (t q d) (f e)"
  using writesD [of f t e] fits_prefix [of e "t q d" bs] by simp

lemma emits_cong: "emits e a r \<Longrightarrow> a = b \<Longrightarrow> emits e b r" by simp

lemma emits_seq_Cons:
  assumes "emits e a (f e)" "\<And>e1. emits e a (True, e1) \<Longrightarrow> te_opts e1 = te_opts e \<Longrightarrow> te_depth e1 = te_depth e
     \<Longrightarrow> emits e1 b (seq fs e1)"
  shows "emits e (a @ b) (seq (f # fs) e)"
  using assms(1)
proof (rule emits_obtain)
  fix e1 assume r: "f e = (True, e1)" and e: "emits e a (True, e1)"
    and o: "te_opts e1 = te_opts e" "te_depth e1 = te_depth e"
  from emits_trans [OF e assms(2) [OF e o]] show ?thesis by (simp add: seq_Cons r)
qed

lemma emits_seq_append:
  assumes "fits e (a @ [c])" "emits e a (f e)"
  shows "emits e (a @ [c]) (seq [f, te_append c] e)"
proof (rule emits_seq_Cons)
  show "emits e a (f e)" by (rule assms(2))
next
  fix e1 assume "emits e a (True, e1)"
  then show "emits e1 [c] (seq [te_append c] e1)"
    using assms(1) by (simp add: emits_append fits_after)
qed

lemma emits_appends: "fits e cs \<Longrightarrow> emits e cs (seq (map te_append cs) e)"
proof (induction cs arbitrary: e)
  case (Cons c cs)
  have "emits e ([c] @ cs) (seq (te_append c # map te_append cs) e)"
  proof (rule emits_seq_Cons)
    show "emits e [c] (te_append c e)"
      using Cons.prems by (intro emits_append) (rule fits_prefix [where b = cs], simp)
  next
    fix e1 assume "emits e [c] (True, e1)"
    then have "fits e1 cs" by (rule fits_after) (use Cons.prems in simp)
    then show "emits e1 cs (seq (map te_append cs) e1)" by (rule Cons.IH)
  qed
  then show ?case by simp
qed simp

subsection \<open>Elements, pairs and brackets\<close>

text \<open>The loop of a comma-terminated sequence, over actions and the texts they write.\<close>

lemma enc_elems_emits:
  assumes "list_all2 writes xs ts" "q = te_opts e" "d = te_depth e"
    "fits e (concat (map (\<lambda>t. t q d @ [44]) ts))"
  shows "emits e (concat (map (\<lambda>t. t q d @ [44]) ts)) (enc_elems (text_ops cfg) xs (True, e))"
  using assms
proof (induction arbitrary: e rule: list_all2_induct)
  case Nil
  then show ?case by simp
next
  case (Cons x xs t ts)
  let ?f = "seq [x, te_append 44]"
  have fit: "fits e (t q d @ [44])" "fits e (t q d)"
    using Cons.prems(3) by (auto elim!: fits_le)
  have "emits e (t q d @ [44]) (?f e)"
    using fit Cons.hyps(1) Cons.prems(1,2) by (intro emits_seq_append) (auto dest: writesD)
  then obtain e1 where e1: "?f e = (True, e1)" "emits e (t q d @ [44]) (True, e1)"
      "te_opts e1 = te_opts e" "te_depth e1 = te_depth e"
    by (rule emits_obtain)
  have "emits e1 (concat (map (\<lambda>t. t q d @ [44]) ts)) (enc_elems (text_ops cfg) xs (True, e1))"
    using Cons.prems e1(2-4) by (intro Cons.IH) (auto elim: fits_after)
  from emits_trans [OF e1(2) this] show ?case
    using e1(1) by (simp add: text_ops_def)
qed

lemma enc_pairs_emits:
  assumes "list_all2 (\<lambda>(k, v) (a, b). writes k a \<and> writes v b) kvs ts" "q = te_opts e" "d = te_depth e"
    "fits e (concat (map (\<lambda>(a, b). a q d @ 58 # b q d @ [44]) ts))"
  shows "emits e (concat (map (\<lambda>(a, b). a q d @ 58 # b q d @ [44]) ts)) (enc_pairs (text_ops cfg) kvs e)"
  using assms
proof (induction arbitrary: e rule: list_all2_induct)
  case Nil
  then show ?case by simp
next
  case (Cons kv kvs t ts)
  obtain k v a b where kv: "kv = (k, v)" "t = (a, b)" by (cases kv; cases t)
  have w: "writes k a" "writes v b" using Cons.hyps(1) kv by auto
  let ?f = "enc_pair (text_ops cfg) kv"
  let ?t = "a q d @ [58] @ b q d @ [44]"
  have fit: "fits e ?t" using Cons.prems(3) kv by (auto elim!: fits_le)
  have f: "?f = seq [k, te_append 58, v, te_append 44]"
    by (simp add: enc_pair_def kv text_ops_def)
  have "emits e ?t (?f e)"
    unfolding f
  proof (rule emits_seq_Cons)
    show "emits e (a q d) (k e)" by (rule writes_at [OF w(1) fit Cons.prems(1,2)])
  next
    fix e1 assume e1: "emits e (a q d) (True, e1)" and od: "te_opts e1 = te_opts e" "te_depth e1 = te_depth e"
    have fit1: "fits e1 ([58] @ b q d @ [44])" by (rule fits_after [OF e1 fit])
    show "emits e1 ([58] @ b q d @ [44]) (seq [te_append 58, v, te_append 44] e1)"
    proof (rule emits_seq_Cons)
      show "emits e1 [58] (te_append 58 e1)" using fit1 by (auto intro: emits_append elim!: fits_le)
    next
      fix e2 assume e2: "emits e1 [58] (True, e2)" and od2: "te_opts e2 = te_opts e1" "te_depth e2 = te_depth e1"
      have fit2: "fits e2 (b q d @ [44])" by (rule fits_after [OF e2 fit1])
      have "emits e2 (b q d) (v e2)"
        using od od2 Cons.prems(1,2) by (intro writes_at [OF w(2) fit2]) simp_all
      with fit2 show "emits e2 (b q d @ [44]) (seq [v, te_append 44] e2)" by (rule emits_seq_append)
    qed
  qed
  then obtain e1 where e1: "?f e = (True, e1)" "emits e ?t (True, e1)"
      "te_opts e1 = te_opts e" "te_depth e1 = te_depth e"
    by (rule emits_obtain)
  have "emits e1 (concat (map (\<lambda>(a, b). a q d @ 58 # b q d @ [44]) ts)) (enc_pairs (text_ops cfg) kvs e1)"
    using Cons.prems e1(2-4) kv by (intro Cons.IH) (auto elim: fits_after)
  from emits_trans [OF e1(2) this] show ?case
    using e1(1) by (simp add: kv)
qed

text \<open>
  Opening and closing a bracket around a body: the body is written one level deeper, and a
  trailing separator is taken back before the closing bracket is written.
\<close>

definition deeper :: "text_encoder \<Rightarrow> text_encoder" where
  "deeper e = e\<lparr>te_depth := te_depth e + 1\<rparr>"

lemma deeper_simps [simp]:
  "te_buf (deeper e) = te_buf e" "te_pos (deeper e) = te_pos e" "te_size (deeper e) = te_size e"
  "te_opts (deeper e) = te_opts e" "te_depth (deeper e) = te_depth e + 1"
  by (simp_all add: deeper_def)

lemma fits_deeper [simp]: "fits (deeper e) = fits e"
  by (simp add: fun_eq_iff fits_def te_wf_def)

lemma te_open:
  assumes "fits e [c]"
  obtains e1 where "te_append c (deeper e) = (True, e1)" "emits (deeper e) [c] (True, e1)"
    "te_opts e1 = te_opts e" "te_depth e1 = te_depth e + 1"
proof -
  have "emits (deeper e) [c] (te_append c (deeper e))" using assms by (simp add: emits_append)
  then show thesis by (rule emits_obtain) (use that in simp)
qed

lemma last_written:
  assumes "emits e bs (True, e1)" "bs \<noteq> []" "te_wf e"
  shows "te_pos e1 > 0" "te_buf e1 ! (te_pos e1 - 1) = last bs"
proof -
  have p: "te_pos e1 = te_pos e + length bs" and
    t: "take (te_pos e1) (te_buf e1) = take (te_pos e) (te_buf e) @ bs" and
    l: "length (te_buf e1) = length (te_buf e)"
    using assms(1) unfolding emits_def by auto
  show pos: "te_pos e1 > 0" using assms(2) p by simp
  have "te_pos e1 \<le> length (te_buf e1)"
    using arg_cong [OF t, of length] assms(3) p by (simp add: te_wf_def min_def split: if_splits)
  moreover have "take (te_pos e1) (te_buf e1) \<noteq> []" using t assms(2) by simp
  ultimately have "te_buf e1 ! (te_pos e1 - 1) = last (take (te_pos e1) (te_buf e1))"
    using pos by (simp add: last_conv_nth min_def)
  with assms(2) show "te_buf e1 ! (te_pos e1 - 1) = last bs" by (simp add: t)
qed

definition closing :: "u8 \<Rightarrow> text_encoder action" where
  "closing c e = te_append c (te_strip (e\<lparr>te_depth := te_depth e - 1\<rparr>))"

text \<open>The state before the closing bracket, with the text that stays.\<close>

lemma emits_closing:
  assumes body: "emits (deeper e) (bs @ sep) (True, e1)" and sep: "sep = [44] \<or> sep = [] \<and> bs \<noteq> [] \<and> last bs \<noteq> 44"
    and fit: "fits e (bs @ [c])"
  shows "emits e (bs @ [c]) (closing c e1)"
proof -
  define e2 where "e2 = te_strip (e1\<lparr>te_depth := te_depth e1 - 1\<rparr>)"
  have wf: "te_wf (deeper e)" using fit by (simp add: fits_def te_wf_def)
  have ne: "bs @ sep \<noteq> []" using sep by auto
  note lw = last_written [OF body ne wf]
  have b: "te_pos e1 = te_pos e + length (bs @ sep)"
    "take (te_pos e1) (te_buf e1) = take (te_pos e) (te_buf e) @ bs @ sep"
    "length (te_buf e1) = length (te_buf e)" "te_size e1 = te_size e"
    "te_depth e1 = te_depth e + 1" "te_opts e1 = te_opts e"
    using body unfolding emits_def by auto
  have pos: "te_pos e2 = te_pos e + length bs"
    using sep lw b(1) by (auto simp: te_strip_def e2_def)
  have "take (te_pos e2) (te_buf e1) = take (te_pos e2) (take (te_pos e1) (te_buf e1))"
    using pos b(1) by (simp add: min_def)
  also have "\<dots> = take (te_pos e) (te_buf e) @ bs"
    using fit by (simp add: b(2) pos fits_def te_wf_def min_def)
  finally have t: "take (te_pos e2) (te_buf e1) = take (te_pos e) (te_buf e) @ bs" .
  have buf: "te_buf e2 = te_buf e1" "te_size e2 = te_size e1" "te_opts e2 = te_opts e1"
    "te_depth e2 = te_depth e1 - 1"
    by (simp_all add: te_strip_def e2_def)
  have e2: "emits e bs (True, e2)"
    using b t pos unfolding emits_def by (simp add: buf)
  have "emits e2 [c] (te_append c e2)"
    using fits_after [OF e2 fit] by (rule emits_append)
  from emits_trans [OF e2 this] show ?thesis by (simp add: closing_def e2_def)
qed

lemma text_ops_brackets:
  "o_list_start_n (text_ops cfg) n e = te_append 91 (deeper e)"
  "o_map_start_n (text_ops cfg) n e = te_append 123 (deeper e)"
  "o_list_end_n (text_ops cfg) n = closing 93"
  "o_map_end_n (text_ops cfg) n = closing 125"
  by (simp_all add: text_ops_def te_list_start_def te_map_start_def deeper_def fun_eq_iff
      te_list_end_def te_map_end_def closing_def)

text \<open>A bracketed body of comma-terminated texts.\<close>

lemma bracket_commas:
  assumes op: "emits (deeper e) [c] (True, e1)" and
    body: "emits e1 (concat (map (\<lambda>t. t @ [44]) ts)) (True, e2)" and
    fit: "fits e (c # commas ts @ [c'])" and c: "c \<noteq> 44"
  shows "emits e (c # commas ts @ [c']) (closing c' e2)"
proof (cases "ts = []")
  case True
  have "emits (deeper e) ([c] @ []) (True, e2)" using emits_trans [OF op body] True by simp
  then have "emits e ([c] @ [c']) (closing c' e2)"
    by (rule emits_closing) (use c fit True in auto)
  then show ?thesis using True by simp
next
  case False
  have "emits (deeper e) ([c] @ commas ts @ [44]) (True, e2)"
    using emits_trans [OF op body] by (simp only: concat_commas [OF False])
  then have "emits (deeper e) ((c # commas ts) @ [44]) (True, e2)" by simp
  then have "emits e ((c # commas ts) @ [c']) (closing c' e2)"
    by (rule emits_closing) (use fit in auto)
  then show ?thesis by simp
qed

subsection \<open>No text ends in a separator\<close>

lemma digit_not_comma: "k < 10 \<Longrightarrow> (of_nat (48 + k) :: u8) \<noteq> 44"
proof
  assume k: "k < 10" and e: "(of_nat (48 + k) :: u8) = 44"
  have "unat (of_nat (48 + k) :: u8) = (48 + k) mod 256" by (simp only: unat_of_nat) simp
  moreover have "unat (of_nat (48 + k) :: u8) = 44" by (simp only: e) simp
  ultimately have "(48 + k) mod 256 = 44" by linarith
  moreover have "(48 + k) mod 256 = 48 + k" using k by (intro mod_less) linarith
  ultimately show False by linarith
qed

definition no_sep :: "u8 list \<Rightarrow> bool" where
  "no_sep t \<longleftrightarrow> t \<noteq> [] \<and> last t \<noteq> 44"

lemma no_sep_append [simp]: "no_sep b \<Longrightarrow> no_sep (a @ b)"
  by (simp add: no_sep_def)

lemma no_sep_Cons [simp]: "no_sep b \<Longrightarrow> no_sep (c # b)"
  by (simp add: no_sep_def)

lemma no_sep_dec: "no_sep (dec_text n)"
proof -
  have "no_sep [of_nat (48 + n mod 10)]" using digit_not_comma [of "n mod 10"] by (simp add: no_sep_def)
  then show ?thesis by (subst dec_text.simps) (auto simp: no_sep_def)
qed

lemma no_sep_int: "no_sep (int_text i)"
  by (simp add: int_text_def no_sep_dec no_sep_Cons)

lemma no_sep_pad: "no_sep (pad_dec (Suc k) n)"
  using digit_not_comma [of "n mod 10"] by (simp add: no_sep_def)

lemma no_sep_if: "no_sep a \<Longrightarrow> no_sep b \<Longrightarrow> no_sep (if c then a else b)"
  by simp

lemma no_sep_fraction: "no_sep (dec_text n @ (if p = 0 then [] else 46 # pad_dec p m))"
proof (cases p)
  case (Suc k)
  then show ?thesis by (simp only: no_sep_append no_sep_Cons no_sep_pad nat.distinct if_False)
qed (simp add: no_sep_dec)

lemma no_sep_ieee: "no_sep (ieee_text eb mb p bits)"
proof -
  have w: "no_sep (bytes_of ''inf'')" "no_sep (bytes_of ''nan'')"
    by (simp_all add: no_sep_def bytes_of_def)
  show ?thesis
    unfolding ieee_text_def Let_def
    by (rule no_sep_if; rule no_sep_append) (rule no_sep_if no_sep_fraction w)+
qed

lemma no_sep_text: "no_sep (text_of cfg q d v)"
proof (cases v)
  case (Prim p)
  then show ?thesis
    by (cases p) (simp_all add: no_sep_int f32_text_def f64_text_def no_sep_ieee, simp add: no_sep_def)
qed (simp_all add: text_array_def text_map_def no_sep_def Let_def)

subsection \<open>The template functions write the text\<close>

lemma writes_array:
  assumes w: "list_all2 writes xs ts"
  shows "writes (enc_array (text_ops cfg) xs) (\<lambda>q d. text_array cfg q d (map (\<lambda>t. t q (d + 1)) ts))"
proof (unfold writes_def, intro allI impI)
  fix e :: text_encoder
  let ?q = "te_opts e" and ?d = "te_depth e"
  let ?us = "map (\<lambda>t. t ?q (?d + 1)) ts"
  let ?r = "renderedListLength cfg ?q ?d (length ts)"
  let ?dots = "if ?r < length ts then [[46, 46, 46]] else []"
  let ?cs = "take ?r ?us @ ?dots"
  have len: "length xs = length ts" using w by (rule list_all2_lengthD)
  assume "fits e (text_array cfg ?q ?d ?us)"
  then have fit: "fits e (91 # commas ?cs @ [93])" by (simp add: text_array_def Let_def)
  have "fits e [91]" using fit by (rule fits_le) simp
  then obtain e1 where e1: "te_append 91 (deeper e) = (True, e1)" "emits (deeper e) [91] (True, e1)"
      "te_opts e1 = ?q" "te_depth e1 = ?d + 1" by (rule te_open)
  have fit1: "fits e1 (concat (map (\<lambda>t. t @ [44]) ?cs))"
  proof (rule fits_after [OF e1(2)])
    show "fits (deeper e) ([91] @ concat (map (\<lambda>t. t @ [44]) ?cs))"
      unfolding fits_deeper using fit by (rule fits_le) (use length_commas [of ?cs] in simp)
  qed
  have "emits e1 (concat (map (\<lambda>t. t ?q (?d + 1) @ [44]) (take ?r ts)))
    (enc_elems (text_ops cfg) (take ?r xs) (True, e1))"
    by (rule enc_elems_emits)
      (use w e1(3,4) fit1 in \<open>auto intro: list_all2_takeI simp: take_map comp_def elim!: fits_le\<close>)
  then obtain e2 where e2: "enc_elems (text_ops cfg) (take ?r xs) (True, e1) = (True, e2)"
      "emits e1 (concat (map (\<lambda>t. t @ [44]) (take ?r ?us))) (True, e2)"
    by (rule emits_obtain) (use that in \<open>simp add: take_map comp_def\<close>)
  let ?tail = "if ?r < length ts then seq [te_trunc, te_append 44] e2 else (True, e2)"
  have fit2: "fits e2 (concat (map (\<lambda>t. t @ [44]) ?dots))"
    by (rule fits_after [OF e2(2)]) (use fit1 in simp)
  have "emits e2 (concat (map (\<lambda>t. t @ [44]) ?dots)) ?tail"
  proof (cases "?r < length ts")
    case True
    then have "fits e2 [46, 46, 46, 44]" using fit2 by simp
    then have "emits e2 [46, 46, 46, 44] (seq (map te_append [46, 46, 46, 44]) e2)"
      by (rule emits_appends)
    moreover have "seq [te_trunc, te_append 44] e2 = seq (map te_append [46, 46, 46, 44]) e2"
      by (simp add: te_trunc_def Let_def split: prod.split)
    ultimately show ?thesis using True by simp
  qed simp
  then obtain e3 where e3: "?tail = (True, e3)" "emits e2 (concat (map (\<lambda>t. t @ [44]) ?dots)) (True, e3)"
    by (rule emits_obtain)
  have "emits e1 (concat (map (\<lambda>t. t @ [44]) ?cs)) (True, e3)"
    using emits_trans [OF e2(2) e3(2)] by simp
  from bracket_commas [OF e1(2) this fit]
  have c: "emits e (91 # commas ?cs @ [93]) (closing 93 e3)" by simp
  have "enc_array (text_ops cfg) xs e = closing 93 e3"
  proof -
    have ops: "o_rendered (text_ops cfg) (length ts) e = ?r" "o_trunc (text_ops cfg) = te_trunc"
      "o_list_sep (text_ops cfg) = te_append 44"
      by (simp_all add: text_ops_def te_rendered_def)
    have "(if ?r < length ts then let (t, e') = seq [te_trunc, te_append 44] e2 in (True \<and> t, e')
      else (True, e2)) = (True, e3)"
      using e3(1) by (auto split: if_splits)
    then show ?thesis
      unfolding enc_array_def len ops text_ops_brackets e1(1) Let_def e2(1) by simp
  qed
  then show "emits e (text_array cfg ?q ?d ?us) (enc_array (text_ops cfg) xs e)"
    using c by (simp add: text_array_def Let_def)
qed

lemma enc_items_emits:
  assumes "list_all2 writes xs ts" "q = te_opts e" "d = te_depth e" "fits e (concat (map (\<lambda>t. t q d) ts))"
  shows "emits e (concat (map (\<lambda>t. t q d) ts)) (enc_items (text_ops cfg) xs e)"
  using assms
proof (induction arbitrary: e rule: list_all2_induct)
  case (Cons x xs t ts)
  have fit: "fits e (t q d @ concat (map (\<lambda>t. t q d) ts))" using Cons.prems(3) by simp
  have "emits e (t q d @ concat (map (\<lambda>t. t q d) ts)) (seq [x, enc_items (text_ops cfg) xs] e)"
  proof (rule emits_seq_Cons)
    show "emits e (t q d) (x e)" by (rule writes_at [OF Cons.hyps(1) fit Cons.prems(1,2)])
  next
    fix e1 assume e1: "emits e (t q d) (True, e1)" "te_opts e1 = te_opts e" "te_depth e1 = te_depth e"
    have "fits e1 (concat (map (\<lambda>t. t q d) ts))" by (rule fits_after [OF e1(1) fit])
    then show "emits e1 (concat (map (\<lambda>t. t q d) ts)) (seq [enc_items (text_ops cfg) xs] e1)"
      using Cons.IH [of e1] Cons.prems(1,2) e1(2,3) by simp
  qed
  then show ?case by simp
qed simp

text \<open>The three bracketed forms share one shape: open, body one level deeper, close.\<close>

lemma no_sep_concat: "ts \<noteq> [] \<Longrightarrow> \<forall>t \<in> set ts. no_sep t \<Longrightarrow> no_sep (concat ts)"
proof (induction ts)
  case (Cons t ts)
  then show ?case by (cases "ts = []") auto
qed simp

lemma writes_list:
  assumes w: "list_all2 writes xs ts" and ns: "\<And>t q d. t \<in> set ts \<Longrightarrow> no_sep (t q d)"
  shows "writes (enc_list (text_ops cfg) xs) (\<lambda>q d. 91 # concat (map (\<lambda>t. t q (d + 1)) ts) @ [93])"
proof (unfold writes_def, intro allI impI)
  fix e :: text_encoder
  let ?q = "te_opts e" and ?d = "te_depth e"
  let ?us = "map (\<lambda>t. t ?q (?d + 1)) ts"
  assume fit: "fits e (91 # concat ?us @ [93])"
  have "fits e [91]" using fit by (rule fits_le) simp
  then obtain e1 where e1: "te_append 91 (deeper e) = (True, e1)" "emits (deeper e) [91] (True, e1)"
      "te_opts e1 = ?q" "te_depth e1 = ?d + 1" by (rule te_open)
  have "fits e1 (concat ?us)"
    by (rule fits_after [OF e1(2)]) (unfold fits_deeper, rule fits_le [OF fit], simp)
  then have "emits e1 (concat ?us) (enc_items (text_ops cfg) xs e1)"
    using w e1(3,4) by (intro enc_items_emits) simp_all
  then obtain e2 where e2: "enc_items (text_ops cfg) xs e1 = (True, e2)" "emits e1 (concat ?us) (True, e2)"
    by (rule emits_obtain)
  have "emits (deeper e) ((91 # concat ?us) @ []) (True, e2)"
    using emits_trans [OF e1(2) e2(2)] by simp
  then have "emits e ((91 # concat ?us) @ [93]) (closing 93 e2)"
  proof (rule emits_closing)
    have "concat ?us = [] \<or> no_sep (concat ?us)"
      using no_sep_concat [of ?us] ns by (cases "ts = []") auto
    then show "[] = [44] \<or> [] = [] \<and> 91 # concat ?us \<noteq> [] \<and> last (91 # concat ?us) \<noteq> 44"
      by (auto simp: no_sep_def)
  qed (use fit in simp)
  then show "emits e (91 # concat ?us @ [93]) (enc_list (text_ops cfg) xs e)"
    by (simp add: enc_list_def text_ops_brackets e1(1) e2(1))
qed

lemma concat_pairs:
  "concat (map (\<lambda>(a, b). a q d @ 58 # b q d @ [44]) ts) =
   concat (map (\<lambda>t. t @ [44]) (map (\<lambda>(k, v). k @ 58 # v) (map (\<lambda>(a, b). (a q d, b q d)) ts)))"
  by (induction ts) auto

lemma writes_map:
  assumes w: "list_all2 (\<lambda>(k, v) (a, b). writes k a \<and> writes v b) kvs ts"
  shows "writes (enc_map (text_ops cfg) kvs) (\<lambda>q d. text_map (map (\<lambda>(a, b). (a q (d + 1), b q (d + 1))) ts))"
proof (unfold writes_def, intro allI impI)
  fix e :: text_encoder
  let ?q = "te_opts e" and ?d = "te_depth e"
  let ?us = "map (\<lambda>(k, v). k @ 58 # v) (map (\<lambda>(a, b). (a ?q (?d + 1), b ?q (?d + 1))) ts)"
  assume "fits e (text_map (map (\<lambda>(a, b). (a ?q (?d + 1), b ?q (?d + 1))) ts))"
  then have fit: "fits e (123 # commas ?us @ [125])" by (simp add: text_map_def)
  have "fits e [123]" using fit by (rule fits_le) simp
  then obtain e1 where e1: "te_append 123 (deeper e) = (True, e1)" "emits (deeper e) [123] (True, e1)"
      "te_opts e1 = ?q" "te_depth e1 = ?d + 1" by (rule te_open)
  have "fits (deeper e) ([123] @ concat (map (\<lambda>t. t @ [44]) ?us))"
    unfolding fits_deeper using fit by (rule fits_le) (use length_commas [of ?us] in simp)
  from fits_after [OF e1(2) this] have fit1: "fits e1 (concat (map (\<lambda>t. t @ [44]) ?us))" .
  then have "emits e1 (concat (map (\<lambda>t. t @ [44]) ?us)) (enc_pairs (text_ops cfg) kvs e1)"
    unfolding concat_pairs [symmetric] using w e1(3,4) by (intro enc_pairs_emits) simp_all
  then obtain e2 where e2: "enc_pairs (text_ops cfg) kvs e1 = (True, e2)"
      "emits e1 (concat (map (\<lambda>t. t @ [44]) ?us)) (True, e2)" by (rule emits_obtain)
  from bracket_commas [OF e1(2) e2(2) fit] have "emits e (123 # commas ?us @ [125]) (closing 125 e2)" by simp
  then show "emits e (text_map (map (\<lambda>(a, b). (a ?q (?d + 1), b ?q (?d + 1))) ts)) (enc_map (text_ops cfg) kvs e)"
    by (simp add: enc_map_def text_ops_brackets e1(1) e2(1) text_map_def)
qed

text \<open>
  When everything fits, a class is written as the map of its names: the results it ignores are
  all true.
\<close>

definition name_action :: "'e encoder_ops \<Rightarrow> string \<Rightarrow> 'e action" where
  "name_action ops n = o_cstr ops n"

lemma writes_cstr: "writes (te_cstr s) (\<lambda>q d. 34 # c_str s @ [34])"
proof (unfold writes_def, intro allI impI)
  fix e assume fit: "fits e (34 # c_str s @ [34])"
  have "emits e ([34] @ c_str s @ [34]) (seq [te_append 34, te_appendFormat (c_str s), te_append 34] e)"
  proof (rule emits_seq_Cons)
    show "emits e [34] (te_append 34 e)" by (rule emits_append) (rule fits_le [OF fit], simp)
  next
    fix e1 assume e1: "emits e [34] (True, e1)"
    have f1: "fits e1 (c_str s @ [34])" by (rule fits_after [OF e1]) (use fit in simp)
    then show "emits e1 (c_str s @ [34]) (seq [te_appendFormat (c_str s), te_append 34] e1)"
      by (intro emits_seq_append emits_appendFormat) (auto dest: fits_prefix)
  qed
  then show "emits e (34 # c_str s @ [34]) (te_cstr s e)" by (simp add: te_cstr_def)
qed

lemma enc_fields_pairs:
  assumes "enc_pairs (text_ops cfg) (map (\<lambda>(i, n, v). (te_cstr n, v)) fs) e = (True, e')"
  shows "enc_fields (text_ops cfg) fs e = e'"
  using assms
proof (induction fs arbitrary: e)
  case (Cons f fs)
  obtain i n v where f: "f = (i, n, v)" by (cases f)
  then show ?case using Cons.prems
    by (auto simp: enc_pair_def text_ops_def Let_def split: prod.splits if_splits
        intro!: Cons.IH [unfolded text_ops_def])
qed simp

lemma enc_class_map:
  assumes "enc_map (text_ops cfg) (map (\<lambda>(i, n, v). (te_cstr n, v)) fs) e = (True, e')"
  shows "enc_class (text_ops cfg) fs e = (True, e')"
  using assms
  by (auto simp: enc_map_def enc_class_def Let_def dest!: enc_fields_pairs split: prod.splits if_splits)

subsection \<open>Properties\<close>

lemma writes_prim: "writes (enc_prim (text_ops cfg) p) (\<lambda>q d. text_prim (tc_precision cfg) p)"
proof -
  have fmt: "writes (te_appendFormat t) (\<lambda>q d. t)" for t
    by (simp add: writes_def emits_appendFormat)
  show ?thesis
    by (cases p) (simp_all add: text_ops_def fmt writes_cstr)
qed

lemma writes_class:
  assumes w: "list_all2 (\<lambda>(i, n, v) (j, m, b). m = n \<and> writes v b) fs ts"
  shows "writes (enc_class (text_ops cfg) fs)
    (\<lambda>q d. text_map (map (\<lambda>(j, m, b). (34 # c_str m @ [34], b q (d + 1))) ts))"
proof -
  let ?kvs = "map (\<lambda>(i, n, v). (te_cstr n, v)) fs"
  let ?ts = "map (\<lambda>(j, m, b). (\<lambda>q d. 34 # c_str m @ [34], b)) ts"
  have "list_all2 (\<lambda>(k, v) (a, b). writes k a \<and> writes v b) ?kvs ?ts"
    using w by (auto simp: list_all2_map1 list_all2_map2 writes_cstr elim!: list_all2_mono)
  from writes_map [OF this, of cfg]
  have m: "writes (enc_map (text_ops cfg) ?kvs)
      (\<lambda>q d. text_map (map (\<lambda>(j, m, b). (34 # c_str m @ [34], b q (d + 1))) ts))"
    by (simp add: comp_def case_prod_unfold)
  show ?thesis
  proof (unfold writes_def, intro allI impI)
    fix e assume "fits e (text_map (map (\<lambda>(j, m, b). (34 # c_str m @ [34], b (te_opts e) (te_depth e + 1))) ts))"
    from writesD [OF m this]
    have "emits e (text_map (map (\<lambda>(j, m, b). (34 # c_str m @ [34], b (te_opts e) (te_depth e + 1))) ts))
      (enc_map (text_ops cfg) ?kvs e)" .
    then show "emits e (text_map (map (\<lambda>(j, m, b). (34 # c_str m @ [34], b (te_opts e) (te_depth e + 1))) ts))
      (enc_class (text_ops cfg) fs e)"
      by (rule emits_obtain) (simp add: enc_class_map)
  qed
qed

lemma writes_val: "writes (enc_val (text_ops cfg) v) (\<lambda>q d. text_of cfg q d v)"
proof (induction v)
  case (Prim p)
  then show ?case by (simp add: writes_prim)
next
  case (VArr xs)
  then have "list_all2 writes (map (enc_val (text_ops cfg)) xs) (map (\<lambda>v q d. text_of cfg q d v) xs)"
    by (simp add: list_all2_map1 list_all2_map2 list.rel_refl_strong)
  from writes_array [OF this, of cfg] show ?case by (simp add: comp_def)
next
  case (VList xs)
  then have "list_all2 writes (map (enc_val (text_ops cfg)) xs) (map (\<lambda>v q d. text_of cfg q d v) xs)"
    by (simp add: list_all2_map1 list_all2_map2 list.rel_refl_strong)
  moreover have "no_sep (t q d)" if "t \<in> set (map (\<lambda>v q d. text_of cfg q d v) xs)" for t q d
    using that by (auto simp: no_sep_text)
  ultimately have "writes (enc_list (text_ops cfg) (map (enc_val (text_ops cfg)) xs))
      (\<lambda>q d. 91 # concat (map (\<lambda>t. t q (d + 1)) (map (\<lambda>v q d. text_of cfg q d v) xs)) @ [93])"
    by (rule writes_list)
  then show ?case by (simp add: comp_def)
next
  case (VMap kvs)
  then have "list_all2 (\<lambda>(k, v) (a, b). writes k a \<and> writes v b)
      (map (\<lambda>(k, v). (enc_val (text_ops cfg) k, enc_val (text_ops cfg) v)) kvs)
      (map (\<lambda>(k, v). (\<lambda>q d. text_of cfg q d k, \<lambda>q d. text_of cfg q d v)) kvs)"
    by (auto simp: list_all2_map1 list_all2_map2 intro!: list.rel_refl_strong)
  from writes_map [OF this, of cfg] show ?case by (simp add: comp_def case_prod_unfold)
next
  case (VRec fs)
  then have "list_all2 (\<lambda>(i, n, v) (j, m, b). m = n \<and> writes v b)
      (map (\<lambda>(i, n, v). (i, n, enc_val (text_ops cfg) v)) fs)
      (map (\<lambda>(i, n, v). (i, n, \<lambda>q d. text_of cfg q d v)) fs)"
    by (auto simp: list_all2_map1 list_all2_map2 intro!: list.rel_refl_strong)
  from writes_class [OF this, of cfg] show ?case by (simp add: comp_def case_prod_unfold)
qed

text \<open>
  C14. The text encoder is correct: a value whose text is shorter than the space left is encoded
  successfully, the bytes written are exactly its text, what was written before is untouched, and
  size, options and nesting depth are as before.
\<close>
theorem text_encode_correct:
  assumes "te_pos e + length (text_of cfg (te_opts e) (te_depth e) v) < te_size e"
    and "te_size e \<le> length (te_buf e)"
  shows "\<exists>e'. enc_val (text_ops cfg) v e = (True, e') \<and>
    te_pos e' = te_pos e + length (text_of cfg (te_opts e) (te_depth e) v) \<and>
    take (te_pos e') (te_buf e') = take (te_pos e) (te_buf e) @ text_of cfg (te_opts e) (te_depth e) v \<and>
    length (te_buf e') = length (te_buf e) \<and> te_size e' = te_size e \<and>
    te_depth e' = te_depth e \<and> te_opts e' = te_opts e"
proof -
  have "fits e (text_of cfg (te_opts e) (te_depth e) v)"
    using assms by (simp add: fits_def te_wf_def)
  from writesD [OF writes_val this] show ?thesis
    by (rule emits_obtain) (auto simp: emits_def)
qed


lemma text_encode_example:
  "text_of default_text_cfg 0 0 (VMap [(Prim (PStr ''ab''), VArr [Prim (PU8 20), Prim (PI8 255)])]) =
     bytes_of ''{\"ab\":[20,-1]}''"
  by (simp add: text_map_def text_array_def Let_def renderedListLength_def default_text_cfg_def
      int_text_def dec_text.simps c_str_def bytes_of_def)

theorem text_encode_correct_witness:
  "\<exists>e'. enc_val (text_ops default_text_cfg)
      (VMap [(Prim (PStr ''ab''), VArr [Prim (PU8 20), Prim (PI8 255)])]) (te_make (replicate 20 0) 20 0) = (True, e') \<and>
    take (te_pos e') (te_buf e') = bytes_of ''{\"ab\":[20,-1]}''"
  using text_encode_correct [of "te_make (replicate 20 0) 20 0" default_text_cfg
      "VMap [(Prim (PStr ''ab''), VArr [Prim (PU8 20), Prim (PI8 255)])]"]
  by (auto simp: te_make_def text_encode_example bytes_of_def simp del: text_of.simps)

text \<open>
  A formatted value that fills the buffer exactly is reported as written, but snprintf keeps the
  last byte for its terminator: the value loses its last character and a NUL stands in its place.
\<close>
theorem text_exact_fit:
  assumes "te_pos e + length s = te_size e" "te_size e \<le> length (te_buf e)" "s \<noteq> []"
  shows "\<exists>e'. te_appendFormat s e = (True, e') \<and> te_pos e' = te_size e \<and>
    take (te_pos e') (te_buf e') = take (te_pos e) (te_buf e) @ butlast s @ [0]"
proof -
  have n: "te_size e - te_pos e = length s" "length s \<noteq> 0" using assms(1,3) by auto
  have "te_pos e \<le> length (te_buf e)" using assms(1,2) by simp
  then have "take (te_pos e + length (butlast s @ [0])) (overwrite (te_buf e) (te_pos e) (butlast s @ [0])) =
      take (te_pos e) (te_buf e) @ butlast s @ [0]"
    by (rule take_overwrite_all)
  then have "take (te_size e) (overwrite (te_buf e) (te_pos e) (take (length s - 1) s @ [0])) =
      take (te_pos e) (te_buf e) @ take (length s - 1) s @ [0]"
    using assms(1) n(2) by (simp add: butlast_conv_take)
  then show ?thesis
    using assms(1,3) n by (simp add: te_appendFormat_def snprintf_at_def butlast_conv_take)
qed

theorem text_exact_fit_witness:
  "\<exists>e'. te_appendFormat (bytes_of ''123'') (te_make (replicate 3 7) 3 0) = (True, e') \<and>
    te_pos e' = 3 \<and> take (te_pos e') (te_buf e') = bytes_of ''12'' @ [0]"
  using text_exact_fit [of "te_make (replicate 3 7) 3 0" "bytes_of ''123''"]
  by (simp add: te_make_def bytes_of_def)

text \<open>
  Encoding an object as a map ignores whether its members could be encoded: for any encoder, the
  outcome is the same when every member reports the opposite result, so success is reported for
  an object whose members failed.
\<close>
theorem class_ignores_members:
  "enc_class ops (map (\<lambda>(i, n, v). (i, n, \<lambda>e. (\<not> fst (v e), snd (v e)))) fs) e = enc_class ops fs e"
proof -
  have "enc_fields ops (map (\<lambda>(i, n, v). (i, n, \<lambda>e. (\<not> fst (v e), snd (v e)))) fs) e = enc_fields ops fs e" for e
    by (induction fs arbitrary: e) (auto simp: Let_def)
  then show ?thesis by (simp add: enc_class_def split: prod.split)
qed

end
