(* ===== verification/IntrusiveList.thy ===== *)
theory IntrusiveList imports Prelude begin

text \<open>
  The intrusive linked list of include/thingset++/internal/IntrusiveLinkedList.hpp and the iterator
  of FlatteningIterator.hpp. The \<open>next\<close> pointer of every node is a function from node references
  to the next reference (None is nullptr); a list is a head and a tail pointer. All lists threaded
  through the same member share the \<open>next\<close> pointers, so operations return the updated pointers
  and list. Loops over pointers need not end on a damaged list; they are partial functions.
  The locale \<open>node_list\<close> states what a container of this kind promises to its clients.
\<close>

type_synonym nref = nat
type_synonym links = "nref \<Rightarrow> nref option"

record ilist =
  il_head :: "nref option"
  il_tail :: "nref option"

definition il_empty :: ilist where "il_empty = \<lparr>il_head = None, il_tail = None\<rparr>"

definition push_back :: "links \<Rightarrow> ilist \<Rightarrow> nref \<Rightarrow> links \<times> ilist" where
  "push_back h l n =
    (if h n \<noteq> None then (h, l)
     else case il_tail l of
       None \<Rightarrow> (h, l\<lparr>il_tail := Some n, il_head := Some n\<rparr>)
     | Some t \<Rightarrow> (h(t := Some n), l\<lparr>il_tail := Some n\<rparr>))"

text \<open>What \<open>remove\<close> does once the loop has found the node, \<open>prev\<close> being the node before it.\<close>

definition unlink :: "links \<Rightarrow> ilist \<Rightarrow> nref \<Rightarrow> nref option \<Rightarrow> links \<times> ilist" where
  "unlink h l n prev =
    (case prev of
       None \<Rightarrow> (let l1 = l\<lparr>il_head := h n\<rparr>;
                   l2 = (if il_tail l1 = Some n then l1\<lparr>il_tail := il_head l1\<rparr> else l1)
               in (h(n := None), l2))
     | Some p \<Rightarrow> (let h1 = h(p := h n);
                     l2 = (if il_tail l = Some n then l\<lparr>il_tail := Some p\<rparr> else l)
                 in (h1(n := None), l2)))"

partial_function (option) remove_loop ::
  "links \<Rightarrow> ilist \<Rightarrow> nref \<Rightarrow> nref option \<Rightarrow> nref option \<Rightarrow> (bool \<times> links \<times> ilist) option" where
  "remove_loop h l n prev test =
    (case test of
       None \<Rightarrow> Some (False, h, l)
     | Some t \<Rightarrow> if t = n then Some (True, unlink h l n prev) else remove_loop h l n (Some t) (h t))"

definition remove_node :: "links \<Rightarrow> ilist \<Rightarrow> nref \<Rightarrow> (bool \<times> links \<times> ilist) option" where
  "remove_node h l n = remove_loop h l n None (il_head l)"

text \<open>Iteration: the nodes a range-for visits, and a loop that stops at the first match.\<close>

partial_function (option) walk :: "links \<Rightarrow> nref option \<Rightarrow> nref list option" where
  "walk h p = (case p of None \<Rightarrow> Some []
    | Some n \<Rightarrow> Option.bind (walk h (h n)) (\<lambda>xs. Some (n # xs)))"

partial_function (option) find_loop :: "links \<Rightarrow> (nref \<Rightarrow> bool) \<Rightarrow> nref option \<Rightarrow> nref option option" where
  "find_loop h P p = (case p of None \<Rightarrow> Some None
    | Some n \<Rightarrow> if P n then Some (Some n) else find_loop h P (h n))"

definition il_elems :: "links \<Rightarrow> ilist \<Rightarrow> nref list option" where
  "il_elems h l = walk h (il_head l)"

definition il_count :: "links \<Rightarrow> ilist \<Rightarrow> nat option" where
  "il_count h l = map_option length (il_elems h l)"

subsection \<open>Chains of pointers\<close>

fun chain :: "links \<Rightarrow> nref option \<Rightarrow> nref list \<Rightarrow> bool" where
  "chain h p [] \<longleftrightarrow> p = None"
| "chain h p (n # ns) \<longleftrightarrow> p = Some n \<and> chain h (h n) ns"

definition il_rep :: "links \<Rightarrow> ilist \<Rightarrow> nref list \<Rightarrow> bool" where
  "il_rep h l xs \<longleftrightarrow> chain h (il_head l) xs \<and> distinct xs \<and>
     il_tail l = (if xs = [] then None else Some (last xs))"

lemma chain_cong: "\<forall>n \<in> set ns. h n = g n \<Longrightarrow> chain h p ns = chain g p ns"
  by (induction ns arbitrary: p) auto

lemma chain_upd [simp]: "m \<notin> set ns \<Longrightarrow> chain (h(m := q)) p ns = chain h p ns"
  by (rule chain_cong) auto

lemma chain_append_single:
  "distinct (xs @ [n]) \<Longrightarrow> xs \<noteq> [] \<Longrightarrow> chain h p xs \<Longrightarrow> h n = None \<Longrightarrow>
   chain (h(last xs := Some n)) p (xs @ [n])"
proof (induction xs arbitrary: p)
  case (Cons x xs)
  show ?case
  proof (cases "xs = []")
    case False
    then have "x \<noteq> last xs" using Cons.prems(1) by auto
    with False Cons show ?thesis by simp
  qed (use Cons.prems in auto)
qed simp

lemma walk_chain: "chain h p xs \<Longrightarrow> walk h p = Some xs"
  by (induction xs arbitrary: p) (auto simp: walk.simps)

lemma chain_walk: "walk h p = Some xs \<Longrightarrow> chain h p xs"
proof (induction xs arbitrary: p)
  case Nil
  then show ?case by (subst (asm) walk.simps) (auto split: option.splits bind_splits)
next
  case (Cons x xs)
  then show ?case by (subst (asm) walk.simps) (auto split: option.splits bind_splits)
qed

lemma find_loop_chain: "chain h p xs \<Longrightarrow> find_loop h P p = Some (find P xs)"
  by (induction xs arbitrary: p) (auto simp: find_loop.simps)

lemma il_elems_rep: "il_rep h l xs \<Longrightarrow> il_elems h l = Some xs"
  by (simp add: il_rep_def il_elems_def walk_chain)

subsection \<open>Adding\<close>

lemma push_back_rep:
  assumes "il_rep h l xs" "n \<notin> set xs" "h n = None"
  shows "il_rep (fst (push_back h l n)) (snd (push_back h l n)) (xs @ [n])"
proof (cases "xs = []")
  case True
  then show ?thesis using assms by (simp add: push_back_def il_rep_def)
next
  case False
  then show ?thesis using assms chain_append_single [of xs n h "il_head l"]
    by (simp add: push_back_def il_rep_def)
qed

lemma push_back_frame:
  assumes "il_rep h l xs" "il_rep h k ys" "set xs \<inter> set ys = {}"
  shows "il_rep (fst (push_back h l n)) k ys"
proof -
  have "fst (push_back h l n) m = h m" if m: "m \<in> set ys" for m
  proof -
    have "m \<notin> set xs" using assms(3) m by auto
    then have "xs \<noteq> [] \<Longrightarrow> m \<noteq> last xs" by auto
    with assms(1) show ?thesis
      by (cases "xs = []"; cases "h n") (simp_all add: push_back_def il_rep_def)
  qed
  then have "\<forall>m \<in> set ys. fst (push_back h l n) m = h m" by simp
  from chain_cong [OF this] show ?thesis using assms(2) by (simp add: il_rep_def)
qed

lemma push_back_linked: "h n \<noteq> None \<Longrightarrow> push_back h l n = (h, l)"
  by (simp add: push_back_def)

subsection \<open>Removing\<close>

text \<open>The loop started after the prefix \<open>xs\<close>, of which \<open>prev\<close> is the last node.\<close>

lemma remove_loop_chain:
  assumes "chain h p ys"
  shows "remove_loop h l n prev p =
    (if n \<in> set ys
     then Some (True, unlink h l n (case takeWhile (\<lambda>x. x \<noteq> n) ys of [] \<Rightarrow> prev | zs \<Rightarrow> Some (last zs)))
     else Some (False, h, l))"
  using assms
proof (induction ys arbitrary: p prev)
  case Nil
  then show ?case by (simp add: remove_loop.simps)
next
  case (Cons y ys)
  then have p: "p = Some y" "chain h (h y) ys" by auto
  show ?case
  proof (cases "y = n")
    case True
    then show ?thesis by (simp add: p(1) remove_loop.simps)
  next
    case False
    then have "remove_loop h l n prev p = remove_loop h l n (Some y) (h y)"
      by (subst remove_loop.simps) (simp add: p(1))
    then show ?thesis
      using False by (simp add: Cons.IH [OF p(2)] split: list.split)
  qed
qed

lemma chain_append: "chain h p (xs @ n # ys) \<Longrightarrow> chain h (h n) ys"
  by (induction xs arbitrary: p) auto

lemma chain_unlink_mid:
  "distinct (xs @ n # ys) \<Longrightarrow> xs \<noteq> [] \<Longrightarrow> chain h p (xs @ n # ys) \<Longrightarrow>
   chain (h(last xs := h n, n := None)) p (xs @ ys)"
proof (induction xs arbitrary: p)
  case (Cons x xs)
  show ?case
  proof (cases "xs = []")
    case True
    have "chain (h(x := h n, n := None)) (h n) ys"
      using Cons.prems True by simp
    with True Cons.prems show ?thesis by (simp add: fun_upd_def)
  next
    case False
    then have "x \<noteq> last xs" "x \<noteq> n" using Cons.prems(1) by auto
    with False Cons show ?thesis by simp
  qed
qed simp

lemma unlink_rep:
  assumes "il_rep h l (xs @ n # ys)"
  shows "case unlink h l n (if xs = [] then None else Some (last xs)) of (h', l') \<Rightarrow> il_rep h' l' (xs @ ys)"
proof (cases "xs = []")
  case True
  have "chain (h(n := None)) (h n) ys" using assms True by (simp add: il_rep_def)
  moreover have "il_tail l = Some n \<longleftrightarrow> ys = []" "distinct ys" "il_tail l = Some (last (n # ys))"
    using assms True last_in_set [of ys] by (auto simp: il_rep_def)
  moreover have "ys = [] \<Longrightarrow> h n = None" using assms True by (simp add: il_rep_def)
  ultimately show ?thesis using True by (auto simp: il_rep_def unlink_def Let_def)
next
  case False
  have "chain (h(last xs := h n, n := None)) (il_head l) (xs @ ys)"
    using assms False by (intro chain_unlink_mid) (auto simp: il_rep_def)
  moreover have "il_tail l = Some n \<longleftrightarrow> ys = []" "distinct (xs @ ys)" "il_tail l = Some (last (n # ys))"
    using assms last_in_set [of ys] by (auto simp: il_rep_def)
  ultimately show ?thesis using False by (auto simp: il_rep_def unlink_def Let_def)
qed

lemma remove_node_rep:
  assumes "il_rep h l xs"
  shows "\<exists>h' l'. remove_node h l n = Some (n \<in> set xs, h', l') \<and> il_rep h' l' (remove1 n xs) \<and>
    (\<forall>m. m \<notin> set xs \<longrightarrow> h' m = h m) \<and> (n \<in> set xs \<longrightarrow> h' n = None)"
proof (cases "n \<in> set xs")
  case False
  then have "remove_node h l n = Some (False, h, l)"
    using assms remove_loop_chain [of h "il_head l" xs] by (simp add: remove_node_def il_rep_def)
  with False assms show ?thesis by (simp add: remove1_idem)
next
  case True
  then obtain as bs where xs: "xs = as @ n # bs" "n \<notin> set as" by (meson split_list_first)
  let ?prev = "if as = [] then None else Some (last as)"
  have tw: "takeWhile (\<lambda>x. x \<noteq> n) xs = as" using xs by (simp add: takeWhile_append)
  have "remove_node h l n = Some (True, unlink h l n ?prev)"
    using True assms tw remove_loop_chain [of h "il_head l" xs l n None]
    by (cases as) (simp_all add: remove_node_def il_rep_def)
  moreover obtain h' l' where u: "unlink h l n ?prev = (h', l')" by fastforce
  moreover have "il_rep h' l' (as @ bs)"
    using unlink_rep [of h l as n bs] assms u by (simp add: xs(1))
  moreover have "remove1 n xs = as @ bs" using xs by (simp add: remove1_append)
  moreover have "\<forall>m. m \<notin> set xs \<longrightarrow> h' m = h m" "h' n = None"
    using u xs(1) by (auto simp: unlink_def Let_def split: if_splits)
  ultimately show ?thesis using True by auto
qed

subsection \<open>The contract of a family of lists\<close>

text \<open>
  The registry keeps several lists over the same nodes. A container promises that pushing a free
  node appends it, that removing deletes it, and that neither touches a list of other nodes. The
  lemmas lift this to a family of pairwise disjoint lists indexed by buckets or by parents.
\<close>

locale node_list =
  fixes rep :: "'s \<Rightarrow> 'l \<Rightarrow> 'n list \<Rightarrow> bool"
    and free :: "'s \<Rightarrow> 'n \<Rightarrow> bool"
    and push :: "'s \<Rightarrow> 'l \<Rightarrow> 'n \<Rightarrow> 's \<times> 'l"
    and rem :: "'s \<Rightarrow> 'l \<Rightarrow> 'n \<Rightarrow> (bool \<times> 's \<times> 'l) option"
  assumes push_rep: "rep s l xs \<Longrightarrow> n \<notin> set xs \<Longrightarrow> free s n \<Longrightarrow> push s l n = (s', l') \<Longrightarrow> rep s' l' (xs @ [n])"
    and push_frame: "rep s l xs \<Longrightarrow> rep s k ys \<Longrightarrow> set xs \<inter> set ys = {} \<Longrightarrow> push s l n = (s', l') \<Longrightarrow> rep s' k ys"
    and push_free: "rep s l xs \<Longrightarrow> free s m \<Longrightarrow> m \<notin> set xs \<Longrightarrow> push s l n = (s', l') \<Longrightarrow> free s' m"
    and rem_rep: "rep s l xs \<Longrightarrow> \<exists>s' l'. rem s l n = Some (n \<in> set xs, s', l')"
    and rem_rep': "rep s l xs \<Longrightarrow> rem s l n = Some (b, s', l') \<Longrightarrow> rep s' l' (remove1 n xs)"
    and rem_frame: "rep s l xs \<Longrightarrow> rep s k ys \<Longrightarrow> set xs \<inter> set ys = {} \<Longrightarrow> rem s l n = Some (b, s', l') \<Longrightarrow> rep s' k ys"
    and rem_free: "rep s l xs \<Longrightarrow> free s m \<or> m = n \<and> m \<in> set xs \<Longrightarrow> m \<notin> set xs - {n} \<Longrightarrow> rem s l n = Some (b, s', l') \<Longrightarrow> free s' m"
    and rep_distinct: "rep s l xs \<Longrightarrow> distinct xs"
begin

definition family :: "'s \<Rightarrow> ('i \<Rightarrow> 'l) \<Rightarrow> ('i \<Rightarrow> 'n list) \<Rightarrow> bool" where
  "family s ls xs \<longleftrightarrow> (\<forall>i. rep s (ls i) (xs i)) \<and> (\<forall>i j. i \<noteq> j \<longrightarrow> set (xs i) \<inter> set (xs j) = {}) \<and>
     (\<forall>n. (\<forall>i. n \<notin> set (xs i)) \<longrightarrow> free s n)"

lemma family_push:
  assumes f: "family s ls xs" and n: "\<And>j. n \<notin> set (xs j)" and p: "push s (ls i) n = (s', l')"
  shows "family s' (ls(i := l')) (xs(i := xs i @ [n]))"
  unfolding family_def
proof (intro conjI allI impI)
  fix j
  have free: "free s n" using f n by (auto simp: family_def)
  show "rep s' ((ls(i := l')) j) ((xs(i := xs i @ [n])) j)"
  proof (cases "j = i")
    case True
    then show ?thesis using f n free p by (auto simp: family_def intro: push_rep)
  next
    case False
    then have "set (xs i) \<inter> set (xs j) = {}" using f by (auto simp: family_def)
    with False f p show ?thesis
      using push_frame [of s "ls i" "xs i" "ls j" "xs j" n s' l'] by (simp add: family_def)
  qed
next
  fix j k :: 'a assume "j \<noteq> k"
  then show "set ((xs(i := xs i @ [n])) j) \<inter> set ((xs(i := xs i @ [n])) k) = {}"
    using f n by (auto simp: family_def)
next
  fix m assume m: "\<forall>j. m \<notin> set ((xs(i := xs i @ [n])) j)"
  then have "m \<notin> set (xs j)" for j by (cases "j = i") (auto dest: spec [of _ j])
  then have "free s m" "m \<notin> set (xs i)" using f by (auto simp: family_def)
  then show "free s' m" using f p by (auto simp: family_def intro: push_free)
qed

lemma family_rem_total: "family s ls xs \<Longrightarrow> \<exists>s' l'. rem s (ls i) n = Some (n \<in> set (xs i), s', l')"
  by (auto simp: family_def intro: rem_rep)

lemma family_rem:
  assumes f: "family s ls xs" and r: "rem s (ls i) n = Some (b, s', l')"
  shows "family s' (ls(i := l')) (xs(i := remove1 n (xs i)))"
  unfolding family_def
proof (intro conjI allI impI)
  fix j
  show "rep s' ((ls(i := l')) j) ((xs(i := remove1 n (xs i))) j)"
  proof (cases "j = i")
    case True
    then show ?thesis using f r by (auto simp: family_def intro: rem_rep')
  next
    case False
    then have "set (xs i) \<inter> set (xs j) = {}" using f by (auto simp: family_def)
    with False f r show ?thesis
      using rem_frame [of s "ls i" "xs i" "ls j" "xs j" n b s' l'] by (simp add: family_def)
  qed
next
  fix j k :: 'a assume "j \<noteq> k"
  moreover have "set (remove1 n (xs i)) \<subseteq> set (xs i)" by (rule set_remove1_subset)
  ultimately show "set ((xs(i := remove1 n (xs i))) j) \<inter> set ((xs(i := remove1 n (xs i))) k) = {}"
    using f unfolding family_def by (auto split: if_splits; blast)
next
  fix m assume m: "\<forall>j. m \<notin> set ((xs(i := remove1 n (xs i))) j)"
  have d: "distinct (xs i)" using f by (auto simp: family_def intro: rep_distinct)
  have ot: "m \<notin> set (xs j)" if "j \<noteq> i" for j using m that by (auto dest: spec [of _ j])
  have own: "m \<notin> set (xs i) - {n}" using m d by (auto dest: spec [of _ i])
  have "free s m \<or> m = n \<and> m \<in> set (xs i)"
  proof (cases "m \<in> set (xs i)")
    case True
    then show ?thesis using own by auto
  next
    case False
    then have "\<forall>j. m \<notin> set (xs j)" using ot by metis
    then show ?thesis using f by (auto simp: family_def)
  qed
  then show "free s' m" using f r own by (auto simp: family_def intro: rem_free)
qed

end

interpretation il: node_list il_rep "\<lambda>h n. h n = None" push_back remove_node
proof unfold_locales
  fix s l xs n s' l'
  assume "il_rep s l xs" "n \<notin> set xs" "s n = None" "push_back s l n = (s', l')"
  then show "il_rep s' l' (xs @ [n])" using push_back_rep [of s l xs n] by simp
next
  fix s l xs k ys n s' l'
  assume "il_rep s l xs" "il_rep s k ys" "set xs \<inter> set ys = {}" "push_back s l n = (s', l')"
  then show "il_rep s' k ys" using push_back_frame [of s l xs k ys n] by simp
next
  fix s l xs m n s' l'
  assume a: "il_rep s l xs" "s m = None" "m \<notin> set xs" "push_back s l n = (s', l')"
  have "il_tail l \<noteq> Some m" using a(1,3) last_in_set [of xs] by (auto simp: il_rep_def)
  with a(2,4) show "s' m = None" by (auto simp: push_back_def split: if_splits option.splits)
next
  fix s l xs n
  assume "il_rep s l xs"
  then show "\<exists>s' l'. remove_node s l n = Some (n \<in> set xs, s', l')" using remove_node_rep by blast
next
  fix s l xs n b s' l'
  assume "il_rep s l xs" "remove_node s l n = Some (b, s', l')"
  then show "il_rep s' l' (remove1 n xs)" using remove_node_rep [of s l xs n] by auto
next
  fix s l xs k ys n b s' l'
  assume a: "il_rep s l xs" "il_rep s k ys" "set xs \<inter> set ys = {}" "remove_node s l n = Some (b, s', l')"
  then have "\<forall>m. m \<notin> set xs \<longrightarrow> s' m = s m" using remove_node_rep [of s l xs n] by auto
  then have "\<forall>m \<in> set ys. s' m = s m" using a(3) by auto
  from chain_cong [OF this] show "il_rep s' k ys" using a(2) by (simp add: il_rep_def)
next
  fix s l xs m n b s' l'
  assume "il_rep s l xs" "s m = None \<or> m = n \<and> m \<in> set xs" "m \<notin> set xs - {n}"
    "remove_node s l n = Some (b, s', l')"
  then show "s' m = None" using remove_node_rep [of s l xs n] by (cases "m \<in> set xs") auto
qed (simp add: il_rep_def)

subsection \<open>The flattening iterator\<close>

text \<open>
  The iterator over the array of \<open>k\<close> lists: the index of the outer iterator and the node of the
  inner one. \<open>advance\<close> is \<open>advance_past_empty_inner_containers\<close>; at the end of the array the inner
  iterator keeps its last value, nullptr.
\<close>

record flat_iter =
  fi_outer :: nat
  fi_inner :: "nref option"

function advance :: "nat \<Rightarrow> (nat \<Rightarrow> ilist) \<Rightarrow> flat_iter \<Rightarrow> flat_iter" where
  "advance k ls it =
    (if fi_outer it < k \<and> fi_inner it = None
     then let it1 = it\<lparr>fi_outer := fi_outer it + 1\<rparr>
          in advance k ls (if fi_outer it1 < k then it1\<lparr>fi_inner := il_head (ls (fi_outer it1))\<rparr> else it1)
     else it)"
  by pat_completeness auto
termination by (relation "measure (\<lambda>(k, ls, it). k - fi_outer it)") (auto simp: Let_def)

declare advance.simps [simp del]

definition flat_begin :: "nat \<Rightarrow> (nat \<Rightarrow> ilist) \<Rightarrow> flat_iter" where
  "flat_begin k ls =
    (if k = 0 then \<lparr>fi_outer = 0, fi_inner = None\<rparr>
     else advance k ls \<lparr>fi_outer = 0, fi_inner = il_head (ls 0)\<rparr>)"

definition flat_next :: "links \<Rightarrow> nat \<Rightarrow> (nat \<Rightarrow> ilist) \<Rightarrow> flat_iter \<Rightarrow> flat_iter" where
  "flat_next h k ls it =
    (let it1 = it\<lparr>fi_inner := Option.bind (fi_inner it) h\<rparr>
     in if fi_inner it1 = None then advance k ls it1 else it1)"

text \<open>A range-for over the array; the end iterator has the outer position \<open>k\<close>.\<close>

partial_function (option) flat_walk :: "links \<Rightarrow> nat \<Rightarrow> (nat \<Rightarrow> ilist) \<Rightarrow> flat_iter \<Rightarrow> nref list option" where
  "flat_walk h k ls it =
    (if fi_outer it = k then Some []
     else case fi_inner it of None \<Rightarrow> None
       | Some n \<Rightarrow> Option.bind (flat_walk h k ls (flat_next h k ls it)) (\<lambda>xs. Some (n # xs)))"

definition flat_elems :: "links \<Rightarrow> nat \<Rightarrow> (nat \<Rightarrow> ilist) \<Rightarrow> nref list option" where
  "flat_elems h k ls = flat_walk h k ls (flat_begin k ls)"

lemma advance_inner [simp]: "fi_inner it = Some n \<Longrightarrow> advance k ls it = it"
  by (simp add: advance.simps)

lemma advance_end [simp]: "\<not> fi_outer it < k \<Longrightarrow> advance k ls it = it"
  by (simp add: advance.simps)

text \<open>From an outer position \<open>i\<close> with the rest \<open>zs\<close> of that list still to visit.\<close>

lemma flat_walk_chain:
  assumes reps: "\<And>j. il_rep h (ls j) (xs j)"
  shows "i < k \<Longrightarrow> chain h p zs \<Longrightarrow>
    flat_walk h k ls (advance k ls \<lparr>fi_outer = i, fi_inner = p\<rparr>) = Some (zs @ concat (map xs [i + 1..<k]))"
proof (induction "k - i" arbitrary: i p zs)
  case 0
  then show ?case by simp
next
  case (Suc d)
  have head: "chain h (il_head (ls j)) (xs j)" for j using reps by (simp add: il_rep_def)
  show ?case using Suc.prems(2)
  proof (induction zs arbitrary: p)
    case Nil
    then have p: "p = None" by simp
    show ?case
    proof (cases "i + 1 < k")
      case True
      have "advance k ls \<lparr>fi_outer = i, fi_inner = p\<rparr> = advance k ls \<lparr>fi_outer = i + 1, fi_inner = il_head (ls (i + 1))\<rparr>"
        using Suc.prems(1) True by (subst advance.simps) (simp add: p Let_def)
      moreover have "flat_walk h k ls (advance k ls \<lparr>fi_outer = i + 1, fi_inner = il_head (ls (i + 1))\<rparr>) =
          Some (xs (i + 1) @ concat (map xs [i + 1 + 1..<k]))"
        using Suc.hyps(2) True head by (intro Suc.hyps(1)) simp_all
      ultimately show ?thesis using True by (simp add: upt_conv_Cons)
    next
      case False
      then have "advance k ls \<lparr>fi_outer = i, fi_inner = p\<rparr> = \<lparr>fi_outer = k, fi_inner = None\<rparr>"
        using Suc.prems(1) by (subst advance.simps) (simp add: p Let_def)
      then show ?thesis using False by (simp add: flat_walk.simps)
    qed
  next
    case (Cons z zs)
    then have p: "p = Some z" "chain h (h z) zs" by auto
    have "flat_next h k ls \<lparr>fi_outer = i, fi_inner = p\<rparr> = advance k ls \<lparr>fi_outer = i, fi_inner = h z\<rparr>"
      by (cases "h z") (simp_all add: flat_next_def p Let_def)
    with Cons.IH [OF p(2)] Suc.prems(1) show ?case by (simp add: p flat_walk.simps [of h k ls "\<lparr>fi_outer = i, fi_inner = Some z\<rparr>"])
  qed
qed

lemma flat_elems_rep:
  assumes "\<And>j. il_rep h (ls j) (xs j)"
  shows "flat_elems h k ls = Some (concat (map xs [0..<k]))"
proof (cases "k = 0")
  case False
  then have "flat_elems h k ls = Some (xs 0 @ concat (map xs [0 + 1..<k]))"
    using flat_walk_chain [OF assms, of 0 k "il_head (ls 0)" "xs 0"] assms [of 0]
    by (simp add: flat_elems_def flat_begin_def il_rep_def)
  then show ?thesis using False by (simp add: upt_conv_Cons)
qed (simp add: flat_elems_def flat_begin_def flat_walk.simps)

subsection \<open>Properties\<close>

text \<open>
  C25. The intrusive list behaves as a list of nodes: pushing a node that is in no list appends it,
  removing a node deletes it and clears its link, says whether it was there, and returns; iterating
  visits exactly the nodes of the list in order.
\<close>
theorem intrusive_list_correct:
  assumes "il_rep h l xs"
  shows "il_elems h l = Some xs \<and> il_count h l = Some (length xs) \<and>
    (n \<notin> set xs \<and> h n = None \<longrightarrow>
       (case push_back h l n of (h', l') \<Rightarrow> il_rep h' l' (xs @ [n]))) \<and>
    (h n \<noteq> None \<longrightarrow> push_back h l n = (h, l)) \<and>
    (\<exists>h' l'. remove_node h l n = Some (n \<in> set xs, h', l') \<and> il_rep h' l' (remove1 n xs) \<and>
      (n \<in> set xs \<longrightarrow> h' n = None))"
  using assms push_back_rep [of h l xs n] remove_node_rep [of h l xs n]
  by (auto simp: il_elems_rep il_count_def push_back_linked case_prod_beta)

theorem intrusive_list_correct_witness:
  "\<exists>h l. il_elems h l = Some [4, 9] \<and> (\<exists>h' l'. remove_node h l 4 = Some (True, h', l'))"
proof -
  have "il_rep ((\<lambda>_. None)(4 := Some 9)) \<lparr>il_head = Some 4, il_tail = Some 9\<rparr> [4, 9]"
    by (simp add: il_rep_def)
  from intrusive_list_correct [OF this, of 4] show ?thesis by auto
qed

text \<open>
  C29. The only guard of \<open>push_back\<close> is the link of the node, which is null for the tail: pushing the
  node that is already last makes it its own successor, and no iteration over the list ends.
\<close>

lemma walk_cycle: "h n = Some n \<Longrightarrow> walk h (Some n) \<noteq> Some xs"
proof
  assume n: "h n = Some n" and w: "walk h (Some n) = Some xs"
  have "walk h (Some n) = Option.bind (walk h (h n)) (\<lambda>xs. Some (n # xs))"
    by (subst walk.simps) simp
  then have "Some xs = Some (n # xs)" by (simp only: n w bind.bind_lunit)
  then show False by simp
qed

lemma walk_into_cycle:
  "chain h p (xs @ [n]) \<Longrightarrow> distinct (xs @ [n]) \<Longrightarrow> h' n = Some n \<Longrightarrow> (\<forall>m \<in> set xs. h' m = h m) \<Longrightarrow>
   walk h' p \<noteq> Some ys"
proof (induction xs arbitrary: p ys)
  case Nil
  then show ?case using walk_cycle [of h' n ys] by simp
next
  case (Cons x xs)
  then have p: "p = Some x" "chain h (h x) (xs @ [n])" and x: "h' x = h x" by auto
  have "walk h' (h x) = None"
  proof (cases "walk h' (h x)")
    case (Some zs)
    then show ?thesis using Cons.IH [OF p(2), of zs] Cons.prems by simp
  qed
  then show ?case using p(1) x by (subst walk.simps) simp
qed

theorem push_tail_cycle:
  assumes "il_rep h l (xs @ [n])"
  shows "case push_back h l n of (h', l') \<Rightarrow> h' n = Some n \<and> il_elems h' l' = None \<and> il_count h' l' = None"
proof -
  have c: "chain h (il_head l) (xs @ [n])" "distinct (xs @ [n])" "il_tail l = Some n"
    using assms by (simp_all add: il_rep_def)
  have hn: "h n = None" using chain_append [of h _ xs n "[]"] c(1) by simp
  have p: "push_back h l n = (h(n := Some n), l)" using hn c(3) by (simp add: push_back_def)
  have "walk (h(n := Some n)) (il_head l) \<noteq> Some ys" for ys
    using c by (intro walk_into_cycle [of h _ xs n]) auto
  then have "il_elems (h(n := Some n)) l = None" by (cases "il_elems (h(n := Some n)) l") (auto simp: il_elems_def)
  then show ?thesis by (simp add: p il_count_def)
qed

theorem push_tail_cycle_witness:
  "case push_back (\<lambda>_. None) \<lparr>il_head = Some 4, il_tail = Some 4\<rparr> 4 of (h', l') \<Rightarrow> il_elems h' l' = None"
  using push_tail_cycle [of "\<lambda>_. None" "\<lparr>il_head = Some 4, il_tail = Some 4\<rparr>" "[]" 4]
  by (auto simp: il_rep_def split: prod.splits)

end
