(* ===== verification/Registry.thy ===== *)
theory Registry imports Access IntrusiveList begin

text \<open>
  Nodes and the registry: ThingSetNode.hpp, ThingSetParentNode.hpp/.cpp, IdentifiableThingSetNode.hpp,
  ThingSetRegistry.hpp/.cpp, and the node classes of ThingSetGroup.hpp, ThingSetProperty.hpp,
  ThingSetFunction.hpp and ThingSetRecordMember.hpp as far as the tree is concerned. What a node
  object never changes (id, parent id, name, class, subsets, access) is a record; a map from
  references to these records is an argument of every operation. The registry state is the two
  families of intrusive lists: the eight buckets and the children of every parent. A result None
  means that the code does not return: an assertion fails or a loop does not end.
\<close>

subsection \<open>Nodes\<close>

datatype node_type =
  nt_hasChildren | nt_encodable | nt_decodable | nt_requestHandler | nt_value | nt_parameter |
  nt_function | nt_group | nt_record | nt_recordMember

text \<open>
  The classes of nodes. \<open>nk_property\<close> is the plain and the pointer property, \<open>nk_record n\<close> the
  property holding an array of n records, \<open>nk_member\<close> and \<open>nk_member_array\<close> the proxies registered for
  the members of records.
\<close>

datatype node_kind =
    nk_overlay
  | nk_group
  | nk_property
  | nk_record nat
  | nk_function
  | nk_parameter
  | nk_member
  | nk_member_array

text \<open>
  \<open>tryCastTo\<close> of each class; the base class of all nodes casts to nothing. A group and a function fall
  back to the parent node they derive from.
\<close>

definition cast_plain :: "node_type \<Rightarrow> bool" where [simp]: "cast_plain t = False"

definition cast_parent :: "node_type \<Rightarrow> bool" where [simp]: "cast_parent t = (t = nt_hasChildren)"

definition cast_overlay :: "node_type \<Rightarrow> bool" where [simp]: "cast_overlay t = (t = nt_hasChildren)"

definition cast_group :: "node_type \<Rightarrow> bool" where
  [simp]: "cast_group t = (t = nt_encodable \<or> t = nt_group \<or> cast_parent t)"

definition cast_property :: "node_type \<Rightarrow> bool" where
  [simp]: "cast_property t = (t = nt_encodable \<or> t = nt_decodable \<or> cast_plain t)"

definition cast_record :: "node_type \<Rightarrow> bool" where
  [simp]: "cast_record t =
     (t = nt_encodable \<or> t = nt_decodable \<or> t = nt_requestHandler \<or> t = nt_record \<or> cast_parent t)"

definition cast_function :: "node_type \<Rightarrow> bool" where
  [simp]: "cast_function t = (t = nt_function \<or> t = nt_hasChildren)"

definition cast_member :: "node_type \<Rightarrow> bool" where [simp]: "cast_member t = (t = nt_recordMember)"

definition cast_member_array :: "node_type \<Rightarrow> bool" where
  [simp]: "cast_member_array t = (t = nt_recordMember \<or> cast_parent t)"

fun tryCastTo :: "node_kind \<Rightarrow> node_type \<Rightarrow> bool" where
  "tryCastTo nk_overlay = cast_overlay"
| "tryCastTo nk_group = cast_group"
| "tryCastTo nk_property = cast_property"
| "tryCastTo (nk_record n) = cast_record"
| "tryCastTo nk_function = cast_function"
| "tryCastTo nk_parameter = cast_plain"
| "tryCastTo nk_member = cast_member"
| "tryCastTo nk_member_array = cast_member_array"

record node =
  nd_id :: u16
  nd_parent :: u16
  nd_name :: string
  nd_kind :: node_kind
  nd_subsets :: u32
  nd_access :: u8

type_synonym node_map = "nref \<Rightarrow> node"

subsection \<open>Identity\<close>

definition NODE_MAP_LOOKUP_BUCKETS :: nat where "NODE_MAP_LOOKUP_BUCKETS = 8"

definition calculateId :: "u16 \<Rightarrow> u16 \<Rightarrow> u32" where
  "calculateId i p = (ucast p mod 255) * 0x10000 + ucast i + 1"

definition effectiveId :: "node \<Rightarrow> u32" where
  "effectiveId n =
    (if tryCastTo (nd_kind n) nt_recordMember then calculateId (nd_id n) (nd_parent n) else ucast (nd_id n))"

definition bucket :: "u32 \<Rightarrow> nat" where
  "bucket i = unat i mod NODE_MAP_LOOKUP_BUCKETS"

subsection \<open>The registry\<close>

record registry =
  rg_next :: links                    \<comment> \<open>ThingSetNode::list\<close>
  rg_map :: "nat \<Rightarrow> ilist"            \<comment> \<open>_nodeMap\<close>
  rg_cnext :: links                   \<comment> \<open>ThingSetNode::children\<close>
  rg_children :: "nref \<Rightarrow> ilist"      \<comment> \<open>ThingSetParentNode::_children\<close>

text \<open>The constructor registers the two overlay nodes directly: reference 0 is the root, 1 the metadata node.\<close>

definition root_node :: node where
  "root_node = \<lparr>nd_id = 0, nd_parent = 0, nd_name = [], nd_kind = nk_overlay, nd_subsets = 0, nd_access = userRead\<rparr>"

definition metadata_node :: node where
  "metadata_node = \<lparr>nd_id = 25, nd_parent = 0, nd_name = ''_Metadata'', nd_kind = nk_overlay,
     nd_subsets = 0, nd_access = userRead\<rparr>"

definition registry_init :: registry where
  "registry_init =
    (let h0 = (\<lambda>_. None); m0 = (\<lambda>_. il_empty);
         b0 = unat (nd_id root_node) mod NODE_MAP_LOOKUP_BUCKETS;
         (h1, l1) = push_back h0 (m0 b0) 0; m1 = m0(b0 := l1);
         b1 = unat (nd_id metadata_node) mod NODE_MAP_LOOKUP_BUCKETS;
         (h2, l2) = push_back h1 (m1 b1) 1; m2 = m1(b1 := l2)
     in \<lparr>rg_next = h2, rg_map = m2, rg_cnext = \<lambda>_. None, rg_children = \<lambda>_. il_empty\<rparr>)"

definition addChild :: "nref \<Rightarrow> nref \<Rightarrow> registry \<Rightarrow> registry" where
  "addChild p n r =
    (let (h, l) = push_back (rg_cnext r) (rg_children r p) n
     in r\<lparr>rg_cnext := h, rg_children := (rg_children r)(p := l)\<rparr>)"

definition removeChild :: "nref \<Rightarrow> nref \<Rightarrow> registry \<Rightarrow> registry option" where
  "removeChild p n r =
    map_option (\<lambda>(b, h, l). r\<lparr>rg_cnext := h, rg_children := (rg_children r)(p := l)\<rparr>)
      (remove_node (rg_cnext r) (rg_children r p) n)"

definition findById :: "node_map \<Rightarrow> registry \<Rightarrow> u32 \<Rightarrow> nref option option" where
  "findById N r i = find_loop (rg_next r) (\<lambda>n. ucast (nd_id (N n)) = i) (il_head (rg_map r (bucket i)))"

definition findParentById :: "node_map \<Rightarrow> registry \<Rightarrow> u32 \<Rightarrow> nref option option" where
  "findParentById N r i =
    map_option (\<lambda>f. case f of None \<Rightarrow> None
      | Some n \<Rightarrow> if tryCastTo (nd_kind (N n)) nt_hasChildren then Some n else None) (findById N r i)"

definition findByIdAndParent :: "node_map \<Rightarrow> registry \<Rightarrow> u16 \<Rightarrow> u16 \<Rightarrow> nref option option" where
  "findByIdAndParent N r i p =
    (case findParentById N r (ucast p) of
       None \<Rightarrow> None
     | Some None \<Rightarrow> Some None
     | Some (Some q) \<Rightarrow>
         if tryCastTo (nd_kind (N q)) nt_record
         then find_loop (rg_next r) (\<lambda>n. nd_id (N n) = i \<and> nd_parent (N n) = p)
                (il_head (rg_map r (bucket (calculateId i p))))
         else Some None)"

text \<open>
  \<open>registerOrUnregisterNode\<close> with its two actions; the actions of \<open>registerNode\<close> and \<open>unregisterNode\<close>
  follow. With \<open>ndebug\<close> the assertion is compiled out.
\<close>

definition registerOrUnregisterNode ::
  "node_map \<Rightarrow> nref \<Rightarrow> (nat \<Rightarrow> registry \<Rightarrow> registry option) \<Rightarrow> (nref \<Rightarrow> registry \<Rightarrow> registry option)
   \<Rightarrow> registry \<Rightarrow> registry option" where
  "registerOrUnregisterNode N n listAction parentAction r =
    (let i = effectiveId (N n)
     in case listAction (bucket i) r of
          None \<Rightarrow> None
        | Some r1 \<Rightarrow>
            if ucast (nd_parent (N n)) \<noteq> i
            then case findParentById N r1 (ucast (nd_parent (N n))) of
                   None \<Rightarrow> None
                 | Some None \<Rightarrow> Some r1
                 | Some (Some p) \<Rightarrow> parentAction p r1
            else Some r1)"

definition register_in_list :: "bool \<Rightarrow> node_map \<Rightarrow> nref \<Rightarrow> nat \<Rightarrow> registry \<Rightarrow> registry option" where
  "register_in_list ndebug N n b r =
    (case find_loop (rg_next r) (\<lambda>en. effectiveId (N en) = effectiveId (N n)) (il_head (rg_map r b)) of
       None \<Rightarrow> None
     | Some (Some en) \<Rightarrow> if ndebug then Some r else None
     | Some None \<Rightarrow>
         (let (h, l) = push_back (rg_next r) (rg_map r b) n
          in Some (r\<lparr>rg_next := h, rg_map := (rg_map r)(b := l)\<rparr>)))"

definition unregister_in_list :: "nref \<Rightarrow> nat \<Rightarrow> registry \<Rightarrow> registry option" where
  "unregister_in_list n b r =
    map_option (\<lambda>(_, h, l). r\<lparr>rg_next := h, rg_map := (rg_map r)(b := l)\<rparr>)
      (remove_node (rg_next r) (rg_map r b) n)"

definition all_nodes :: "registry \<Rightarrow> nref list option" where
  "all_nodes r = flat_elems (rg_next r) NODE_MAP_LOOKUP_BUCKETS (rg_map r)"

definition adopt_children :: "node_map \<Rightarrow> nref \<Rightarrow> registry \<Rightarrow> registry option" where
  "adopt_children N n r =
    map_option (\<lambda>ms. fold (\<lambda>m r. if nd_parent (N m) = nd_id (N n) then addChild n m r else r) ms r) (all_nodes r)"

definition registerNode :: "bool \<Rightarrow> node_map \<Rightarrow> nref \<Rightarrow> registry \<Rightarrow> registry option" where
  "registerNode ndebug N n r =
    (case registerOrUnregisterNode N n (register_in_list ndebug N n) (\<lambda>p r. Some (addChild p n r)) r of
       None \<Rightarrow> None
     | Some r1 \<Rightarrow>
         if tryCastTo (nd_kind (N n)) nt_hasChildren then adopt_children N n r1 else Some r1)"

definition unregisterNode :: "node_map \<Rightarrow> nref \<Rightarrow> registry \<Rightarrow> registry option" where
  "unregisterNode N n r =
    registerOrUnregisterNode N n (unregister_in_list n) (\<lambda>p. removeChild p n) r"

definition nodesInSubset :: "node_map \<Rightarrow> u32 \<Rightarrow> registry \<Rightarrow> nref list option" where
  "nodesInSubset N s r = map_option (filter (\<lambda>n. nd_subsets (N n) AND s = s)) (all_nodes r)"

subsection \<open>Lookup by name\<close>

text \<open>
  \<open>begin\<close> is virtual: a property holding records shows no children. \<open>atoi\<close> is the number in the leading digits; beyond
  INT_MAX the C library leaves the result undefined, and the model keeps the number. The index
  \<open>None\<close> is SIZE_MAX.
\<close>

definition child_begin :: "node_map \<Rightarrow> registry \<Rightarrow> nref \<Rightarrow> nref option" where
  "child_begin N r p = (case nd_kind (N p) of nk_record n \<Rightarrow> None | _ \<Rightarrow> il_head (rg_children r p))"

definition is_digit :: "char \<Rightarrow> bool" where
  "is_digit c \<longleftrightarrow> (48 \<le> (of_char c :: nat) \<and> (of_char c :: nat) \<le> 57)"

definition atoi :: "string \<Rightarrow> nat" where
  "atoi s = fold (\<lambda>c a. a * 10 + (of_char c - 48)) (takeWhile is_digit s) 0"

text \<open>The override of record properties: a name that starts with a digit is an index into the array.\<close>

definition record_index :: "node_kind \<Rightarrow> string \<Rightarrow> bool \<times> nref \<times> nat option \<Rightarrow> bool \<times> nref \<times> nat option" where
  "record_index k name res =
    (case k of
       nk_record n \<Rightarrow>
         (if name \<noteq> [] \<and> is_digit (hd name)
          then (atoi name < n, fst (snd res), Some (atoi name)) else res)
     | _ \<Rightarrow> res)"

definition token :: "string \<Rightarrow> string" where
  "token name = takeWhile (\<lambda>c. c \<noteq> CHR ''/'') name"

lemma token_shorter: "CHR ''/'' \<in> set name \<Longrightarrow> length (drop (Suc (length (token name))) name) < length name"
  by (cases name) auto

function findByName :: "node_map \<Rightarrow> registry \<Rightarrow> nref \<Rightarrow> string \<Rightarrow> (bool \<times> nref \<times> nat option) option" where
  "findByName N r p name =
    map_option (record_index (nd_kind (N p)) name)
     (if nd_name (N p) = token name \<and> CHR ''/'' \<notin> set name then Some (True, p, None)
      else case find_loop (rg_cnext r) (\<lambda>c. nd_name (N c) = token name) (child_begin N r p) of
          None \<Rightarrow> None
        | Some None \<Rightarrow> Some (False, p, None)
        | Some (Some c) \<Rightarrow>
            if CHR ''/'' \<notin> set name then Some (True, c, None)
            else if tryCastTo (nd_kind (N c)) nt_hasChildren
            then findByName N r c (drop (Suc (length (token name))) name)
            else Some (False, c, None))"
  by pat_completeness auto
termination by (relation "measure (\<lambda>(N, r, p, name). length name)") (use token_shorter in auto)

declare findByName.simps [simp del]

definition registry_findByName :: "node_map \<Rightarrow> registry \<Rightarrow> string \<Rightarrow> (bool \<times> nref \<times> nat option) option" where
  "registry_findByName N r name = findByName N r 0 name"

subsection \<open>Effective ids\<close>

lemma unat_calculateId: "unat (calculateId i p) = (unat p mod 255) * 65536 + unat i + 1"
proof -
  have "unat p mod 255 < 255" by simp
  then have b: "(unat p mod 255) * 65536 + unat i + 1 < 2 ^ 32"
    using unsigned_less [of i, where ?'a = nat] by simp
  have "(ucast p :: u32) mod 255 = of_nat (unat p mod 255)"
    by (simp add: word_arith_nat_mod [of "ucast p :: u32" 255])
  then have "calculateId i p = of_nat ((unat p mod 255) * 65536 + unat i + 1)"
    by (simp add: calculateId_def of_nat_unat_u16)
  with b show ?thesis by (simp only: unat_of_nat) simp
qed

lemma calculateId_inj:
  "calculateId i p = calculateId j q \<longleftrightarrow> i = j \<and> unat p mod 255 = unat q mod 255"
proof
  assume "calculateId i p = calculateId j q"
  then have "unat (calculateId i p) = unat (calculateId j q)" by simp
  then have e: "unat i + (unat p mod 255) * 65536 = unat j + (unat q mod 255) * 65536"
    by (simp add: unat_calculateId)
  have l: "unat i < 65536" "unat j < 65536" using unsigned_less [of i] unsigned_less [of j] by simp_all
  from e have "(unat i + (unat p mod 255) * 65536) mod 65536 = (unat j + (unat q mod 255) * 65536) mod 65536"
    by simp
  then have "unat i = unat j" using l by simp
  with e show "i = j \<and> unat p mod 255 = unat q mod 255" by auto
next
  assume "i = j \<and> unat p mod 255 = unat q mod 255"
  then have "unat (calculateId i p) = unat (calculateId j q)" by (simp add: unat_calculateId)
  then show "calculateId i p = calculateId j q" by simp
qed

lemma calculateId_bucket: "bucket (calculateId i p) \<noteq> bucket (ucast i)"
proof -
  have "(unat p mod 255) * 65536 + unat i + 1 = unat i + 1 + ((unat p mod 255) * 8192) * 8" by simp
  then have "((unat p mod 255) * 65536 + unat i + 1) mod 8 = (unat i + 1) mod 8"
    by (simp only: mod_mult_self1)
  moreover have "(unat i + 1) mod 8 \<noteq> unat i mod 8" by presburger
  ultimately show ?thesis
    by (simp only: bucket_def NODE_MAP_LOOKUP_BUCKETS_def unat_calculateId unat_u16_u32 not_False_eq_True)
qed

subsection \<open>The invariant\<close>

text \<open>
  \<open>xs b\<close> is the content of bucket b and \<open>cs p\<close> the children of p. Every bucket holds the nodes whose
  effective id belongs there, effective ids are unique, two parents never have the same id, and a
  child is registered under the registered parent whose id it names. The last clause says that no
  child is missing, with the two exceptions of the code: a node whose parent id is its own
  effective id, and the metadata node (reference 1), which the constructor adds to no parent.
\<close>

definition nodes_of :: "(nat \<Rightarrow> nref list) \<Rightarrow> nref set" where
  "nodes_of xs = (\<Union>i. set (xs i))"

abbreviation is_parent :: "node \<Rightarrow> bool" where
  "is_parent n \<equiv> tryCastTo (nd_kind n) nt_hasChildren"

abbreviation is_member :: "node \<Rightarrow> bool" where
  "is_member n \<equiv> tryCastTo (nd_kind n) nt_recordMember"

definition lists_ok :: "node_map \<Rightarrow> registry \<Rightarrow> (nat \<Rightarrow> nref list) \<Rightarrow> bool" where
  "lists_ok N r xs \<longleftrightarrow> il.family (rg_next r) (rg_map r) xs \<and>
     (\<forall>i n. n \<in> set (xs i) \<longrightarrow> bucket (effectiveId (N n)) = i) \<and>
     inj_on (\<lambda>n. effectiveId (N n)) (nodes_of xs)"

definition tree_ok :: "node_map \<Rightarrow> registry \<Rightarrow> nref set \<Rightarrow> (nref \<Rightarrow> nref list) \<Rightarrow> bool" where
  "tree_ok N r R cs \<longleftrightarrow> il.family (rg_cnext r) (rg_children r) cs \<and>
     (\<forall>q m. m \<in> set (cs q) \<longrightarrow> q \<in> R \<and> m \<in> R \<and> is_parent (N q) \<and> nd_parent (N m) = nd_id (N q)) \<and>
     (\<forall>q \<in> R. \<forall>q' \<in> R. is_parent (N q) \<and> is_parent (N q') \<and> nd_id (N q) = nd_id (N q') \<longrightarrow> q = q') \<and>
     (\<forall>q \<in> R. \<forall>m \<in> R. is_parent (N q) \<and> \<not> is_member (N q) \<and> m \<noteq> 1 \<and>
        nd_parent (N m) = nd_id (N q) \<and> ucast (nd_parent (N m)) \<noteq> effectiveId (N m) \<longrightarrow> m \<in> set (cs q))"

definition registry_ok :: "node_map \<Rightarrow> registry \<Rightarrow> (nat \<Rightarrow> nref list) \<Rightarrow> (nref \<Rightarrow> nref list) \<Rightarrow> bool" where
  "registry_ok N r xs cs \<longleftrightarrow> lists_ok N r xs \<and> tree_ok N r (nodes_of xs) cs"

lemma family_rep: "il.family h ls xs \<Longrightarrow> il_rep h (ls i) (xs i)"
  by (simp add: il.family_def)

lemma nodes_bucket:
  assumes "lists_ok N r xs" "n \<in> nodes_of xs"
  shows "n \<in> set (xs (bucket (effectiveId (N n))))"
  using assms by (auto simp: lists_ok_def nodes_of_def)

lemma lists_inj:
  assumes "lists_ok N r xs" "x \<in> nodes_of xs" "y \<in> nodes_of xs" "effectiveId (N x) = effectiveId (N y)"
  shows "x = y"
  using assms unfolding lists_ok_def by (auto dest: inj_onD)

lemma bucket_find:
  assumes "lists_ok N r xs"
  shows "find_loop (rg_next r) P (il_head (rg_map r b)) = Some (find P (xs b))"
  using assms family_rep [of "rg_next r" "rg_map r" xs b]
  by (intro find_loop_chain) (simp add: lists_ok_def il_rep_def)

lemma child_find:
  assumes "il.family (rg_cnext r) (rg_children r) cs"
  shows "find_loop (rg_cnext r) P (il_head (rg_children r p)) = Some (find P (cs p))"
  using family_rep [OF assms, of p] by (intro find_loop_chain) (simp add: il_rep_def)

lemma find_Some_iff_unique:
  assumes "\<And>x y. x \<in> set xs \<Longrightarrow> y \<in> set xs \<Longrightarrow> P x \<Longrightarrow> P y \<Longrightarrow> x = y"
  shows "find P xs = Some n \<longleftrightarrow> n \<in> set xs \<and> P n"
proof
  assume "find P xs = Some n"
  then show "n \<in> set xs \<and> P n" by (auto simp: find_Some_iff)
next
  assume n: "n \<in> set xs \<and> P n"
  then obtain m where "find P xs = Some m" by (cases "find P xs") (auto simp: find_None_iff)
  moreover from this have "m \<in> set xs \<and> P m" by (auto simp: find_Some_iff)
  ultimately show "find P xs = Some n" using assms n by metis
qed

lemma effectiveId_plain: "\<not> is_member n \<Longrightarrow> effectiveId n = ucast (nd_id n)"
  by (simp add: effectiveId_def)

text \<open>A node whose raw id puts it in its own bucket is not a record member.\<close>

lemma raw_bucket_plain: "bucket (effectiveId n) = bucket (ucast (nd_id n)) \<longleftrightarrow> \<not> is_member n"
  using calculateId_bucket by (simp add: effectiveId_def)

lemma findById_find:
  assumes "lists_ok N r xs"
  shows "findById N r i = Some (find (\<lambda>n. ucast (nd_id (N n)) = i) (xs (bucket i)))"
  by (simp add: findById_def bucket_find [OF assms])

lemma findById_iff:
  assumes ok: "lists_ok N r xs" and f: "findById N r i = Some f"
  shows "f = Some n \<longleftrightarrow> n \<in> nodes_of xs \<and> \<not> is_member (N n) \<and> ucast (nd_id (N n)) = i"
proof -
  let ?P = "\<lambda>n. ucast (nd_id (N n)) = i"
  have plain: "\<not> is_member (N m)" if "m \<in> set (xs (bucket i))" "?P m" for m
    using ok that raw_bucket_plain [of "N m"] by (auto simp: lists_ok_def)
  have "find ?P (xs (bucket i)) = Some n \<longleftrightarrow> n \<in> set (xs (bucket i)) \<and> ?P n"
  proof (rule find_Some_iff_unique)
    fix x y assume xy: "x \<in> set (xs (bucket i))" "y \<in> set (xs (bucket i))" "?P x" "?P y"
    then have "effectiveId (N x) = effectiveId (N y)"
      using plain by (auto simp: effectiveId_plain)
    then show "x = y" using xy(1,2) by (intro lists_inj [OF ok]) (auto simp: nodes_of_def)
  qed
  moreover have "n \<in> set (xs (bucket i)) \<and> ?P n \<longleftrightarrow> n \<in> nodes_of xs \<and> \<not> is_member (N n) \<and> ?P n"
  proof
    assume "n \<in> set (xs (bucket i)) \<and> ?P n"
    then show "n \<in> nodes_of xs \<and> \<not> is_member (N n) \<and> ?P n"
      using plain [of n] by (auto simp: nodes_of_def)
  next
    assume "n \<in> nodes_of xs \<and> \<not> is_member (N n) \<and> ?P n"
    then show "n \<in> set (xs (bucket i)) \<and> ?P n"
      using nodes_bucket [OF ok, of n] by (simp add: effectiveId_plain)
  qed
  ultimately show ?thesis using f by (simp add: findById_find [OF ok])
qed

lemma findParentById_total:
  assumes "lists_ok N r xs"
  obtains f where "findParentById N r i = Some f"
    "\<forall>q. f = Some q \<longleftrightarrow> q \<in> nodes_of xs \<and> \<not> is_member (N q) \<and> ucast (nd_id (N q)) = i \<and> is_parent (N q)"
proof -
  obtain g where g: "findById N r i = Some g" using findById_find [OF assms] by blast
  let ?f = "case g of None \<Rightarrow> None | Some n \<Rightarrow> if is_parent (N n) then Some n else None"
  have "?f = Some q \<longleftrightarrow> q \<in> nodes_of xs \<and> \<not> is_member (N q) \<and> ucast (nd_id (N q)) = i \<and> is_parent (N q)" for q
    using findById_iff [OF assms g, of q] by (auto split: option.splits)
  with g that show thesis by (simp add: findParentById_def)
qed

lemma bucket_less: "bucket i < NODE_MAP_LOOKUP_BUCKETS"
  by (simp add: bucket_def NODE_MAP_LOOKUP_BUCKETS_def)

lemma all_nodes_ok:
  assumes "lists_ok N r xs"
  obtains ms where "all_nodes r = Some ms" "set ms = nodes_of xs" "distinct ms"
proof -
  let ?ms = "concat (map xs [0..<NODE_MAP_LOOKUP_BUCKETS])"
  have fam: "il.family (rg_next r) (rg_map r) xs" using assms by (simp add: lists_ok_def)
  have "xs i = []" if "\<not> i < NODE_MAP_LOOKUP_BUCKETS" for i
  proof (rule ccontr)
    assume "xs i \<noteq> []"
    then obtain n where "n \<in> set (xs i)" by (cases "xs i") auto
    then have "bucket (effectiveId (N n)) = i" using assms by (auto simp: lists_ok_def)
    with bucket_less [of "effectiveId (N n)"] that show False by simp
  qed
  then have lt: "i < NODE_MAP_LOOKUP_BUCKETS" if "n \<in> set (xs i)" for i n using that by fastforce
  have "set ?ms = (\<Union>i < NODE_MAP_LOOKUP_BUCKETS. set (xs i))" by auto
  also have "\<dots> = nodes_of xs" unfolding nodes_of_def using lt by blast
  finally have "set ?ms = nodes_of xs" .
  moreover have "distinct (concat (map xs [0..<k]))" for k :: nat
  proof (induction k)
    case (Suc k)
    have "distinct (xs k)" using family_rep [OF fam, of k] by (simp add: il_rep_def)
    moreover have "\<forall>j < k. set (xs j) \<inter> set (xs k) = {}"
      using fam by (auto simp: il.family_def)
    ultimately show ?case using Suc by (fastforce simp: disjoint_iff)
  qed simp
  moreover have "all_nodes r = Some ?ms"
    unfolding all_nodes_def by (rule flat_elems_rep) (rule family_rep [OF fam])
  ultimately show thesis using that by blast
qed

subsection \<open>Registering\<close>

definition tree_sound :: "node_map \<Rightarrow> registry \<Rightarrow> nref set \<Rightarrow> (nref \<Rightarrow> nref list) \<Rightarrow> bool" where
  "tree_sound N r R cs \<longleftrightarrow> il.family (rg_cnext r) (rg_children r) cs \<and>
     (\<forall>q m. m \<in> set (cs q) \<longrightarrow> q \<in> R \<and> m \<in> R \<and> is_parent (N q) \<and> nd_parent (N m) = nd_id (N q)) \<and>
     (\<forall>q \<in> R. \<forall>q' \<in> R. is_parent (N q) \<and> is_parent (N q') \<and> nd_id (N q) = nd_id (N q') \<longrightarrow> q = q')"

lemma tree_ok_sound: "tree_ok N r R cs \<Longrightarrow> tree_sound N r R cs"
  unfolding tree_ok_def tree_sound_def by blast

lemma tree_okI:
  assumes "tree_sound N r R cs"
    and "\<And>q m. q \<in> R \<Longrightarrow> m \<in> R \<Longrightarrow> is_parent (N q) \<Longrightarrow> \<not> is_member (N q) \<Longrightarrow> m \<noteq> 1 \<Longrightarrow>
      nd_parent (N m) = nd_id (N q) \<Longrightarrow> ucast (nd_parent (N m)) \<noteq> effectiveId (N m) \<Longrightarrow> m \<in> set (cs q)"
  shows "tree_ok N r R cs"
  using assms unfolding tree_ok_def tree_sound_def by blast

lemma tree_okD:
  "tree_ok N r R cs \<Longrightarrow> q \<in> R \<Longrightarrow> m \<in> R \<Longrightarrow> is_parent (N q) \<Longrightarrow> \<not> is_member (N q) \<Longrightarrow> m \<noteq> 1 \<Longrightarrow>
   nd_parent (N m) = nd_id (N q) \<Longrightarrow> ucast (nd_parent (N m)) \<noteq> effectiveId (N m) \<Longrightarrow> m \<in> set (cs q)"
  unfolding tree_ok_def by blast

lemma tree_ok_child:
  "tree_ok N r R cs \<Longrightarrow> m \<in> set (cs q) \<Longrightarrow>
   q \<in> R \<and> m \<in> R \<and> is_parent (N q) \<and> nd_parent (N m) = nd_id (N q)"
  unfolding tree_ok_def by blast

lemma addChild_fields [simp]: "rg_next (addChild p n r) = rg_next r" "rg_map (addChild p n r) = rg_map r"
  by (simp_all add: addChild_def case_prod_beta)

lemma addChild_sound:
  assumes ts: "tree_sound N r R cs" and q: "q \<in> R" "is_parent (N q)" and m: "m \<in> R"
    "nd_parent (N m) = nd_id (N q)" "m \<notin> set (cs q)"
  shows "tree_sound N (addChild q m r) R (cs(q := cs q @ [m]))"
proof -
  have nin: "m \<notin> set (cs p)" for p
  proof
    assume p: "m \<in> set (cs p)"
    then have "p \<in> R" "is_parent (N p)" "nd_id (N p) = nd_id (N q)" using ts m(2) by (auto simp: tree_sound_def)
    then have "p = q" using ts q unfolding tree_sound_def by blast
    with p m(3) show False by simp
  qed
  obtain h l where hl: "push_back (rg_cnext r) (rg_children r q) m = (h, l)" by fastforce
  have "il.family (rg_cnext r) (rg_children r) cs" using ts by (simp add: tree_sound_def)
  from il.family_push [OF this nin hl]
  have "il.family h ((rg_children r)(q := l)) (cs(q := cs q @ [m]))" .
  then show ?thesis using ts q m(1,2) by (simp add: tree_sound_def addChild_def hl)
qed

lemma adopt_sound:
  assumes "tree_sound N r R cs" "q \<in> R" "is_parent (N q)" "set ms \<subseteq> R" "distinct ms" "set ms \<inter> set (cs q) = {}"
  shows "tree_sound N (fold (\<lambda>m r. if nd_parent (N m) = nd_id (N q) then addChild q m r else r) ms r) R
    (cs(q := cs q @ filter (\<lambda>m. nd_parent (N m) = nd_id (N q)) ms))"
  using assms
proof (induction ms arbitrary: r cs)
  case (Cons m ms)
  show ?case
  proof (cases "nd_parent (N m) = nd_id (N q)")
    case True
    have "tree_sound N (addChild q m r) R (cs(q := cs q @ [m]))"
      using Cons.prems True by (intro addChild_sound) auto
    from Cons.IH [OF this Cons.prems(2,3)] Cons.prems True show ?thesis by (simp cong: if_cong)
  next
    case False
    with Cons.IH [OF Cons.prems(1-3)] Cons.prems show ?thesis by simp
  qed
qed simp

lemma adopt_fields:
  "rg_next (fold (\<lambda>m r. if Q m then addChild q m r else r) ms r) = rg_next r"
  "rg_map (fold (\<lambda>m r. if Q m then addChild q m r else r) ms r) = rg_map r"
  by (induction ms arbitrary: r) auto

text \<open>What a node must satisfy to be registered: it is new, and no registered node has its identity.\<close>

definition fresh_node :: "node_map \<Rightarrow> nref \<Rightarrow> nref set \<Rightarrow> bool" where
  "fresh_node N n R \<longleftrightarrow> n \<notin> R \<and> (\<forall>m \<in> R. effectiveId (N m) \<noteq> effectiveId (N n)) \<and>
     (is_parent (N n) \<longrightarrow> (\<forall>q \<in> R. is_parent (N q) \<longrightarrow> nd_id (N q) \<noteq> nd_id (N n)))"

lemma nodes_of_upd: "nodes_of (xs(b := xs b @ [n])) = insert n (nodes_of xs)"
  by (auto simp: nodes_of_def split: if_splits)

lemma register_in_list_ok:
  assumes ok: "lists_ok N r xs" and fr: "fresh_node N n (nodes_of xs)" and b: "b = bucket (effectiveId (N n))"
  obtains h l where "register_in_list ndebug N n b r = Some (r\<lparr>rg_next := h, rg_map := l\<rparr>)"
    "lists_ok N (r\<lparr>rg_next := h, rg_map := l\<rparr>) (xs(b := xs b @ [n]))"
proof -
  let ?P = "\<lambda>en. effectiveId (N en) = effectiveId (N n)"
  have "find ?P (xs b) = None"
    using fr by (auto simp: find_None_iff fresh_node_def nodes_of_def)
  then have f: "find_loop (rg_next r) ?P (il_head (rg_map r b)) = Some None"
    by (simp add: bucket_find [OF ok])
  obtain h l where hl: "push_back (rg_next r) (rg_map r b) n = (h, l)" by fastforce
  have "n \<notin> set (xs j)" for j using fr by (auto simp: fresh_node_def nodes_of_def)
  moreover have "il.family (rg_next r) (rg_map r) xs" using ok by (simp add: lists_ok_def)
  ultimately have fam: "il.family h ((rg_map r)(b := l)) (xs(b := xs b @ [n]))"
    using hl by (intro il.family_push)
  have inj: "inj_on (\<lambda>n. effectiveId (N n)) (insert n (nodes_of xs))"
    using ok fr by (auto simp: lists_ok_def fresh_node_def inj_on_insert image_iff)
  have "lists_ok N (r\<lparr>rg_next := h, rg_map := (rg_map r)(b := l)\<rparr>) (xs(b := xs b @ [n]))"
    using ok fam inj b by (auto simp: lists_ok_def nodes_of_upd)
  then show thesis using that f hl by (simp add: register_in_list_def)
qed

lemma tree_ok_lists: "rg_cnext r' = rg_cnext r \<Longrightarrow> rg_children r' = rg_children r \<Longrightarrow> tree_ok N r' R cs = tree_ok N r R cs"
  by (simp only: tree_ok_def)

lemma lists_ok_tree: "rg_next r' = rg_next r \<Longrightarrow> rg_map r' = rg_map r \<Longrightarrow> lists_ok N r' xs = lists_ok N r xs"
  by (simp only: lists_ok_def)

text \<open>The state after the bucket and the parent's children list have been updated.\<close>

lemma attach_parent:
  assumes ok: "lists_ok N r1 (xs(b := xs b @ [n]))" and tr: "tree_ok N r1 (nodes_of xs) cs"
    and fr: "fresh_node N n (nodes_of xs)"
  obtains r2 cs2 where
    "(if ucast (nd_parent (N n)) \<noteq> effectiveId (N n)
      then case findParentById N r1 (ucast (nd_parent (N n))) of None \<Rightarrow> None
        | Some None \<Rightarrow> Some r1 | Some (Some p) \<Rightarrow> Some (addChild p n r1)
      else Some r1) = Some r2"
    "rg_next r2 = rg_next r1" "rg_map r2 = rg_map r1"
    "tree_sound N r2 (insert n (nodes_of xs)) cs2" "cs2 n = []"
    "\<forall>q. set (cs q) \<subseteq> set (cs2 q)"
    "\<forall>q \<in> nodes_of xs. is_parent (N q) \<and> \<not> is_member (N q) \<and> nd_parent (N n) = nd_id (N q) \<and>
       ucast (nd_parent (N n)) \<noteq> effectiveId (N n) \<longrightarrow> n \<in> set (cs2 q)"
proof -
  let ?R = "insert n (nodes_of xs)"
  have ts: "tree_sound N r1 (nodes_of xs) cs" using tr by (rule tree_ok_sound)
  have nR: "n \<notin> nodes_of xs" using fr by (simp add: fresh_node_def)
  have sub: "m \<in> set (cs q) \<Longrightarrow> q \<in> nodes_of xs \<and> m \<in> nodes_of xs" for q m
    using ts by (simp add: tree_sound_def)
  have n0: "cs n = []" "n \<notin> set (cs q)" for q
    using sub [of "hd (cs n)" n] sub [of n q] nR hd_in_set [of "cs n"] by blast+
  have ts1: "tree_sound N r1 ?R cs"
  proof -
    have "q = q'" if "q \<in> ?R" "q' \<in> ?R" "is_parent (N q) \<and> is_parent (N q') \<and> nd_id (N q) = nd_id (N q')" for q q'
      using ts fr that unfolding tree_sound_def fresh_node_def by (cases "q = n"; cases "q' = n") auto
    then show ?thesis using ts by (simp add: tree_sound_def)
  qed
  show thesis
  proof (cases "ucast (nd_parent (N n)) = effectiveId (N n)")
    case True
    show thesis by (rule that [of r1 cs]) (use True ts1 n0 in auto)
  next
    case False
    obtain f where f: "findParentById N r1 (ucast (nd_parent (N n))) = Some f"
      and fq: "\<forall>q. f = Some q \<longleftrightarrow> q \<in> nodes_of (xs(b := xs b @ [n])) \<and> \<not> is_member (N q) \<and>
        ucast (nd_id (N q)) = (ucast (nd_parent (N n)) :: u32) \<and> is_parent (N q)"
      by (rule findParentById_total [OF ok])
    show thesis
    proof (cases f)
      case None
      have "False" if "q \<in> nodes_of xs" "is_parent (N q)" "\<not> is_member (N q)" "nd_parent (N n) = nd_id (N q)" for q
        using spec [OF fq, of q] that None by (simp add: nodes_of_upd)
      then show thesis by (intro that [of r1 cs]) (use None False f ts1 n0 in auto)
    next
      case (Some q)
      then have q: "q \<in> ?R" "\<not> is_member (N q)" "nd_id (N q) = nd_parent (N n)" "is_parent (N q)"
        using spec [OF fq, of q] by (simp_all add: nodes_of_upd)
      have "q \<noteq> n" using q False by (auto simp: effectiveId_plain)
      then have qR: "q \<in> nodes_of xs" using q(1) by simp
      have ts2: "tree_sound N (addChild q n r1) ?R (cs(q := cs q @ [n]))"
        by (rule addChild_sound [OF ts1]) (use q n0 in auto)
      have "p = q" if "p \<in> nodes_of xs" "is_parent (N p)" "nd_parent (N n) = nd_id (N p)" for p
        using ts qR q(3,4) that unfolding tree_sound_def by metis
      then show thesis
        by (intro that [of "addChild q n r1" "cs(q := cs q @ [n])"])
          (use Some False f ts2 n0 \<open>q \<noteq> n\<close> in \<open>auto split: if_splits\<close>)
    qed
  qed
qed

lemma registerNode_ok:
  assumes ok: "registry_ok N r xs cs" and fr: "fresh_node N n (nodes_of xs)"
    and b: "b = bucket (effectiveId (N n))"
  obtains r' cs' where "registerNode ndebug N n r = Some r'"
    "registry_ok N r' (xs(b := xs b @ [n])) cs'" "\<forall>q. set (cs q) \<subseteq> set (cs' q)"
proof -
  let ?R = "insert n (nodes_of xs)" and ?xs = "xs(b := xs b @ [n])"
  have lo: "lists_ok N r xs" and tr: "tree_ok N r (nodes_of xs) cs"
    using ok by (auto simp: registry_ok_def)
  obtain h l where r1: "register_in_list ndebug N n b r = Some (r\<lparr>rg_next := h, rg_map := l\<rparr>)"
    and lo1: "lists_ok N (r\<lparr>rg_next := h, rg_map := l\<rparr>) ?xs"
    by (rule register_in_list_ok [OF lo fr b])
  let ?r1 = "r\<lparr>rg_next := h, rg_map := l\<rparr>"
  have tr1: "tree_ok N ?r1 (nodes_of xs) cs" using tr by (simp add: tree_ok_lists [of ?r1 r])
  obtain r2 cs2 where r2: "(if ucast (nd_parent (N n)) \<noteq> effectiveId (N n)
      then case findParentById N ?r1 (ucast (nd_parent (N n))) of None \<Rightarrow> None
        | Some None \<Rightarrow> Some ?r1 | Some (Some p) \<Rightarrow> Some (addChild p n ?r1)
      else Some ?r1) = Some r2"
    and fields: "rg_next r2 = rg_next ?r1" "rg_map r2 = rg_map ?r1"
    and ts2: "tree_sound N r2 ?R cs2" "cs2 n = []"
    and mono: "\<forall>q. set (cs q) \<subseteq> set (cs2 q)"
    and new: "\<forall>q \<in> nodes_of xs. is_parent (N q) \<and> \<not> is_member (N q) \<and> nd_parent (N n) = nd_id (N q) \<and>
       ucast (nd_parent (N n)) \<noteq> effectiveId (N n) \<longrightarrow> n \<in> set (cs2 q)"
    by (rule attach_parent [OF lo1 tr1 fr])
  have lo2: "lists_ok N r2 ?xs" using lo1 fields by (simp add: lists_ok_tree [of r2 ?r1])
  have reg: "registerOrUnregisterNode N n (register_in_list ndebug N n) (\<lambda>p r. Some (addChild p n r)) r = Some r2"
    using r1 r2 unfolding registerOrUnregisterNode_def Let_def b by simp
  have old: "m \<in> set (cs2 q)" if "q \<in> nodes_of xs" "m \<in> ?R" "is_parent (N q)" "\<not> is_member (N q)" "m \<noteq> 1"
      "nd_parent (N m) = nd_id (N q)" "ucast (nd_parent (N m)) \<noteq> effectiveId (N m)" for q m
  proof (cases "m = n")
    case True
    then show ?thesis using new that by simp
  next
    case False
    with that(2) have "m \<in> nodes_of xs" by simp
    then have "m \<in> set (cs q)" using that by (intro tree_okD [OF tr])
    then show ?thesis using mono by blast
  qed
  show thesis
  proof (cases "is_parent (N n)")
    case False
    have "tree_ok N r2 ?R cs2" using ts2(1)
    proof (rule tree_okI)
      fix q m assume a: "q \<in> ?R" "m \<in> ?R" "is_parent (N q)" "\<not> is_member (N q)" "m \<noteq> 1"
        "nd_parent (N m) = nd_id (N q)" "ucast (nd_parent (N m)) \<noteq> effectiveId (N m)"
      then have "q \<in> nodes_of xs" using False by auto
      then show "m \<in> set (cs2 q)" using a by (intro old)
    qed
    then show thesis
      by (intro that [of r2 cs2]) (use reg False lo2 mono in \<open>auto simp: registerNode_def registry_ok_def nodes_of_upd\<close>)
  next
    case True
    obtain ms where ms: "all_nodes r2 = Some ms" "set ms = nodes_of ?xs" "distinct ms"
      by (rule all_nodes_ok [OF lo2])
    let ?r3 = "fold (\<lambda>m r. if nd_parent (N m) = nd_id (N n) then addChild n m r else r) ms r2"
    let ?cs3 = "cs2(n := cs2 n @ filter (\<lambda>m. nd_parent (N m) = nd_id (N n)) ms)"
    have ts3: "tree_sound N ?r3 ?R ?cs3"
      by (rule adopt_sound) (use ts2 True ms in \<open>auto simp: nodes_of_upd\<close>)
    have "tree_ok N ?r3 ?R ?cs3" using ts3
    proof (rule tree_okI)
      fix q m assume a: "q \<in> ?R" "m \<in> ?R" "is_parent (N q)" "\<not> is_member (N q)" "m \<noteq> 1"
        "nd_parent (N m) = nd_id (N q)" "ucast (nd_parent (N m)) \<noteq> effectiveId (N m)"
      show "m \<in> set (?cs3 q)"
      proof (cases "q = n")
        case True
        then show ?thesis using a(2,6) ms(2) by (simp add: nodes_of_upd)
      next
        case False
        then have "q \<in> nodes_of xs" using a(1) by simp
        then have "m \<in> set (cs2 q)" using a(2-7) by (rule old)
        then show ?thesis using False by simp
      qed
    qed
    moreover have "lists_ok N ?r3 ?xs" using lo2 by (simp add: lists_ok_tree [of ?r3 r2] adopt_fields)
    moreover have "registerNode ndebug N n r = Some ?r3"
      using reg True ms(1) by (simp add: registerNode_def adopt_children_def)
    moreover have "set (cs q) \<subseteq> set (?cs3 q)" for q using spec [OF mono, of q] spec [OF mono, of n] by (auto simp: ts2(2))
    ultimately show thesis using that [of ?r3 ?cs3] by (simp add: registry_ok_def nodes_of_upd)
  qed
qed

subsection \<open>Unregistering\<close>

lemma nodes_of_remove:
  assumes "lists_ok N r xs" "b = bucket (effectiveId (N n))"
  shows "nodes_of (xs(b := remove1 n (xs b))) = nodes_of xs - {n}"
proof -
  have d: "distinct (xs b)"
    using assms(1) family_rep [of "rg_next r" "rg_map r" xs b] by (simp add: lists_ok_def il_rep_def)
  have "n \<in> set (xs i) \<Longrightarrow> i = b" for i using assms by (auto simp: lists_ok_def)
  then show ?thesis using d by (auto simp: nodes_of_def split: if_splits)
qed

lemma unregister_in_list_ok:
  assumes ok: "lists_ok N r xs" and b: "b = bucket (effectiveId (N n))"
  obtains h l where "unregister_in_list n b r = Some (r\<lparr>rg_next := h, rg_map := l\<rparr>)"
    "lists_ok N (r\<lparr>rg_next := h, rg_map := l\<rparr>) (xs(b := remove1 n (xs b)))"
proof -
  have fam: "il.family (rg_next r) (rg_map r) xs" using ok by (simp add: lists_ok_def)
  obtain h l where rem: "remove_node (rg_next r) (rg_map r b) n = Some (n \<in> set (xs b), h, l)"
    using il.family_rem_total [OF fam, of b n] by blast
  have "il.family h ((rg_map r)(b := l)) (xs(b := remove1 n (xs b)))"
    by (rule il.family_rem [OF fam rem])
  moreover have "inj_on (\<lambda>n. effectiveId (N n)) (nodes_of xs - {n})"
    using ok by (auto simp: lists_ok_def intro: inj_on_subset)
  moreover have "bucket (effectiveId (N m)) = i" if "m \<in> set ((xs(b := remove1 n (xs b))) i)" for m i
  proof -
    have "m \<in> set (xs i)" using that set_remove1_subset [of n "xs b"] by (auto split: if_splits)
    then show ?thesis using ok by (simp add: lists_ok_def)
  qed
  ultimately have "lists_ok N (r\<lparr>rg_next := h, rg_map := (rg_map r)(b := l)\<rparr>) (xs(b := remove1 n (xs b)))"
    by (simp add: lists_ok_def nodes_of_remove [OF ok b])
  then show thesis using that rem by (simp add: unregister_in_list_def)
qed

lemma removeChild_ok:
  assumes "il.family (rg_cnext r) (rg_children r) cs"
  obtains r' where "removeChild q n r = Some r'" "il.family (rg_cnext r') (rg_children r') (cs(q := remove1 n (cs q)))"
    "rg_next r' = rg_next r" "rg_map r' = rg_map r"
proof -
  obtain h l where rem: "remove_node (rg_cnext r) (rg_children r q) n = Some (n \<in> set (cs q), h, l)"
    using il.family_rem_total [OF assms, of q n] by blast
  show thesis
    by (rule that [of "r\<lparr>rg_cnext := h, rg_children := (rg_children r)(q := l)\<rparr>"])
      (use il.family_rem [OF assms rem] rem in \<open>simp_all add: removeChild_def\<close>)
qed

text \<open>
  Removing n from the parent found by its id leaves a sound tree of the other nodes, when n has no
  children and is not the child of a member array (whose children the code never removes).
\<close>

lemma tree_ok_remove:
  assumes tr: "tree_ok N r R cs" and n: "cs n = []"
    and fam: "il.family (rg_cnext r') (rg_children r') cs'"
    and sub: "\<And>q m. m \<in> set (cs' q) \<longleftrightarrow> m \<in> set (cs q) \<and> m \<noteq> n"
  shows "tree_ok N r' (R - {n}) cs'"
proof -
  have s: "\<And>q m. m \<in> set (cs q) \<Longrightarrow> q \<in> R \<and> m \<in> R \<and> is_parent (N q) \<and> nd_parent (N m) = nd_id (N q)"
    "\<And>q q'. q \<in> R \<Longrightarrow> q' \<in> R \<Longrightarrow> is_parent (N q) \<Longrightarrow> is_parent (N q') \<Longrightarrow> nd_id (N q) = nd_id (N q') \<Longrightarrow> q = q'"
    using tr unfolding tree_ok_def by blast+
  have "tree_sound N r' (R - {n}) cs'"
    unfolding tree_sound_def
  proof (intro conjI allI impI ballI fam)
    fix q m assume "m \<in> set (cs' q)"
    then have m: "m \<in> set (cs q)" "m \<noteq> n" using sub by auto
    then have "q \<noteq> n" using n by auto
    with s(1) [OF m(1)] m(2)
    show "q \<in> R - {n}" "m \<in> R - {n}" "is_parent (N q)" "nd_parent (N m) = nd_id (N q)" by auto
  qed (use s(2) in auto)
  then show ?thesis
  proof (rule tree_okI)
    fix q m assume a: "q \<in> R - {n}" "m \<in> R - {n}" "is_parent (N q)" "\<not> is_member (N q)" "m \<noteq> 1"
        "nd_parent (N m) = nd_id (N q)" "ucast (nd_parent (N m)) \<noteq> effectiveId (N m)"
    then have "m \<in> set (cs q)" using tree_okD [OF tr, of q m] by simp
    then show "m \<in> set (cs' q)" using sub a(2) by simp
  qed
qed

lemma unregisterNode_ok:
  assumes ok: "registry_ok N r xs cs" and n: "n \<in> nodes_of xs" "cs n = []"
    and nm: "\<And>q. n \<in> set (cs q) \<Longrightarrow> \<not> is_member (N q)" and b: "b = bucket (effectiveId (N n))"
  obtains r' cs' where "unregisterNode N n r = Some r'"
    "registry_ok N r' (xs(b := remove1 n (xs b))) cs'" "\<forall>q m. m \<in> set (cs' q) \<longleftrightarrow> m \<in> set (cs q) \<and> m \<noteq> n"
proof -
  note goal = that
  let ?xs = "xs(b := remove1 n (xs b))"
  have lo: "lists_ok N r xs" and tr: "tree_ok N r (nodes_of xs) cs" using ok by (auto simp: registry_ok_def)
  have fam: "il.family (rg_cnext r) (rg_children r) cs" using tr by (simp add: tree_ok_def)
  obtain h l where r1: "unregister_in_list n b r = Some (r\<lparr>rg_next := h, rg_map := l\<rparr>)"
    and lo1: "lists_ok N (r\<lparr>rg_next := h, rg_map := l\<rparr>) ?xs" by (rule unregister_in_list_ok [OF lo b])
  let ?r1 = "r\<lparr>rg_next := h, rg_map := l\<rparr>"
  have nodes: "nodes_of ?xs = nodes_of xs - {n}" by (rule nodes_of_remove [OF lo b])
  have own: "q \<in> nodes_of xs" "is_parent (N q)" "nd_parent (N n) = nd_id (N q)" "q \<noteq> n" "\<not> is_member (N q)"
    if "n \<in> set (cs q)" for q
    using tree_ok_child [OF tr that] nm [OF that] n(2) that by (cases "q = n"; simp)+
  have foreign: "ucast (nd_parent (N n)) \<noteq> effectiveId (N n)" if "n \<in> set (cs q)" for q
  proof
    assume "ucast (nd_parent (N n)) = effectiveId (N n)"
    then have "effectiveId (N q) = effectiveId (N n)" using own [OF that] by (simp add: effectiveId_plain)
    then show False using lists_inj [OF lo own(1) [OF that] n(1)] own(4) [OF that] by simp
  qed
  have fin: thesis if "unregisterNode N n r = Some r'" "lists_ok N r' ?xs"
    "il.family (rg_cnext r') (rg_children r') cs'" "\<And>q m. m \<in> set (cs' q) \<longleftrightarrow> m \<in> set (cs q) \<and> m \<noteq> n" for r' cs'
  proof (rule goal [OF that(1)])
    show "registry_ok N r' ?xs cs'"
      using that(2) tree_ok_remove [OF tr n(2) that(3,4)] by (simp add: registry_ok_def nodes)
  qed (use that(4) in blast)
  show thesis
  proof (cases "\<exists>q. n \<in> set (cs q)")
    case False
    then have nochild: "n \<notin> set (cs q)" for q by simp
    show thesis
    proof (cases "ucast (nd_parent (N n)) = effectiveId (N n)")
      case True
      show thesis
        by (rule fin [of ?r1 cs])
          (use r1 lo1 fam nochild True in \<open>auto simp: unregisterNode_def registerOrUnregisterNode_def Let_def b\<close>)
    next
      case neq: False
      obtain f where f: "findParentById N ?r1 (ucast (nd_parent (N n))) = Some f"
        by (rule findParentById_total [OF lo1])
      show thesis
      proof (cases f)
        case None
        show thesis
          by (rule fin [of ?r1 cs])
            (use r1 lo1 fam nochild f None neq in \<open>auto simp: unregisterNode_def registerOrUnregisterNode_def Let_def b\<close>)
      next
        case (Some q)
        have fam1: "il.family (rg_cnext ?r1) (rg_children ?r1) cs" using fam by simp
        obtain r2 where r2: "removeChild q n ?r1 = Some r2" "rg_next r2 = rg_next ?r1" "rg_map r2 = rg_map ?r1"
          and fam2: "il.family (rg_cnext r2) (rg_children r2) (cs(q := remove1 n (cs q)))"
          by (rule removeChild_ok [OF fam1])
        have "cs(q := remove1 n (cs q)) = cs" using nochild [of q] by (simp add: remove1_idem)
        then show thesis
          by (intro fin [of r2 cs])
            (use r1 lo1 fam2 r2 nochild f Some neq in
              \<open>auto simp: unregisterNode_def registerOrUnregisterNode_def Let_def b lists_ok_tree [of r2 ?r1]\<close>)
      qed
    qed
  next
    case True
    then obtain q where q: "n \<in> set (cs q)" by blast
    obtain f where f: "findParentById N ?r1 (ucast (nd_parent (N n))) = Some f"
      and fq: "\<forall>p. f = Some p \<longleftrightarrow> p \<in> nodes_of ?xs \<and> \<not> is_member (N p) \<and>
        ucast (nd_id (N p)) = (ucast (nd_parent (N n)) :: u32) \<and> is_parent (N p)"
      by (rule findParentById_total [OF lo1])
    have fS: "f = Some q" using own [OF q] nodes by (simp add: fq)
    have fam1: "il.family (rg_cnext ?r1) (rg_children ?r1) cs" using fam by simp
    obtain r2 where r2: "removeChild q n ?r1 = Some r2" "rg_next r2 = rg_next ?r1" "rg_map r2 = rg_map ?r1"
      and fam2: "il.family (rg_cnext r2) (rg_children r2) (cs(q := remove1 n (cs q)))"
      by (rule removeChild_ok [OF fam1])
    have d: "distinct (cs q)" using family_rep [OF fam, of q] by (simp add: il_rep_def)
    have only: "n \<in> set (cs p) \<Longrightarrow> p = q" for p using fam q by (auto simp: il.family_def)
    show thesis
      by (rule fin [OF _ _ fam2])
        (use r1 lo1 r2 f fS foreign [OF q] d only in
          \<open>auto simp: unregisterNode_def registerOrUnregisterNode_def Let_def b lists_ok_tree [of r2 ?r1] split: if_splits\<close>)
  qed
qed

subsection \<open>Lookup\<close>

lemma findByIdAndParent_total:
  assumes ok: "lists_ok N r xs"
  obtains f where "findByIdAndParent N r i p = Some f"
    "\<forall>n. f = Some n \<longleftrightarrow>
       n \<in> nodes_of xs \<and> is_member (N n) \<and> nd_id (N n) = i \<and> nd_parent (N n) = p \<and>
       (\<exists>q \<in> nodes_of xs. nd_id (N q) = p \<and> tryCastTo (nd_kind (N q)) nt_record)"
proof -
  obtain g where g: "findParentById N r (ucast p) = Some g"
    and gq: "\<forall>q. g = Some q \<longleftrightarrow> q \<in> nodes_of xs \<and> \<not> is_member (N q) \<and>
      ucast (nd_id (N q)) = (ucast p :: u32) \<and> is_parent (N q)"
    by (rule findParentById_total [OF ok])
  have rec: "tryCastTo k nt_record \<Longrightarrow> \<not> tryCastTo k nt_recordMember \<and> tryCastTo k nt_hasChildren" for k
    by (cases k) auto
  show thesis
  proof (cases "\<exists>q. g = Some q \<and> tryCastTo (nd_kind (N q)) nt_record")
    case False
    have "\<not> (\<exists>q \<in> nodes_of xs. nd_id (N q) = p \<and> tryCastTo (nd_kind (N q)) nt_record)"
      using False gq rec by (metis ucast_u16_u32_inj)
    moreover have "findByIdAndParent N r i p = Some None"
      using False by (cases g) (auto simp: findByIdAndParent_def g)
    ultimately show thesis by (intro that [of None]) auto
  next
    case True
    then obtain q where q: "g = Some q" "tryCastTo (nd_kind (N q)) nt_record" by blast
    then have ex: "\<exists>q \<in> nodes_of xs. nd_id (N q) = p \<and> tryCastTo (nd_kind (N q)) nt_record"
      using spec [OF gq, of q] by auto
    let ?P = "\<lambda>n. nd_id (N n) = i \<and> nd_parent (N n) = p" and ?b = "bucket (calculateId i p)"
    have mem: "is_member (N n)" if "n \<in> set (xs ?b)" "?P n" for n
    proof (rule ccontr)
      assume "\<not> is_member (N n)"
      then have "effectiveId (N n) = ucast i" using that(2) by (simp add: effectiveId_plain)
      moreover have "bucket (effectiveId (N n)) = ?b" using ok that(1) by (simp add: lists_ok_def)
      ultimately have "bucket (ucast i) = ?b" by simp
      with calculateId_bucket [of i p] show False by simp
    qed
    have "find ?P (xs ?b) = Some n \<longleftrightarrow> n \<in> set (xs ?b) \<and> ?P n" for n
    proof (rule find_Some_iff_unique)
      fix x y assume xy: "x \<in> set (xs ?b)" "y \<in> set (xs ?b)" "?P x" "?P y"
      then have "effectiveId (N x) = effectiveId (N y)" using mem by (simp add: effectiveId_def)
      then show "x = y" using xy(1,2) by (intro lists_inj [OF ok]) (auto simp: nodes_of_def)
    qed
    moreover have "n \<in> set (xs ?b) \<and> ?P n \<longleftrightarrow> n \<in> nodes_of xs \<and> is_member (N n) \<and> ?P n" for n
    proof
      assume "n \<in> set (xs ?b) \<and> ?P n"
      then show "n \<in> nodes_of xs \<and> is_member (N n) \<and> ?P n" using mem [of n] by (auto simp: nodes_of_def)
    next
      assume "n \<in> nodes_of xs \<and> is_member (N n) \<and> ?P n"
      then show "n \<in> set (xs ?b) \<and> ?P n" using nodes_bucket [OF ok, of n] by (simp add: effectiveId_def)
    qed
    moreover have "findByIdAndParent N r i p = Some (find ?P (xs ?b))"
      using q g by (simp add: findByIdAndParent_def bucket_find [OF ok])
    ultimately show thesis using ex by (intro that [of "find ?P (xs ?b)"]) auto
  qed
qed

text \<open>Paths: the names of a chain of children, joined by slashes.\<close>

fun join_path :: "string list \<Rightarrow> string" where
  "join_path [] = []"
| "join_path [s] = s"
| "join_path (s # t # ss) = s @ CHR ''/'' # join_path (t # ss)"

definition is_record :: "node \<Rightarrow> bool" where
  "is_record n \<longleftrightarrow> (case nd_kind n of nk_record k \<Rightarrow> True | _ \<Rightarrow> False)"

text \<open>
  A chain of children that lookup can follow: names without a slash, distinct among siblings, inner
  nodes are parents other than record properties, and the last name differs from its parent's own name.
\<close>

fun tree_path :: "node_map \<Rightarrow> (nref \<Rightarrow> nref list) \<Rightarrow> nref \<Rightarrow> nref list \<Rightarrow> bool" where
  "tree_path N cs p [] \<longleftrightarrow> True"
| "tree_path N cs p (c # ns) \<longleftrightarrow>
     c \<in> set (cs p) \<and> \<not> is_record (N p) \<and> CHR ''/'' \<notin> set (nd_name (N c)) \<and>
     (\<forall>d \<in> set (cs p). nd_name (N d) = nd_name (N c) \<longrightarrow> d = c) \<and>
     (if ns = [] then nd_name (N p) \<noteq> nd_name (N c) else is_parent (N c)) \<and> tree_path N cs c ns"

lemma record_index_id: "\<not> is_record n \<Longrightarrow> record_index (nd_kind n) s = (\<lambda>x. x)"
  by (auto simp: is_record_def record_index_def fun_eq_iff split: node_kind.splits)

lemma token_join: "CHR ''/'' \<notin> set s \<Longrightarrow> token (s @ CHR ''/'' # t) = s"
  by (simp add: token_def takeWhile_append)

lemma token_single: "CHR ''/'' \<notin> set s \<Longrightarrow> token s = s"
  by (simp add: token_def takeWhile_eq_all_conv) auto

lemma child_loop:
  assumes "tree_ok N r R cs" "\<not> is_record (N p)" "c \<in> set (cs p)"
    "\<forall>d \<in> set (cs p). nd_name (N d) = nd_name (N c) \<longrightarrow> d = c"
  shows "find_loop (rg_cnext r) (\<lambda>d. nd_name (N d) = nd_name (N c)) (child_begin N r p) = Some (Some c)"
proof -
  have "il.family (rg_cnext r) (rg_children r) cs" using assms(1) by (simp add: tree_ok_def)
  moreover have "child_begin N r p = il_head (rg_children r p)"
    using assms(2) by (auto simp: child_begin_def is_record_def split: node_kind.splits)
  moreover have "find (\<lambda>d. nd_name (N d) = nd_name (N c)) (cs p) = Some c"
    using assms(3,4) by (intro iffD2 [OF find_Some_iff_unique]) auto
  ultimately show ?thesis by (simp add: child_find)
qed

lemma findByName_path:
  assumes "tree_ok N r R cs"
  shows "tree_path N cs p ns \<Longrightarrow> ns \<noteq> [] \<Longrightarrow>
    findByName N r p (join_path (map (\<lambda>n. nd_name (N n)) ns)) = Some (True, last ns, None)"
proof (induction ns arbitrary: p)
  case (Cons c ns)
  have loop: "find_loop (rg_cnext r) (\<lambda>d. nd_name (N d) = nd_name (N c)) (child_begin N r p) = Some (Some c)"
    using Cons.prems by (intro child_loop [OF assms]) auto
  have ri: "record_index (nd_kind (N p)) s = (\<lambda>x. x)" for s using Cons.prems by (simp add: record_index_id)
  have sl: "CHR ''/'' \<notin> set (nd_name (N c))" using Cons.prems by simp
  show ?case
  proof (cases ns)
    case Nil
    then show ?thesis using Cons.prems loop ri sl
      by (subst findByName.simps) (auto simp: token_single option.map_id0 [unfolded id_def])
  next
    case (Cons d ds)
    let ?rest = "join_path (map (\<lambda>n. nd_name (N n)) ns)"
    have name: "join_path (map (\<lambda>n. nd_name (N n)) (c # ns)) = nd_name (N c) @ CHR ''/'' # ?rest"
      by (simp add: Cons)
    have "findByName N r c ?rest = Some (True, last ns, None)"
      using Cons.IH Cons.prems Cons by auto
    then show ?thesis unfolding name using Cons.prems loop ri sl Cons
      by (subst findByName.simps) (auto simp: token_join option.map_id0 [unfolded id_def])
  qed
qed simp

lemma findByName_record:
  assumes "nd_kind (N q) = nk_record k" "name \<noteq> []" "is_digit (hd name)" "CHR ''/'' \<notin> set name"
  shows "findByName N r q name = Some (atoi name < k, q, Some (atoi name))"
proof -
  have "child_begin N r q = None" using assms(1) by (simp add: child_begin_def)
  then show ?thesis using assms
    by (subst findByName.simps) (auto simp: find_loop.simps record_index_def)
qed

subsection \<open>Properties\<close>

text \<open>The registry the program starts with, and a group added to it, used by the witnesses below.\<close>

definition init_nodes :: "node_map \<Rightarrow> node_map" where
  "init_nodes N = N(0 := root_node, 1 := metadata_node)"

lemma init_node_set: "nodes_of (\<lambda>i. if i = 0 then [0] else if i = 1 then [1] else []) = {0, 1}"
  by (auto simp: nodes_of_def split: if_splits)

lemma registry_init_ok:
  "registry_ok (init_nodes N) registry_init (\<lambda>i. if i = 0 then [0] else if i = 1 then [1] else []) (\<lambda>_. [])"
proof -
  let ?N = "init_nodes N" and ?xs = "\<lambda>i::nat. if i = 0 then [0] else if i = 1 then [1] else ([] :: nref list)"
  have ids: "effectiveId (?N 0) = 0" "effectiveId (?N 1) = 25"
    by (simp_all add: init_nodes_def effectiveId_def root_node_def metadata_node_def)
  have nodes: "nodes_of ?xs = {0, 1}" by (auto simp: nodes_of_def split: if_splits)
  have r: "registry_init = \<lparr>rg_next = \<lambda>_. None,
      rg_map = (\<lambda>_. il_empty)(0 := \<lparr>il_head = Some 0, il_tail = Some 0\<rparr>, 1 := \<lparr>il_head = Some 1, il_tail = Some 1\<rparr>),
      rg_cnext = \<lambda>_. None, rg_children = \<lambda>_. il_empty\<rparr>"
    by (simp add: registry_init_def push_back_def il_empty_def root_node_def metadata_node_def
        NODE_MAP_LOOKUP_BUCKETS_def Let_def)
  have "lists_ok ?N registry_init ?xs"
    unfolding lists_ok_def nodes r
    by (auto simp: il.family_def il_rep_def il_empty_def bucket_def NODE_MAP_LOOKUP_BUCKETS_def ids
        ids(2) [unfolded One_nat_def] inj_on_def split: if_splits)
  moreover have "tree_ok ?N registry_init {0, 1} (\<lambda>_. [])"
    unfolding tree_ok_def r
    by (auto simp: il.family_def il_rep_def il_empty_def init_nodes_def root_node_def metadata_node_def effectiveId_def)
  ultimately show ?thesis by (simp add: registry_ok_def nodes)
qed

definition group_node :: "u16 \<Rightarrow> u16 \<Rightarrow> string \<Rightarrow> node" where
  "group_node i p s = \<lparr>nd_id = i, nd_parent = p, nd_name = s, nd_kind = nk_group, nd_subsets = 0, nd_access = anyRead\<rparr>"

lemma init_fresh:
  assumes "N 2 = group_node i p s" "i \<noteq> 0" "i \<noteq> 25"
  shows "fresh_node (init_nodes N) 2 {0, 1}"
proof -
  have "(ucast i :: u32) \<noteq> 0" "(ucast i :: u32) \<noteq> 25"
    using assms(2,3) ucast_u16_u32_inj [of i 0] ucast_u16_u32_inj [of i 25] by simp_all
  then show ?thesis using assms
    by (auto simp: fresh_node_def init_nodes_def group_node_def root_node_def metadata_node_def effectiveId_def)
qed

text \<open>
  C15. Registering a new node in a well-formed registry returns, keeps the registry well formed, adds
  exactly that node, and loses no child: buckets, uniqueness of effective ids and the
  parent/child relation (children registered before their parent included) all hold afterwards.
\<close>
theorem register_correct:
  assumes "registry_ok N r xs cs" "fresh_node N n (nodes_of xs)"
  shows "\<exists>r' xs' cs'. registerNode ndebug N n r = Some r' \<and> registry_ok N r' xs' cs' \<and>
    nodes_of xs' = insert n (nodes_of xs) \<and> (\<forall>q. set (cs q) \<subseteq> set (cs' q))"
proof -
  obtain r' cs' where "registerNode ndebug N n r = Some r'"
    "registry_ok N r' (xs(bucket (effectiveId (N n)) := xs (bucket (effectiveId (N n))) @ [n])) cs'"
    "\<forall>q. set (cs q) \<subseteq> set (cs' q)"
    by (rule registerNode_ok [OF assms refl])
  then show ?thesis using nodes_of_upd by metis
qed

theorem register_correct_witness:
  "\<exists>r' xs' cs'. registerNode False (init_nodes (\<lambda>_. group_node 7 0 ''A'')) 2 registry_init = Some r' \<and>
    registry_ok (init_nodes (\<lambda>_. group_node 7 0 ''A'')) r' xs' cs' \<and> 2 \<in> nodes_of xs'"
proof -
  have "fresh_node (init_nodes (\<lambda>_. group_node 7 0 ''A'')) 2 {0, 1}" by (rule init_fresh [where i = 7 and p = 0 and s = "''A''"]) simp_all
  from register_correct [OF registry_init_ok, where n = 2, unfolded init_node_set, OF this, where ndebug = False]
  show ?thesis by auto
qed

text \<open>
  Registering a node whose effective id is taken fails the assertion; with assertions compiled
  out the call returns and the buckets are unchanged, so the node cannot be looked up.
\<close>
theorem register_duplicate:
  assumes "registry_ok N r xs cs" "m \<in> nodes_of xs" "effectiveId (N m) = effectiveId (N n)"
  shows "registerNode False N n r = None \<and>
    (\<not> is_parent (N n) \<longrightarrow> (\<exists>r'. registerNode True N n r = Some r' \<and> rg_next r' = rg_next r \<and> rg_map r' = rg_map r))"
proof -
  have lo: "lists_ok N r xs" using assms(1) by (simp add: registry_ok_def)
  let ?b = "bucket (effectiveId (N n))" and ?P = "\<lambda>en. effectiveId (N en) = effectiveId (N n)"
  have "m \<in> set (xs ?b)" using nodes_bucket [OF lo assms(2)] assms(3) by simp
  then obtain k where k: "find ?P (xs ?b) = Some k" using assms(3) by (cases "find ?P (xs ?b)") (auto simp: find_None_iff)
  have reg: "register_in_list d N n ?b r = (if d then Some r else None)" for d
    by (simp add: register_in_list_def bucket_find [OF lo] k)
  obtain f where "findParentById N r (ucast (nd_parent (N n))) = Some f"
    by (rule findParentById_total [OF lo])
  then show ?thesis
    by (cases f) (auto simp: registerNode_def registerOrUnregisterNode_def Let_def reg)
qed

theorem register_duplicate_witness:
  "registerNode False (init_nodes (\<lambda>_. group_node 25 0 ''A'')) 2 registry_init = None"
proof -
  have "effectiveId (init_nodes (\<lambda>_. group_node 25 0 ''A'') 1) = effectiveId (init_nodes (\<lambda>_. group_node 25 0 ''A'') 2)"
    by (simp add: init_nodes_def group_node_def metadata_node_def effectiveId_def)
  from register_duplicate [OF registry_init_ok _ this, unfolded init_node_set] show ?thesis by simp
qed

text \<open>
  C21. Unregistering a registered node that has no children (and whose parent is not a member array)
  removes exactly that node from its bucket and from its parent, and keeps the registry well formed.
\<close>
theorem unregister_correct:
  assumes "registry_ok N r xs cs" "n \<in> nodes_of xs" "cs n = []"
    and "\<forall>q. n \<in> set (cs q) \<longrightarrow> \<not> is_member (N q)"
  shows "\<exists>r' xs' cs'. unregisterNode N n r = Some r' \<and> registry_ok N r' xs' cs' \<and>
    nodes_of xs' = nodes_of xs - {n} \<and> (\<forall>q m. m \<in> set (cs' q) \<longleftrightarrow> m \<in> set (cs q) \<and> m \<noteq> n)"
proof -
  have lo: "lists_ok N r xs" using assms(1) by (simp add: registry_ok_def)
  have nm: "\<And>q. n \<in> set (cs q) \<Longrightarrow> \<not> is_member (N q)" using assms(4) by blast
  obtain r' cs' where "unregisterNode N n r = Some r'"
    "registry_ok N r' (xs(bucket (effectiveId (N n)) := remove1 n (xs (bucket (effectiveId (N n)))))) cs'"
    "\<forall>q m. m \<in> set (cs' q) \<longleftrightarrow> m \<in> set (cs q) \<and> m \<noteq> n"
    by (rule unregisterNode_ok [OF assms(1-3) nm refl])
  then show ?thesis using nodes_of_remove [OF lo refl, of n] by blast
qed

theorem unregister_correct_witness:
  "\<exists>r' xs' cs'. unregisterNode (init_nodes (\<lambda>_. root_node)) 1 registry_init = Some r' \<and>
     registry_ok (init_nodes (\<lambda>_. root_node)) r' xs' cs' \<and> nodes_of xs' = {0}"
proof -
  have d: "{0, 1} - {1} = {0 :: nref}" by auto
  show ?thesis using unregister_correct [OF registry_init_ok, of 1 "\<lambda>_. root_node", unfolded init_node_set] unfolding d by auto
qed

text \<open>
  C16. Looking a node up by its raw id returns, and finds exactly the registered node with that id that
  is not a record member; a record member is never found by raw id, because its bucket always
  differs from the bucket of its raw id. Looking up by id and parent finds exactly the record member
  registered under that record.
\<close>
theorem find_by_id_exact:
  assumes "registry_ok N r xs cs"
  shows "(\<exists>f. findById N r i = Some f \<and>
      (\<forall>n. f = Some n \<longleftrightarrow> n \<in> nodes_of xs \<and> \<not> is_member (N n) \<and> ucast (nd_id (N n)) = i)) \<and>
    (\<exists>f. findByIdAndParent N r j p = Some f \<and>
      (\<forall>n. f = Some n \<longleftrightarrow>
         n \<in> nodes_of xs \<and> is_member (N n) \<and> nd_id (N n) = j \<and> nd_parent (N n) = p \<and>
         (\<exists>q \<in> nodes_of xs. nd_id (N q) = p \<and> tryCastTo (nd_kind (N q)) nt_record)))"
proof -
  have lo: "lists_ok N r xs" using assms by (simp add: registry_ok_def)
  obtain f where f: "findById N r i = Some f" using findById_find [OF lo] by blast
  obtain g where "findByIdAndParent N r j p = Some g"
    "\<forall>n. g = Some n \<longleftrightarrow>
       n \<in> nodes_of xs \<and> is_member (N n) \<and> nd_id (N n) = j \<and> nd_parent (N n) = p \<and>
       (\<exists>q \<in> nodes_of xs. nd_id (N q) = p \<and> tryCastTo (nd_kind (N q)) nt_record)"
    by (rule findByIdAndParent_total [OF lo])
  then show ?thesis using f findById_iff [OF lo f] by blast
qed

theorem find_by_id_exact_witness:
  "findById (init_nodes (\<lambda>_. root_node)) registry_init 25 = Some (Some 1)"
proof -
  obtain f where f: "findById (init_nodes (\<lambda>_. root_node)) registry_init 25 = Some f"
    "\<forall>n. f = Some n \<longleftrightarrow> n \<in> {0, 1} \<and> \<not> is_member (init_nodes (\<lambda>_. root_node) n) \<and> ucast (nd_id (init_nodes (\<lambda>_. root_node) n)) = (25 :: u32)"
    using find_by_id_exact [OF registry_init_ok, of "\<lambda>_. root_node" 25 0 0, unfolded init_node_set] by blast
  have "f = Some 1" using spec [OF f(2), of 1] by (simp add: init_nodes_def metadata_node_def)
  with f(1) show ?thesis by simp
qed

text \<open>
  Which nodes the registry takes for duplicates: two record members collide exactly when their ids
  are equal and their parent ids are equal modulo 255, so members of different records can
  collide; a record member collides with an ordinary node exactly when its parent id is a multiple
  of 255 and the node's id is the member's plus one.
\<close>
theorem effective_id_collisions:
  "(calculateId i p = calculateId j q \<longleftrightarrow> i = j \<and> unat p mod 255 = unat q mod 255) \<and>
   (calculateId i p = ucast j \<longleftrightarrow> unat p mod 255 = 0 \<and> unat j = unat i + 1)"
proof -
  have "calculateId i p = ucast j \<longleftrightarrow> unat (calculateId i p) = unat (ucast j :: u32)" by (simp only: unat_inj)
  also have "\<dots> \<longleftrightarrow> (unat p mod 255) * 65536 + unat i + 1 = unat j" by (simp only: unat_calculateId unat_u16_u32)
  also have "\<dots> \<longleftrightarrow> unat p mod 255 = 0 \<and> unat j = unat i + 1"
    using unsigned_less [of j, where ?'a = nat] by (cases "unat p mod 255") auto
  finally show ?thesis by (simp only: calculateId_inj simp_thms)
qed



text \<open>
  A node answers to its own name before its children are searched: when a group has a child of
  the same name, the name of the child found in the group is the group itself.
\<close>
theorem find_by_name_shadowed:
  assumes "nd_name (N g) = nd_name (N c)" "\<not> is_record (N g)" "CHR ''/'' \<notin> set (nd_name (N c))"
  shows "findByName N r g (nd_name (N c)) = Some (True, g, None)"
  using assms by (subst findByName.simps) (simp add: token_single record_index_id option.map_id0 [unfolded id_def])

theorem find_by_name_shadowed_witness:
  "findByName (\<lambda>n. group_node (of_nat n) 0 ''A'') registry_init 5 ''A'' = Some (True, 5, None)"
  using find_by_name_shadowed [of "\<lambda>n. group_node (of_nat n) 0 ''A''" 5 6 registry_init]
  by (simp add: group_node_def is_record_def)

text \<open>
  Enumerating a subset visits every registered node whose subsets include it, each once.
\<close>
theorem nodes_in_subset:
  assumes "registry_ok N r xs cs"
  shows "\<exists>ms. nodesInSubset N u r = Some ms \<and> distinct ms \<and>
    set ms = {n \<in> nodes_of xs. nd_subsets (N n) AND u = u}"
proof -
  have lo: "lists_ok N r xs" using assms by (simp add: registry_ok_def)
  obtain ms where "all_nodes r = Some ms" "set ms = nodes_of xs" "distinct ms" by (rule all_nodes_ok [OF lo])
  then show ?thesis by (auto simp: nodesInSubset_def)
qed

theorem nodes_in_subset_witness:
  "\<exists>ms. nodesInSubset (init_nodes (\<lambda>_. root_node)) 0 registry_init = Some ms \<and> set ms = {0, 1}"
  using nodes_in_subset [OF registry_init_ok, of "\<lambda>_. root_node" 0, unfolded init_node_set] by auto

end
