(* ===== verification/BinaryEncoder.thy ===== *)
theory BinaryEncoder imports Encoder begin

text \<open>
  The binary encoder: include/thingset++/ThingSetBinaryEncoder.hpp and src/ThingSetBinaryEncoder.cpp.
  The CBOR library zcbor is a git submodule, so it is a parameter: a record of the functions the code
  calls, each taking the buffer and the encode state and returning a bool with both updated. The
  model keeps which function the code calls with which value, the checks before it, and what the
  encoder does with the result. \<open>zcbor_appends\<close> states the documented behaviour the results rest on.
\<close>

subsection \<open>The calls into zcbor\<close>

datatype zcall =
    Ztstr "u8 list"        \<comment> \<open>zcbor_tstr_put_term\<close>
  | Zbstr "u8 list"        \<comment> \<open>zcbor_bstr_encode\<close>
  | Zf32 u32               \<comment> \<open>zcbor_float32_encode\<close>
  | Zf64 u64               \<comment> \<open>zcbor_float64_encode\<close>
  | Zbool bool             \<comment> \<open>zcbor_bool_put\<close>
  | Zu32 u32               \<comment> \<open>zcbor_uint32_put, zcbor_uint32_encode\<close>
  | Zu64 u64               \<comment> \<open>zcbor_uint64_encode\<close>
  | Zi32 u32               \<comment> \<open>zcbor_int32_put, zcbor_int32_encode\<close>
  | Zi64 u64               \<comment> \<open>zcbor_int64_encode\<close>
  | Znil                   \<comment> \<open>zcbor_nil_put\<close>
  | Zlist_start nat        \<comment> \<open>zcbor_list_start_encode\<close>
  | Zlist_end nat          \<comment> \<open>zcbor_list_end_encode\<close>
  | Zmap_start nat         \<comment> \<open>zcbor_map_start_encode\<close>
  | Zmap_end nat           \<comment> \<open>zcbor_map_end_encode\<close>
  | Zbackup_end            \<comment> \<open>zcbor_process_backup, keeping the payload\<close>

text \<open>
  A state of type \<open>'z\<close> points into a buffer by indices: \<open>z_payload\<close> is where the next byte goes.
  \<open>z_new p n k\<close> is zcbor_new_encode_state for n bytes from index p and
  k elements, \<open>z_update p n\<close> is zcbor_update_state.
\<close>

record 'z zcbor =
  z_call :: "zcall \<Rightarrow> u8 list \<times> 'z \<Rightarrow> bool \<times> u8 list \<times> 'z"
  z_payload :: "'z \<Rightarrow> nat"
  z_new :: "nat \<Rightarrow> nat \<Rightarrow> nat \<Rightarrow> 'z"
  z_update :: "nat \<Rightarrow> nat \<Rightarrow> 'z \<Rightarrow> 'z"

text \<open>
  What zcbor documents of its encoding functions: a call that returns true has written the encoding
  of its argument at the payload pointer and advanced the pointer behind it; a new or updated state
  starts at the given byte. \<open>enc\<close> is the encoding a call stands for. Nothing is assumed of the two
  calls that end a list or map and rewrite its header, of a call that fails, and of a write behind the
  end of the array.
\<close>

fun forward_call :: "zcall \<Rightarrow> bool" where
  "forward_call (Zlist_end n) = False"
| "forward_call (Zmap_end n) = False"
| "forward_call c = True"

definition zcbor_appends :: "'z zcbor \<Rightarrow> (zcall \<Rightarrow> u8 list) \<Rightarrow> bool" where
  "zcbor_appends Z enc \<longleftrightarrow>
     (\<forall>c buf z buf' z'. forward_call c \<longrightarrow> z_call Z c (buf, z) = (True, buf', z') \<longrightarrow>
        z_payload Z z' = z_payload Z z + length (enc c) \<and>
        (z_payload Z z' \<le> length buf \<longrightarrow> buf' = overwrite buf (z_payload Z z) (enc c))) \<and>
     (\<forall>p n k. z_payload Z (z_new Z p n k) = p) \<and>
     (\<forall>p n z. z_payload Z (z_update Z p n z) = p)"

lemma zcbor_appendsD:
  assumes "zcbor_appends Z enc"
  shows "forward_call c \<Longrightarrow> z_call Z c (buf, z) = (True, buf', z') \<Longrightarrow>
      z_payload Z z' = z_payload Z z + length (enc c)"
    "forward_call c \<Longrightarrow> z_call Z c (buf, z) = (True, buf', z') \<Longrightarrow>
      z_payload Z z + length (enc c) \<le> length buf \<Longrightarrow> buf' = overwrite buf (z_payload Z z) (enc c)"
    "z_payload Z (z_new Z p n k) = p" "z_payload Z (z_update Z p n z) = p"
  using assms unfolding zcbor_appends_def by (blast, metis, blast, blast)

subsection \<open>The encoder\<close>

text \<open>
  The class has three virtual functions: \<open>ensureState\<close>, the encode state (here the action \<open>call\<close> that
  applies a zcbor function to it), and \<open>getIsForwardOnly\<close>.
\<close>

definition BINARY_ENCODER_MAX_NULL_TERMINATED_STRING_LENGTH :: nat where
  "BINARY_ENCODER_MAX_NULL_TERMINATED_STRING_LENGTH = 256"

definition BINARY_ENCODER_DEFAULT_MAX_DEPTH :: nat where "BINARY_ENCODER_DEFAULT_MAX_DEPTH = 8"

definition UINT8_MAX :: nat where "UINT8_MAX = 255"

definition base_ensureState :: "'e action" where "base_ensureState e = (True, e)"

definition base_getIsForwardOnly :: bool where "base_getIsForwardOnly = False"

definition guarded :: "'e action \<Rightarrow> (zcall \<Rightarrow> 'e action) \<Rightarrow> zcall \<Rightarrow> 'e action" where
  "guarded ensure call c = seq [ensure, call c]"

lemma guardedE:
  assumes "guarded ensure call c e = (True, e')"
  obtains e1 where "ensure e = (True, e1)" "call c e1 = (True, e')"
  using assms by (auto simp: guarded_def split: prod.splits if_splits)

definition term_bytes :: "string \<Rightarrow> u8 list" where
  "term_bytes s = takeWhile (\<lambda>b. b \<noteq> 0) (map of_char s)"

definition encodeListMapEnd :: "(zcall \<Rightarrow> 'e action) \<Rightarrow> 'e action" where
  "encodeListMapEnd call = call Zbackup_end"

definition be_list_start :: "'e action \<Rightarrow> (zcall \<Rightarrow> 'e action) \<Rightarrow> nat \<Rightarrow> 'e action" where
  "be_list_start ensure call n = guarded ensure call (Zlist_start n)"

definition be_map_start :: "'e action \<Rightarrow> (zcall \<Rightarrow> 'e action) \<Rightarrow> nat \<Rightarrow> 'e action" where
  "be_map_start ensure call n = guarded ensure call (Zmap_start n)"

definition be_list_end :: "'e action \<Rightarrow> (zcall \<Rightarrow> 'e action) \<Rightarrow> bool \<Rightarrow> nat \<Rightarrow> 'e action" where
  "be_list_end ensure call fwd n =
    (if fwd then seq [ensure, encodeListMapEnd call] else guarded ensure call (Zlist_end n))"

definition be_map_end :: "'e action \<Rightarrow> (zcall \<Rightarrow> 'e action) \<Rightarrow> bool \<Rightarrow> nat \<Rightarrow> 'e action" where
  "be_map_end ensure call fwd n =
    (if fwd then seq [ensure, encodeListMapEnd call] else guarded ensure call (Zmap_end n))"

definition be_true :: "'e action" where "be_true e = (True, e)"

definition binary_ops ::
  "'e action \<Rightarrow> (zcall \<Rightarrow> 'e action) \<Rightarrow> bool \<Rightarrow> bool \<Rightarrow> ('e \<Rightarrow> nat) \<Rightarrow> 'e encoder_ops" where
  "binary_ops ensure call fwd ids len = \<lparr>
     o_cstr = \<lambda>s. guarded ensure call (Ztstr (term_bytes s)),
     o_f32 = \<lambda>v. guarded ensure call (Zf32 v),
     o_f64 = \<lambda>v. guarded ensure call (Zf64 v),
     o_bool = \<lambda>b. guarded ensure call (Zbool b),
     o_u8 = \<lambda>v. guarded ensure call (Zu32 (ucast v)),
     o_u16 = \<lambda>v. guarded ensure call (Zu32 (ucast v)),
     o_u32 = \<lambda>v. guarded ensure call (Zu32 v),
     o_u64 = \<lambda>v. guarded ensure call (Zu64 v),
     o_i8 = \<lambda>v. guarded ensure call (Zi32 (scast v)),
     o_i16 = \<lambda>v. guarded ensure call (Zi32 (scast v)),
     o_i32 = \<lambda>v. guarded ensure call (Zi32 v),
     o_i64 = \<lambda>v. guarded ensure call (Zi64 v),
     o_null = guarded ensure call Znil,
     o_preamble = guarded ensure call Znil,
     o_list_start = be_list_start ensure call UINT8_MAX,
     o_list_start_n = be_list_start ensure call,
     o_list_end = be_list_end ensure call fwd UINT8_MAX,
     o_list_end_n = be_list_end ensure call fwd,
     o_map_start = be_map_start ensure call UINT8_MAX,
     o_map_start_n = be_map_start ensure call,
     o_map_end = be_map_end ensure call fwd UINT8_MAX,
     o_map_end_n = be_map_end ensure call fwd,
     o_bytes = \<lambda>bs. guarded ensure call (Zbstr bs),
     o_list_sep = be_true,
     o_kv_sep = be_true,
     o_keys_as_ids = \<lambda>e. ids,
     o_outline = default_outline,
     o_rendered = default_rendered,
     o_trunc = default_trunc,
     o_length = len\<rparr>"

subsection \<open>The encoder over a fixed buffer\<close>

record 'z fixed_encoder =
  fe_buf :: "u8 list"
  fe_start :: nat          \<comment> \<open>_buffer, as an index\<close>
  fe_z :: 'z
  fe_opts :: u32

definition opt_encodeKeysAsIds :: u32 where "opt_encodeKeysAsIds = push_bit 0 1"

definition fe_make :: "'z zcbor \<Rightarrow> u8 list \<Rightarrow> nat \<Rightarrow> nat \<Rightarrow> nat \<Rightarrow> u32 \<Rightarrow> 'z fixed_encoder" where
  "fe_make Z buf start sz elems opts =
    \<lparr>fe_buf = buf, fe_start = start, fe_z = z_new Z start sz elems, fe_opts = opts\<rparr>"

definition fe_call :: "'z zcbor \<Rightarrow> zcall \<Rightarrow> 'z fixed_encoder action" where
  "fe_call Z c e = (let (r, b, z) = z_call Z c (fe_buf e, fe_z e) in (r, e\<lparr>fe_buf := b, fe_z := z\<rparr>))"

definition fe_length :: "'z zcbor \<Rightarrow> 'z fixed_encoder \<Rightarrow> nat" where
  "fe_length Z e = z_payload Z (fe_z e) - fe_start e"

definition fe_keysAsIds :: "'z fixed_encoder \<Rightarrow> bool" where
  "fe_keysAsIds e \<longleftrightarrow> fe_opts e AND opt_encodeKeysAsIds \<noteq> 0"

definition fixed_ops :: "'z zcbor \<Rightarrow> 'z fixed_encoder encoder_ops" where
  "fixed_ops Z = (binary_ops base_ensureState (fe_call Z) base_getIsForwardOnly True (fe_length Z))
     \<lparr>o_keys_as_ids := fe_keysAsIds\<rparr>"


subsection \<open>Which calls a value makes\<close>

text \<open>The specification: the calls that stand for a value, in order.\<close>

fun prim_call :: "prim \<Rightarrow> zcall" where
  "prim_call (PBool b) = Zbool b"
| "prim_call (PU8 v) = Zu32 (ucast v)"
| "prim_call (PU16 v) = Zu32 (ucast v)"
| "prim_call (PU32 v) = Zu32 v"
| "prim_call (PU64 v) = Zu64 v"
| "prim_call (PI8 v) = Zi32 (scast v)"
| "prim_call (PI16 v) = Zi32 (scast v)"
| "prim_call (PI32 v) = Zi32 v"
| "prim_call (PI64 v) = Zi64 v"
| "prim_call (PF32 v) = Zf32 v"
| "prim_call (PF64 v) = Zf64 v"
| "prim_call (PStr s) = Ztstr (term_bytes s)"

definition list_calls :: "bool \<Rightarrow> nat \<Rightarrow> zcall list \<Rightarrow> zcall list" where
  "list_calls fwd n cs = Zlist_start n # cs @ [if fwd then Zbackup_end else Zlist_end n]"

definition map_calls :: "bool \<Rightarrow> nat \<Rightarrow> zcall list \<Rightarrow> zcall list" where
  "map_calls fwd n cs = Zmap_start n # cs @ [if fwd then Zbackup_end else Zmap_end n]"

definition key_call :: "bool \<Rightarrow> u16 \<Rightarrow> string \<Rightarrow> zcall" where
  "key_call ids i n = (if ids then Zu32 (ucast i) else Ztstr (term_bytes n))"

fun calls_of :: "bool \<Rightarrow> bool \<Rightarrow> tsval \<Rightarrow> zcall list" where
  "calls_of fwd ids (Prim p) = [prim_call p]"
| "calls_of fwd ids (VArr xs) = list_calls fwd (length xs) (concat (map (calls_of fwd ids) xs))"
| "calls_of fwd ids (VList xs) = list_calls fwd (length xs) (concat (map (calls_of fwd ids) xs))"
| "calls_of fwd ids (VMap kvs) = map_calls fwd (length kvs)
     (concat (map (\<lambda>(k, v). calls_of fwd ids k @ calls_of fwd ids v) kvs))"
| "calls_of fwd ids (VRec fs) = map_calls fwd (length fs)
     (concat (map (\<lambda>(i, n, v). key_call ids i n # calls_of fwd ids v) fs))"

text \<open>Running calls in order, stopping at the first that fails.\<close>

definition runs :: "(zcall \<Rightarrow> 'e action) \<Rightarrow> zcall list \<Rightarrow> 'e action" where
  "runs g cs e = seq (map g cs) e"

lemma runs_Nil [simp]: "runs g [] e = (True, e)"
  by (simp add: runs_def)

lemma runs_Cons: "runs g (c # cs) e = (let (r, e') = g c e in if r then runs g cs e' else (False, e'))"
  by (simp add: runs_def seq_Cons split: prod.split)

lemma runs_single [simp]: "runs g [c] e = g c e"
  by (simp add: runs_def)

lemma runs_append: "runs g (cs @ ds) e = (let (r, e') = runs g cs e in if r then runs g ds e' else (False, e'))"
  by (simp add: runs_def seq_append split: prod.split)

text \<open>\<open>does g f cs\<close>: where the calls all succeed, the action f does exactly them.\<close>

definition does :: "(zcall \<Rightarrow> 'e action) \<Rightarrow> 'e action \<Rightarrow> zcall list \<Rightarrow> bool" where
  "does g f cs \<longleftrightarrow> (\<forall>e e'. runs g cs e = (True, e') \<longrightarrow> f e = (True, e'))"

lemma doesD: "does g f cs \<Longrightarrow> runs g cs e = (True, e') \<Longrightarrow> f e = (True, e')"
  by (simp add: does_def)

lemma runs_appendE:
  assumes "runs g (cs @ ds) e = (True, e')"
  obtains e1 where "runs g cs e = (True, e1)" "runs g ds e1 = (True, e')"
  using assms by (auto simp: runs_append split: prod.splits if_splits)

lemma runs_ConsE:
  assumes "runs g (c # cs) e = (True, e')"
  obtains e1 where "g c e = (True, e1)" "runs g cs e1 = (True, e')"
  using assms by (auto simp: runs_Cons split: prod.splits if_splits)

lemma does_call [intro]: "does g (g c) [c]"
  by (simp add: does_def)

lemma does_true: "does g (\<lambda>e. (True, e)) []"
  by (simp add: does_def)

lemma does_seq_Cons: "does g f cs \<Longrightarrow> does g (seq fs) ds \<Longrightarrow> does g (seq (f # fs)) (cs @ ds)"
  unfolding does_def by (force simp: seq_Cons elim!: runs_appendE)

lemma does_seq_Nil: "does g (seq []) []"
  by (simp add: does_def)

lemma does_seq_call: "does g (seq fs) ds \<Longrightarrow> does g (seq (g c # fs)) (c # ds)"
  using does_seq_Cons [OF does_call] by force

subsection \<open>The template functions over the binary encoder\<close>

text \<open>The operations of the binary encoder, each as the guarded call it makes.\<close>

lemma binary_ops_simps [simp]:
  "o_list_sep (binary_ops E C fwd ids len) = be_true"
  "o_kv_sep (binary_ops E C fwd ids len) = be_true"
  "o_list_start_n (binary_ops E C fwd ids len) n = guarded E C (Zlist_start n)"
  "o_list_end_n (binary_ops E C fwd ids len) n = guarded E C (if fwd then Zbackup_end else Zlist_end n)"
  "o_map_start_n (binary_ops E C fwd ids len) n = guarded E C (Zmap_start n)"
  "o_map_end_n (binary_ops E C fwd ids len) n = guarded E C (if fwd then Zbackup_end else Zmap_end n)"
  "o_rendered (binary_ops E C fwd ids len) n e = n"
  "o_keys_as_ids (binary_ops E C fwd ids len) e = ids"
  "o_u32 (binary_ops E C fwd ids len) w = guarded E C (Zu32 w)"
  "o_cstr (binary_ops E C fwd ids len) s = guarded E C (Ztstr (term_bytes s))"
  by (auto simp: binary_ops_def be_list_start_def be_list_end_def be_map_start_def be_map_end_def
      default_rendered_def guarded_def encodeListMapEnd_def)

lemma binary_prim: "enc_prim (binary_ops E C fwd ids len) p = guarded E C (prim_call p)"
  by (cases p) (simp_all add: binary_ops_def)

lemma be_true_simp [simp]: "be_true e = (True, e)"
  by (simp add: be_true_def)

lemma does_list: "does g f cs \<Longrightarrow> does g (seq [g (Zlist_start n), f, g c]) (Zlist_start n # cs @ [c])"
  by (intro does_seq_call does_seq_Cons) (auto simp: does_def)

lemma does_map: "does g f cs \<Longrightarrow> does g (seq [g (Zmap_start n), f, g c]) (Zmap_start n # cs @ [c])"
  by (intro does_seq_call does_seq_Cons) (auto simp: does_def)

lemma does_items:
  assumes "\<And>x. x \<in> set xs \<Longrightarrow> does g (f x) (cs x)"
  shows "does g (enc_items ops (map f xs)) (concat (map cs xs))"
  using assms
proof (induction xs)
  case (Cons x xs)
  have "does g (seq [f x, enc_items ops (map f xs)]) (cs x @ concat (map cs xs) @ [])"
    by (intro does_seq_Cons does_seq_Nil Cons) (use Cons in auto)
  then show ?case by (simp add: does_def)
qed (simp add: does_def)

lemma does_elems:
  assumes "\<And>x. x \<in> set xs \<Longrightarrow> does g (f x) (cs x)" "\<And>e. o_list_sep ops e = (True, e)"
  shows "runs g (concat (map cs xs)) e = (True, e') \<Longrightarrow> enc_elems ops (map f xs) (True, e) = (True, e')"
  using assms(1)
proof (induction xs arbitrary: e)
  case (Cons x xs)
  from Cons.prems(1) obtain e1 where r: "runs g (cs x) e = (True, e1)" "runs g (concat (map cs xs)) e1 = (True, e')"
    by (auto elim: runs_appendE)
  with Cons.prems(2) [of x] have "f x e = (True, e1)" by (auto dest: doesD)
  moreover have "enc_elems ops (map f xs) (True, e1) = (True, e')"
    by (rule Cons.IH [OF r(2)]) (use Cons.prems(2) in auto)
  ultimately show ?case by (simp add: assms(2))
qed simp

lemma does_pairs:
  assumes "\<And>x. x \<in> set xs \<Longrightarrow> does g (f x) (cs x) \<and> does g (h x) (ds x)"
    "\<And>e. o_list_sep ops e = (True, e)" "\<And>e. o_kv_sep ops e = (True, e)"
  shows "does g (enc_pairs ops (map (\<lambda>x. (f x, h x)) xs)) (concat (map (\<lambda>x. cs x @ ds x) xs))"
  using assms(1)
proof (induction xs)
  case (Cons x xs)
  have d: "does g (f x) (cs x)" "does g (h x) (ds x)" using Cons.prems by auto
  have r: "does g (enc_pairs ops (map (\<lambda>x. (f x, h x)) xs)) (concat (map (\<lambda>x. cs x @ ds x) xs))"
    using Cons by auto
  show ?case
  proof (unfold does_def, intro allI impI)
    fix e e' assume "runs g (concat (map (\<lambda>x. cs x @ ds x) (x # xs))) e = (True, e')"
    then obtain e1 e2 where
      "runs g (cs x) e = (True, e1)" "runs g (ds x) e1 = (True, e2)"
      "runs g (concat (map (\<lambda>x. cs x @ ds x) xs)) e2 = (True, e')"
      by (auto elim!: runs_appendE)
    with d r have "f x e = (True, e1)" "h x e1 = (True, e2)"
      "enc_pairs ops (map (\<lambda>x. (f x, h x)) xs) e2 = (True, e')"
      by (auto dest: doesD)
    then show "enc_pairs ops (map (\<lambda>x. (f x, h x)) (x # xs)) e = (True, e')"
      by (simp add: enc_pair_def assms(2,3))
  qed
qed (simp add: does_def)

lemma does_fields:
  assumes "\<And>i n v. (i, n, v) \<in> set fs \<Longrightarrow> does (guarded E C) (f v) (cs v)"
  shows "runs (guarded E C) (concat (map (\<lambda>(i, n, v). key_call ids i n # cs v) fs)) e = (True, e') \<Longrightarrow>
    enc_fields (binary_ops E C fwd ids len) (map (\<lambda>(i, n, v). (i, n, f v)) fs) e = e'"
  using assms
proof (induction fs arbitrary: e)
  case (Cons x fs)
  obtain i n v where x: "x = (i, n, v)" by (cases x) auto
  from Cons.prems(1) obtain e1 e2 where
    r: "guarded E C (key_call ids i n) e = (True, e1)" "runs (guarded E C) (cs v) e1 = (True, e2)"
    "runs (guarded E C) (concat (map (\<lambda>(i, n, v). key_call ids i n # cs v) fs)) e2 = (True, e')"
    by (auto simp: x elim!: runs_appendE runs_ConsE)
  have "f v e1 = (True, e2)" using r(2) Cons.prems(2) [of i n v] by (auto simp: x dest: doesD)
  moreover have "enc_fields (binary_ops E C fwd ids len) (map (\<lambda>(i, n, v). (i, n, f v)) fs) e2 = e'"
    by (rule Cons.IH [OF r(3)]) (use Cons.prems(2) in auto)
  ultimately show ?case using r(1) by (simp add: x key_call_def split: if_splits)
qed simp

lemma does_array:
  assumes "\<And>x. x \<in> set xs \<Longrightarrow> does (guarded E C) (f x) (cs x)"
  shows "does (guarded E C) (enc_array (binary_ops E C fwd ids len) (map f xs))
    (list_calls fwd (length xs) (concat (map cs xs)))"
proof (unfold does_def list_calls_def, intro allI impI)
  fix e e' assume "runs (guarded E C) (Zlist_start (length xs) # concat (map cs xs) @
      [if fwd then Zbackup_end else Zlist_end (length xs)]) e = (True, e')"
  then obtain e1 e2 where r: "guarded E C (Zlist_start (length xs)) e = (True, e1)"
    "runs (guarded E C) (concat (map cs xs)) e1 = (True, e2)"
    "guarded E C (if fwd then Zbackup_end else Zlist_end (length xs)) e2 = (True, e')"
    by (auto elim!: runs_ConsE runs_appendE)
  have "enc_elems (binary_ops E C fwd ids len) (map f xs) (True, e1) = (True, e2)"
    by (rule does_elems [OF assms]) (use r in auto)
  with r(1,3) show "enc_array (binary_ops E C fwd ids len) (map f xs) e = (True, e')"
    by (simp add: enc_array_def)
qed

lemma does_class:
  assumes "\<And>i n v. (i, n, v) \<in> set fs \<Longrightarrow> does (guarded E C) (f v) (cs v)"
  shows "does (guarded E C) (enc_class (binary_ops E C fwd ids len) (map (\<lambda>(i, n, v). (i, n, f v)) fs))
    (map_calls fwd (length fs) (concat (map (\<lambda>(i, n, v). key_call ids i n # cs v) fs)))"
proof (unfold does_def map_calls_def, intro allI impI)
  fix e e' assume "runs (guarded E C) (Zmap_start (length fs) #
      concat (map (\<lambda>(i, n, v). key_call ids i n # cs v) fs) @
      [if fwd then Zbackup_end else Zmap_end (length fs)]) e = (True, e')"
  then obtain e1 e2 where r: "guarded E C (Zmap_start (length fs)) e = (True, e1)"
    "runs (guarded E C) (concat (map (\<lambda>(i, n, v). key_call ids i n # cs v) fs)) e1 = (True, e2)"
    "guarded E C (if fwd then Zbackup_end else Zmap_end (length fs)) e2 = (True, e')"
    by (auto elim!: runs_ConsE runs_appendE)
  have "enc_fields (binary_ops E C fwd ids len) (map (\<lambda>(i, n, v). (i, n, f v)) fs) e1 = e2"
    by (rule does_fields [OF assms r(2)])
  with r(1,3) show "enc_class (binary_ops E C fwd ids len) (map (\<lambda>(i, n, v). (i, n, f v)) fs) e = (True, e')"
    by (simp add: enc_class_def)
qed

lemma does_val: "does (guarded E C) (enc_val (binary_ops E C fwd ids len) v) (calls_of fwd ids v)"
proof (induction v)
  case (Prim p)
  show ?case using does_call [of "guarded E C" "prim_call p"] by (simp add: binary_prim)
next
  case (VArr xs)
  then show ?case using does_array [of xs E C "enc_val (binary_ops E C fwd ids len)"] by simp
next
  case (VList xs)
  have "does (guarded E C) (enc_items (binary_ops E C fwd ids len) (map (enc_val (binary_ops E C fwd ids len)) xs))
     (concat (map (calls_of fwd ids) xs))"
    by (rule does_items) (use VList in auto)
  from does_list [OF this, of "length xs" "if fwd then Zbackup_end else Zlist_end (length xs)"]
  show ?case by (simp only: calls_of.simps enc_val.simps enc_list_def list_calls_def binary_ops_simps length_map)
next
  case (VMap kvs)
  let ?f = "\<lambda>x. enc_val (binary_ops E C fwd ids len) (fst x)"
  let ?h = "\<lambda>x. enc_val (binary_ops E C fwd ids len) (snd x)"
  have "does (guarded E C) (enc_pairs (binary_ops E C fwd ids len) (map (\<lambda>x. (?f x, ?h x)) kvs))
     (concat (map (\<lambda>x. calls_of fwd ids (fst x) @ calls_of fwd ids (snd x)) kvs))"
    by (rule does_pairs) (use VMap in \<open>auto simp: fsts.simps snds.simps\<close>)
  from does_map [OF this, of "length kvs" "if fwd then Zbackup_end else Zmap_end (length kvs)"]
  have "does (guarded E C) (enc_map (binary_ops E C fwd ids len) (map (\<lambda>x. (?f x, ?h x)) kvs))
    (map_calls fwd (length kvs) (concat (map (\<lambda>x. calls_of fwd ids (fst x) @ calls_of fwd ids (snd x)) kvs)))"
    by (simp only: enc_map_def map_calls_def binary_ops_simps length_map)
  then show ?case by (simp add: case_prod_beta')
next
  case (VRec fs)
  have "does (guarded E C) (enc_val (binary_ops E C fwd ids len) v) (calls_of fwd ids v)"
    if "(i, n, v) \<in> set fs" for i n v
    using VRec [OF that, of "(n, v)" v] by simp
  from does_class [OF this, of fs] show ?case by simp
qed

lemma forward_calls_of: "c \<in> set (calls_of True ids v) \<Longrightarrow> forward_call c"
proof (induction v)
  case (Prim p)
  then show ?case by (cases p) simp_all
next
  case (VMap kvs)
  then show ?case by (fastforce simp: map_calls_def)
next
  case (VRec fs)
  then show ?case by (fastforce simp: map_calls_def key_call_def)
qed (auto simp: list_calls_def)

text \<open>
  C19. Encoding a value in the binary mode is a sequence of calls into zcbor, one per primitive and two
  around each list or map, with the number of elements given at the start of each list and the
  member ids (or names) as keys of an object; each call is preceded by the hook \<open>ensureState\<close>. If none of them fails, the
  encoder returns true and has done exactly these calls, in this order, for every encoder built on
  the binary operations (any hook, any buffer, forward-only or not).
\<close>
theorem binary_encode_calls:
  assumes "runs (guarded ensure call) (calls_of fwd ids v) e = (True, e')"
  shows "enc_val (binary_ops ensure call fwd ids len) v e = (True, e')"
  by (rule doesD [OF does_val assms])

text \<open>A value with an array, a map and an object, on an encoder that logs up to fifteen calls.\<close>

definition log_call :: "zcall \<Rightarrow> zcall list action" where
  "log_call c log = (length log < 15, log @ [c])"

definition sample_value :: tsval where
  "sample_value = VRec [(1, ''a'', Prim (PU8 200)), (2, ''b'', VArr [Prim (PF32 1), Prim (PBool True)]),
     (3, ''c'', VMap [(Prim (PStr ''k''), VList [])])]"

theorem binary_encode_calls_witness:
  "enc_val (binary_ops base_ensureState log_call True True length) sample_value [] =
    (True, [Zmap_start 3, Zu32 1, Zu32 200, Zu32 2, Zlist_start 2, Zf32 1, Zbool True, Zbackup_end,
      Zu32 3, Zmap_start 1, Ztstr [0x6B], Zlist_start 0, Zbackup_end, Zbackup_end, Zbackup_end])"
  by (rule binary_encode_calls)
    (simp add: sample_value_def map_calls_def list_calls_def key_call_def runs_Cons guarded_def
      base_ensureState_def log_call_def term_bytes_def of_char_def)

subsection \<open>The encoder over a fixed buffer does the same\<close>

text \<open>
  Its option for the keys is part of its state, which no operation changes: on states with the option it behaves
  as the encoder with ids. \<open>same I f g\<close>: on states with I, f is g, and keeps I. The locale states when one
  encoder can stand for another on the states with I.
\<close>

definition same :: "('e \<Rightarrow> bool) \<Rightarrow> 'e action \<Rightarrow> 'e action \<Rightarrow> bool" where
  "same I f g \<longleftrightarrow> (\<forall>e. I e \<longrightarrow> f e = g e \<and> I (snd (g e)))"

lemma sameD: "same I f g \<Longrightarrow> I e \<Longrightarrow> f e = g e" "same I f g \<Longrightarrow> I e \<Longrightarrow> I (snd (g e))"
  by (simp_all add: same_def)

lemma same_seq_Cons: "same I f g \<Longrightarrow> same I (seq fs) (seq gs) \<Longrightarrow> same I (seq (f # fs)) (seq (g # gs))"
  unfolding same_def by (auto simp: seq_Cons case_prod_beta)

lemma same_seq_Nil: "same I (seq []) (seq [])"
  by (simp add: same_def)

lemmas same_seq = same_seq_Cons same_seq_Nil

locale encoder_stands_for =
  fixes I :: "'e \<Rightarrow> bool" and A B :: "'e encoder_ops"
  assumes starts: "same I (o_list_start_n A n) (o_list_start_n B n)" "same I (o_map_start_n A n) (o_map_start_n B n)"
    and ends: "same I (o_list_end_n A n) (o_list_end_n B n)" "same I (o_map_end_n A n) (o_map_end_n B n)"
    and seps: "same I (o_list_sep A) (o_list_sep B)" "same I (o_kv_sep A) (o_kv_sep B)" "same I (o_trunc A) (o_trunc B)"
    and prims: "same I (enc_prim A p) (enc_prim B p)"
    and rendered: "I e \<Longrightarrow> o_rendered A n e = o_rendered B n e"
    and keys: "I e \<Longrightarrow> o_keys_as_ids A e = o_keys_as_ids B e" "same I (o_u32 A i) (o_u32 B i)" "same I (o_cstr A s) (o_cstr B s)"
begin

lemma elems_same:
  "(\<And>x. x \<in> set xs \<Longrightarrow> same I (f x) (g x)) \<Longrightarrow> I e \<Longrightarrow>
   enc_elems A (map f xs) (r, e) = enc_elems B (map g xs) (r, e) \<and> I (snd (enc_elems B (map g xs) (r, e)))"
proof (induction xs arbitrary: r e)
  case (Cons x xs)
  have s: "same I (seq [f x, o_list_sep A]) (seq [g x, o_list_sep B])" by (intro same_seq seps Cons) simp
  obtain a e' where e: "seq [g x, o_list_sep B] e = (a, e')" "I e'"
    using sameD(2) [OF s Cons.prems(2)] by (cases "seq [g x, o_list_sep B] e") simp
  then have "seq [f x, o_list_sep A] e = (a, e')" using sameD(1) [OF s Cons.prems(2)] by simp
  then show ?case using Cons.IH [of e' "r \<and> a"] Cons.prems(1) e
    by (simp only: list.map enc_elems.simps Let_def case_prod_conv) (simp add: Cons.prems)
qed simp

lemma array_same:
  assumes "\<And>x. x \<in> set xs \<Longrightarrow> same I (f x) (g x)"
  shows "same I (enc_array A (map f xs)) (enc_array B (map g xs))"
  unfolding same_def
proof (intro allI impI)
  fix e assume e: "I e"
  define re where "re = o_list_start_n B (length xs) e"
  obtain r1 e1 where s: "re = (r1, e1)" "o_list_start_n A (length xs) e = (r1, e1)" "I e1"
    using sameD [OF starts(1) e, of "length xs"] by (cases re) (simp add: re_def)
  let ?n = "o_rendered B (length xs) e"
  have m: "enc_elems A (map f (take ?n xs)) (r1, e1) = enc_elems B (map g (take ?n xs)) (r1, e1)"
      "I (snd (enc_elems B (map g (take ?n xs)) (r1, e1)))"
    using elems_same [of "take ?n xs" f g e1 r1] assms s(3) by (auto dest: in_set_takeD)
  have t: "same I (seq [o_trunc A, o_list_sep A]) (seq [o_trunc B, o_list_sep B])" by (intro same_seq seps)
  show "enc_array A (map f xs) e = enc_array B (map g xs) e \<and> I (snd (enc_array B (map g xs) e))"
    using m elems_same [of xs f g e1 r1, OF assms s(3)] sameD [OF t] sameD [OF ends(1)] s(2,3) s(1) [unfolded re_def]
    by (simp add: enc_array_def rendered [OF e] take_map case_prod_beta Let_def del: seq.simps) blast
qed

lemma items_same:
  "(\<And>x. x \<in> set xs \<Longrightarrow> same I (f x) (g x)) \<Longrightarrow> same I (enc_items A (map f xs)) (enc_items B (map g xs))"
proof (induction xs)
  case (Cons x xs)
  have "same I (seq [f x, enc_items A (map f xs)]) (seq [g x, enc_items B (map g xs)])"
    by (intro same_seq Cons) (use Cons in auto)
  then show ?case by (simp add: same_def)
qed (simp add: same_def)

lemma pairs_same:
  "(\<And>x. x \<in> set xs \<Longrightarrow> same I (f x) (g x) \<and> same I (f' x) (g' x)) \<Longrightarrow>
   same I (enc_pairs A (map (\<lambda>x. (f x, f' x)) xs)) (enc_pairs B (map (\<lambda>x. (g x, g' x)) xs))"
proof (induction xs)
  case (Cons x xs)
  have "same I (enc_pair A (f x, f' x)) (enc_pair B (g x, g' x))"
    unfolding enc_pair_def fst_conv snd_conv by (intro same_seq seps) (use Cons.prems in auto)
  then have "same I (seq [enc_pair A (f x, f' x), enc_pairs A (map (\<lambda>x. (f x, f' x)) xs)])
      (seq [enc_pair B (g x, g' x), enc_pairs B (map (\<lambda>x. (g x, g' x)) xs)])"
    by (intro same_seq Cons) (use Cons in auto)
  then show ?case by (simp add: same_def)
qed (simp add: same_def)

lemma fields_same:
  "(\<And>i n v. (i, n, v) \<in> set fs \<Longrightarrow> same I (f v) (g v)) \<Longrightarrow> I e \<Longrightarrow>
   enc_fields A (map (\<lambda>(i, n, v). (i, n, f v)) fs) e = enc_fields B (map (\<lambda>(i, n, v). (i, n, g v)) fs) e \<and>
   I (enc_fields B (map (\<lambda>(i, n, v). (i, n, g v)) fs) e)"
proof (induction fs arbitrary: e)
  case (Cons x fs)
  obtain i n v where x: "x = (i, n, v)" by (cases x) auto
  have v: "same I (f v) (g v)" using Cons.prems(1) [of i n v] by (simp add: x)
  define e1 where "e1 = snd (if o_keys_as_ids B e then o_u32 B (ucast i) e else o_cstr B n e)"
  have k: "snd (if o_keys_as_ids A e then o_u32 A (ucast i) e else o_cstr A n e) = e1" "I e1"
    using keys(1) sameD [OF keys(2), of e "ucast i"] sameD [OF keys(3), of e n] Cons.prems(2) by (auto simp: e1_def)
  define e4 where "e4 = snd (o_list_sep B (snd (g v (snd (o_kv_sep B e1)))))"
  have e2: "o_kv_sep A e1 = o_kv_sep B e1" "I (snd (o_kv_sep B e1))" using sameD [OF seps(2) k(2)] by simp_all
  have e3: "f v (snd (o_kv_sep B e1)) = g v (snd (o_kv_sep B e1))" "I (snd (g v (snd (o_kv_sep B e1))))"
    using sameD [OF v e2(2)] by simp_all
  have e4: "snd (o_list_sep A (snd (f v (snd (o_kv_sep A e1))))) = e4" "I e4"
    using sameD [OF seps(1) e3(2)] by (simp_all add: e4_def e2 e3)
  have "enc_fields A (map (\<lambda>(i, n, v). (i, n, f v)) fs) e4 = enc_fields B (map (\<lambda>(i, n, v). (i, n, g v)) fs) e4 \<and>
      I (enc_fields B (map (\<lambda>(i, n, v). (i, n, g v)) fs) e4)"
    by (rule Cons.IH [OF _ e4(2)]) (use Cons.prems(1) in auto)
  then show ?case using e4(1) k(1) by (simp add: x Let_def e1_def [symmetric] e4_def [symmetric])
qed simp

lemma class_same:
  assumes "\<And>i n v. (i, n, v) \<in> set fs \<Longrightarrow> same I (f v) (g v)"
  shows "same I (enc_class A (map (\<lambda>(i, n, v). (i, n, f v)) fs)) (enc_class B (map (\<lambda>(i, n, v). (i, n, g v)) fs))"
  unfolding same_def
proof (intro allI impI)
  fix e assume e: "I e"
  show "enc_class A (map (\<lambda>(i, n, v). (i, n, f v)) fs) e = enc_class B (map (\<lambda>(i, n, v). (i, n, g v)) fs) e \<and>
      I (snd (enc_class B (map (\<lambda>(i, n, v). (i, n, g v)) fs) e))"
    using sameD [OF starts(2) e, of "length fs"] fields_same [of fs f g, OF assms] sameD [OF ends(2)]
    by (simp add: enc_class_def case_prod_beta)
qed

lemma val_same: "same I (enc_val A v) (enc_val B v)"
proof (induction v)
  case (VArr xs)
  then show ?case using array_same [of xs "enc_val A" "enc_val B"] by simp
next
  case (VList xs)
  have "same I (enc_items A (map (enc_val A) xs)) (enc_items B (map (enc_val B) xs))" by (rule items_same) (use VList in auto)
  then show ?case unfolding enc_val.simps enc_list_def length_map by (intro same_seq starts ends)
next
  case (VMap kvs)
  have "same I (enc_pairs A (map (\<lambda>x. (enc_val A (fst x), enc_val A (snd x))) kvs))
      (enc_pairs B (map (\<lambda>x. (enc_val B (fst x), enc_val B (snd x))) kvs))"
    by (rule pairs_same) (use VMap in \<open>auto simp: fsts.simps snds.simps\<close>)
  then show ?case unfolding enc_val.simps enc_map_def length_map case_prod_beta' by (intro same_seq starts ends)
next
  case (VRec fs)
  have "same I (enc_val A v) (enc_val B v)" if "(i, n, v) \<in> set fs" for i n v using VRec [OF that, of "(n, v)" v] by simp
  from class_same [OF this, of fs] show ?case by simp
qed (simp add: prims)

end

lemma fe_call_opts [simp]: "fe_keysAsIds (snd (fe_call Z c e)) = fe_keysAsIds e"
  by (simp add: fe_call_def fe_keysAsIds_def case_prod_beta)

lemma fixed_guarded: "guarded base_ensureState (fe_call Z) c = fe_call Z c"
  by (rule ext) (simp add: guarded_def base_ensureState_def)

lemma same_refl_call: "same fe_keysAsIds (fe_call Z c) (fe_call Z c)"
  by (simp add: same_def)

lemma fixed_prim: "enc_prim (fixed_ops Z) p = fe_call Z (prim_call p)"
proof -
  have "enc_prim (fixed_ops Z) p = enc_prim (binary_ops base_ensureState (fe_call Z) base_getIsForwardOnly True (fe_length Z)) p"
    by (cases p) (simp_all add: fixed_ops_def)
  then show ?thesis by (simp add: binary_prim fixed_guarded)
qed

lemma fixed_ops_calls:
  "o_null (fixed_ops Z) = fe_call Z Znil" "o_preamble (fixed_ops Z) = fe_call Z Znil"
  "o_map_start (fixed_ops Z) = fe_call Z (Zmap_start UINT8_MAX)" "o_map_end (fixed_ops Z) = fe_call Z (Zmap_end UINT8_MAX)"
  "o_list_start_n (fixed_ops Z) n = fe_call Z (Zlist_start n)" "o_list_end_n (fixed_ops Z) n = fe_call Z (Zlist_end n)"
  "o_list_sep (fixed_ops Z) = be_true" "o_length (fixed_ops Z) = fe_length Z"
  by (auto simp: fixed_ops_def binary_ops_def fixed_guarded be_map_start_def be_map_end_def be_list_start_def be_list_end_def
      base_getIsForwardOnly_def)

interpretation fixed: encoder_stands_for fe_keysAsIds "fixed_ops Z"
  "binary_ops base_ensureState (fe_call Z) base_getIsForwardOnly True (fe_length Z)" for Z
proof unfold_locales
  fix p
  show "same fe_keysAsIds (enc_prim (fixed_ops Z) p)
      (enc_prim (binary_ops base_ensureState (fe_call Z) base_getIsForwardOnly True (fe_length Z)) p)"
    by (simp add: fixed_prim binary_prim fixed_guarded same_refl_call)
qed (simp_all add: fixed_ops_def fixed_guarded same_refl_call base_getIsForwardOnly_def,
    simp_all add: same_def binary_ops_def default_trunc_def default_rendered_def)

lemma fixed_encodes:
  assumes "fe_keysAsIds e" and "runs (fe_call Z) (calls_of False True v) e = (True, e')"
  shows "enc_val (fixed_ops Z) v e = (True, e')"
proof -
  have "enc_val (binary_ops base_ensureState (fe_call Z) base_getIsForwardOnly True (fe_length Z)) v e = (True, e')"
    using doesD [OF does_val, of base_ensureState "fe_call Z" False True v e e'] assms(2)
    by (simp add: base_getIsForwardOnly_def fixed_guarded [abs_def])
  then show ?thesis using sameD(1) [OF fixed.val_same assms(1)] by simp
qed

end
