(* ===== verification/CanFrame.thy ===== *)
theory CanFrame imports CanId begin

text \<open>
  CAN frames and acceptance filters: include/thingset++/can/AbstractCanFrame.hpp,
  socketcan/CanFrame.hpp, socketcan/RawCanSocket.cpp, zephyr/CanFrame.cpp and
  src/can/ThingSetCanSubscriptionTransport.cpp. A frame is its id word and its data; the Linux
  socket accepts a frame when the id agrees with the filter on the bits of the mask.
\<close>

record frame =
  fr_id :: u32
  fr_data :: "u8 list"

definition CANFD_MAX_DLEN :: nat where "CANFD_MAX_DLEN = 64"

definition frame_setId :: "can_id \<Rightarrow> frame \<Rightarrow> frame" where
  "frame_setId c f = (let f1 = f\<lparr>fr_id := cid_id c\<rparr>
     in if fr_id f1 \<ge> 0x800 then f1\<lparr>fr_id := fr_id f1 OR CAN_EFF_FLAG\<rparr> else f1)"

definition frame_getId :: "frame \<Rightarrow> can_id" where
  "frame_getId f = CanID_create (fr_id f)"

definition frame_make :: "can_id \<Rightarrow> u8 list \<Rightarrow> frame" where
  "frame_make c data = (frame_setId c \<lparr>fr_id = 0, fr_data = []\<rparr>)\<lparr>fr_data := data\<rparr>"

definition reportFilter :: can_id where
  "reportFilter =
     setMask (cid_mask (setMessageType multiFrameReport CanID_default) OR message_priority_val reportHigh)
       (setMessagePriority reportHigh (setMessageType multiFrameReport CanID_default))"

definition controlFilter :: can_id where
  "controlFilter = setMessagePriority reportLow (setMessageType singleFrameReport CanID_default)"

text \<open>setFilter hands id and mask to the kernel, which compares the masked ids.\<close>

definition filter_accepts :: "can_id \<Rightarrow> frame \<Rightarrow> bool" where
  "filter_accepts c f \<longleftrightarrow> fr_id f AND cid_mask c = cid_id c AND cid_mask c"

subsection \<open>Identifiers through frames\<close>

lemma frame_make_id: "fr_id (frame_make c d) = getIdWithFlags c"
proof -
  have "(0x800 :: u32) \<le> i \<longleftrightarrow> CAN_SFF_MASK < i" for i
    by (simp add: CAN_SFF_MASK_def word_le_nat_alt word_less_nat_alt) linarith
  then show ?thesis by (simp add: frame_make_def frame_setId_def getIdWithFlags_def Let_def)
qed

lemma frame_id_roundtrip: "eff_valid c \<Longrightarrow> cid_id (frame_getId (frame_make c d)) = cid_id c"
  by (simp add: frame_getId_def frame_make_id create_flagged)

lemma frame_make_data [simp]: "fr_data (frame_make c d) = d"
  by (simp add: frame_make_def)

lemma flagged_bits: "m AND CAN_EFF_FLAG = 0 \<Longrightarrow> getIdWithFlags c AND m = cid_id c AND m"
proof -
  assume "m AND CAN_EFF_FLAG = 0"
  then have "(cid_id c OR CAN_EFF_FLAG) AND m = cid_id c AND m"
    by (simp add: bit.conj_disj_distrib2 and.commute [of CAN_EFF_FLAG m])
  then show ?thesis by (simp add: getIdWithFlags_def)
qed

text \<open>The frame's own masked fields, read on the receiving side.\<close>

lemma upt_32: "[0..<32] = [0, 1, 2, 3, 4, 5, 6, 7, 8, 9, 10, 11, 12, 13, 14, 15,
     16, 17, 18, 19, 20, 21, 22, 23, 24, 25, 26, 27, 28, 29, 30, 31]"
  by code_simp

lemma u32_eq_bits: "(a :: u32) = b \<longleftrightarrow> (\<forall>i \<in> set [0, 1, 2, 3, 4, 5, 6, 7, 8, 9, 10, 11, 12, 13, 14, 15,
     16, 17, 18, 19, 20, 21, 22, 23, 24, 25, 26, 27, 28, 29, 30, 31]. bit a i \<longleftrightarrow> bit b i)"
proof
  assume "\<forall>i \<in> set [0, 1, 2, 3, 4, 5, 6, 7, 8, 9, 10, 11, 12, 13, 14, 15,
     16, 17, 18, 19, 20, 21, 22, 23, 24, 25, 26, 27, 28, 29, 30, 31]. bit a i \<longleftrightarrow> bit b i"
  then have h: "\<forall>i \<in> set [0..<32]. bit a i \<longleftrightarrow> bit b i" by (simp only: upt_32)
  show "a = b"
  proof (rule bit_word_eqI)
    fix i assume "i < LENGTH(32)"
    then show "bit a i \<longleftrightarrow> bit b i" using h by simp
  qed
qed simp

lemma bits_24_28:
  "(x :: u32) AND 0x17000000 = 0x15000000 \<longleftrightarrow> bit x 24 \<and> \<not> bit x 25 \<and> bit x 26 \<and> bit x 28"
  "(x :: u32) AND 0x3000000 = 0x1000000 \<longleftrightarrow> bit x 24 \<and> \<not> bit x 25"
  "(x :: u32) AND 0x1C000000 = 0x14000000 \<longleftrightarrow> bit x 26 \<and> \<not> bit x 27 \<and> bit x 28"
  "(x :: u32) AND 0x1C000000 = 0x1C000000 \<longleftrightarrow> bit x 26 \<and> bit x 27 \<and> bit x 28"
  "(x :: u32) AND 0x3000000 = 0x2000000 \<longleftrightarrow> \<not> bit x 24 \<and> bit x 25"
  "(x :: u32) AND 0x1F000000 = 0x1E000000 \<longleftrightarrow> \<not> bit x 24 \<and> bit x 25 \<and> bit x 26 \<and> bit x 27 \<and> bit x 28"
  by (simp_all add: u32_eq_bits bit_and_iff)

lemma priority_bits: "message_priority_val p AND 0x14000000 = 0x14000000 \<longleftrightarrow> p = reportHigh \<or> p = reportLow"
  by (cases p) simp_all

lemma reportFilter_vals: "cid_mask reportFilter = 0x17000000" "cid_id reportFilter AND 0x17000000 = 0x15000000"
  by (simp_all add: reportFilter_def setMask_def mtype.set_eq prio.set_eq CanID_default_def mask_defs)

lemma controlFilter_vals: "cid_mask controlFilter = 0x1F000000" "cid_id controlFilter AND 0x1F000000 = 0x1E000000"
  by (simp_all add: controlFilter_def mtype.set_eq prio.set_eq CanID_default_def mask_defs)

lemma report_fields_bits:
  "cid_id c AND 0x17000000 = 0x15000000 \<longleftrightarrow>
   getMessageType c = message_type_val multiFrameReport \<and>
   (getMessagePriority c = message_priority_val reportHigh \<or> getMessagePriority c = message_priority_val reportLow)"
  by (simp add: getMessageType_def getMessagePriority_def mask_defs bits_24_28) blast

lemma control_fields_bits:
  "cid_id c AND 0x1F000000 = 0x1E000000 \<longleftrightarrow>
   getMessageType c = message_type_val singleFrameReport \<and> getMessagePriority c = message_priority_val reportLow"
  by (simp add: getMessageType_def getMessagePriority_def mask_defs bits_24_28)

text \<open>
  The subscriber's filter accepts exactly the multi-frame reports of the two report priorities:
  a frame built from an identifier passes it if and only if the identifier is a multi-frame report
  of high or low report priority, whatever the other fields; the control filter passes exactly the
  low-priority single-frame reports.
\<close>
theorem subscription_filters:
  "(filter_accepts reportFilter (frame_make c d) \<longleftrightarrow>
     getMessageType c = message_type_val multiFrameReport \<and>
     (getMessagePriority c = message_priority_val reportHigh \<or> getMessagePriority c = message_priority_val reportLow)) \<and>
   (filter_accepts controlFilter (frame_make c d) \<longleftrightarrow>
     getMessageType c = message_type_val singleFrameReport \<and> getMessagePriority c = message_priority_val reportLow)"
  by (simp add: filter_accepts_def frame_make_id reportFilter_vals controlFilter_vals flagged_bits
      CAN_EFF_FLAG_def report_fields_bits control_fields_bits)

end
