(* ===== verification/Streaming.thy ===== *)
theory Streaming imports BinaryEncoder CanFrame Access begin

text \<open>
  The streaming encoders: include/thingset++/StreamingThingSetBinaryEncoder.hpp with its two sinks,
  src/can/StreamingCanThingSetBinaryEncoder.cpp over src/can/ThingSetCanServerTransport.cpp and the
  SocketCAN transport, and include/thingset++/ip/StreamingUdpThingSetBinaryEncoder.hpp over the publish
  function of src/ip/sockets/ThingSetSocketServerTransport.cpp. The encoder writes into the front of a
  buffer of two chunks and hands a chunk to its sink when more than one chunk is in it. The locale
  \<open>chunk_writer\<close> states what a sink promises; both sinks are interpreted.
\<close>

subsection \<open>The base class\<close>

record ('z, 'x) stream =
  st_z :: 'z
  st_buf :: "u8 list"
  st_exported :: nat
  st_x :: 'x                \<comment> \<open>what the derived class adds\<close>

type_synonym ('z, 'x) writer = "nat \<Rightarrow> bool \<Rightarrow> ('z, 'x) stream action"

definition stream_pos :: "'z zcbor \<Rightarrow> nat \<Rightarrow> ('z, 'x) stream \<Rightarrow> nat" where
  "stream_pos Z h s = z_payload Z (st_z s) - h"

definition writeIfNecessary :: "'z zcbor \<Rightarrow> nat \<Rightarrow> nat \<Rightarrow> ('z, 'x) writer \<Rightarrow> ('z, 'x) stream action" where
  "writeIfNecessary Z Size h wr s =
    (let dataSize = Size - h; currentPos = stream_pos Z h s in
     if currentPos > dataSize then
       (let (ok, s1) = wr dataSize False s in
        if \<not> ok then (False, s1)
        else let newPos = currentPos - dataSize in
          (True, s1\<lparr>st_buf := memmove (st_buf s1) h Size Size,
                    st_exported := st_exported s1 + dataSize,
                    st_z := z_update Z (h + newPos) (length (st_buf s1) - newPos) (st_z s1)\<rparr>))
     else (True, s))"

definition stream_flush :: "'z zcbor \<Rightarrow> nat \<Rightarrow> nat \<Rightarrow> ('z, 'x) writer \<Rightarrow> ('z, 'x) stream action" where
  "stream_flush Z Size h wr s =
    (let (ok, s1) = (if stream_pos Z h s > Size - h then writeIfNecessary Z Size h wr s else (True, s)) in
     if \<not> ok then (False, s1)
     else let currentLength = stream_pos Z h s1;
              remainder = length (st_buf s1) - h - currentLength;
              s2 = s1\<lparr>st_buf := overwrite (st_buf s1) (h + currentLength) (replicate remainder 0)\<rparr>;
              (result, s3) = wr currentLength True s2
          in (result, s3\<lparr>st_exported := st_exported s3 + currentLength\<rparr>))"

definition stream_call :: "'z zcbor \<Rightarrow> zcall \<Rightarrow> ('z, 'x) stream action" where
  "stream_call Z c s = (let (r, b, z) = z_call Z c (st_buf s, st_z s) in (r, s\<lparr>st_buf := b, st_z := z\<rparr>))"

definition stream_ops :: "'z zcbor \<Rightarrow> nat \<Rightarrow> nat \<Rightarrow> ('z, 'x) writer \<Rightarrow> ('z, 'x) stream encoder_ops" where
  "stream_ops Z Size h wr = binary_ops (writeIfNecessary Z Size h wr) (stream_call Z) True True st_exported"

lemma length_concat_const: "\<forall>c \<in> set cs. length c = n \<Longrightarrow> length (concat cs) = length cs * n"
  by (induction cs) auto

subsection \<open>What a sink promises\<close>

text \<open>
  \<open>rep x cs\<close> says that the sink has been given the chunks cs of a report, \<open>fin x cs\<close> that it has
  been given all of them. A write may change bytes of the header only.
\<close>

locale chunk_writer =
  fixes Size h :: nat
    and wr :: "('z, 'x) writer"
    and rep fin :: "'x \<Rightarrow> u8 list list \<Rightarrow> bool"
  assumes header: "h < Size"
    and wr_frame: "wr n fl s = (True, s') \<Longrightarrow> h + n \<le> length (st_buf s) \<Longrightarrow>
      st_z s' = st_z s \<and> st_exported s' = st_exported s \<and> length (st_buf s') = length (st_buf s) \<and>
      drop h (st_buf s') = drop h (st_buf s)"
    and wr_more: "wr n False s = (True, s') \<Longrightarrow> h + n \<le> length (st_buf s) \<Longrightarrow> rep (st_x s) cs \<Longrightarrow>
      (st_exported s = 0 \<longleftrightarrow> cs = []) \<Longrightarrow> rep (st_x s') (cs @ [take n (drop h (st_buf s))])"
    and wr_last: "wr n True s = (True, s') \<Longrightarrow> h + n \<le> length (st_buf s) \<Longrightarrow> rep (st_x s) cs \<Longrightarrow>
      (st_exported s = 0 \<longleftrightarrow> cs = []) \<Longrightarrow> fin (st_x s') (cs @ [take n (drop h (st_buf s))])"
begin

text \<open>The stream holds the bytes \<open>bs\<close>: whole chunks in the sink, the rest at the front of the buffer.\<close>

definition streams :: "'z zcbor \<Rightarrow> nat \<Rightarrow> ('z, 'x) stream \<Rightarrow> u8 list list \<Rightarrow> u8 list \<Rightarrow> bool" where
  "streams Z room s cs bs \<longleftrightarrow> rep (st_x s) cs \<and> st_exported s = length cs * (Size - h) \<and>
     (\<forall>c \<in> set cs. length c = Size - h) \<and> length (st_buf s) = 2 * Size \<and>
     h \<le> z_payload Z (st_z s) \<and> stream_pos Z h s \<le> room * (Size - h) \<and>
     (cs \<noteq> [] \<longrightarrow> 0 < stream_pos Z h s) \<and>
     concat cs @ take (stream_pos Z h s) (drop h (st_buf s)) = bs"

lemma streams_exported: "streams Z r s cs bs \<Longrightarrow> st_exported s = 0 \<longleftrightarrow> cs = []"
  using header by (auto simp: streams_def)

lemma ensure_streams:
  assumes z: "zcbor_appends Z enc" and s: "streams Z 2 s cs bs"
    and w: "writeIfNecessary Z Size h wr s = (True, s')"
  obtains cs' where "streams Z 1 s' cs' bs"
proof (cases "stream_pos Z h s > Size - h")
  case False
  with w s have "streams Z 1 s' cs bs" by (simp add: writeIfNecessary_def streams_def)
  then show ?thesis by (rule that)
next
  case True
  define d where "d = Size - h"
  define p where "p = stream_pos Z h s - d"
  have hd: "h + d = Size" "0 < d" using header by (simp_all add: d_def)
  have pos: "stream_pos Z h s = d + p" "p \<le> d" "0 < p" using True s by (auto simp: p_def d_def streams_def)
  obtain s1 where w1: "wr d False s = (True, s1)"
    and s': "s' = s1\<lparr>st_buf := memmove (st_buf s1) h Size Size, st_exported := st_exported s1 + d,
       st_z := z_update Z (h + p) (length (st_buf s1) - p) (st_z s1)\<rparr>"
    using w True by (auto simp: writeIfNecessary_def Let_def d_def p_def split: prod.splits if_splits)
  have len: "length (st_buf s) = 2 * Size" and r: "rep (st_x s) cs" using s by (auto simp: streams_def)
  have le: "h + d \<le> length (st_buf s)" using hd len by simp
  note fr = wr_frame [OF w1 le]
  have same: "drop Size (st_buf s1) = drop Size (st_buf s)"
    using fr hd by (metis drop_drop add.commute)
  let ?c = "take d (drop h (st_buf s))"
  have "rep (st_x s1) (cs @ [?c])" by (rule wr_more [OF w1 le r streams_exported [OF s]])
  moreover have "length ?c = d" using le by simp
  moreover have "stream_pos Z h s' = p" "z_payload Z (st_z s') = h + p"
    by (simp_all add: stream_pos_def s' zcbor_appendsD(4) [OF z])
  moreover have "take p (drop h (st_buf s')) = take p (drop Size (st_buf s))"
    using take_memmove [of h Size "st_buf s1" Size p] fr len header pos hd
    by (simp add: s' same)
  moreover have "take (d + p) (drop h (st_buf s)) = ?c @ take p (drop Size (st_buf s))"
    using hd by (simp add: take_add add.commute)
  moreover have "length (st_buf s') = 2 * Size" "st_exported s' = length (cs @ [?c]) * d"
    using fr len header s by (simp_all add: s' length_memmove streams_def d_def add.commute)
  moreover have "concat cs @ take (d + p) (drop h (st_buf s)) = bs" "\<forall>c \<in> set cs. length c = d"
    using s pos by (auto simp: streams_def d_def)
  moreover have "st_x s' = st_x s1" by (simp add: s')
  ultimately have "streams Z 1 s' (cs @ [?c]) bs"
    using pos by (auto simp: streams_def simp flip: d_def)
  then show ?thesis by (rule that)
qed

lemma call_streams:
  assumes z: "zcbor_appends Z enc" and s: "streams Z 1 s cs bs" and c: "forward_call c"
    and fits: "length (enc c) \<le> Size - h" and w: "stream_call Z c s = (True, s')"
  shows "streams Z 2 s' cs (bs @ enc c)"
proof -
  obtain b z' where zc: "z_call Z c (st_buf s, st_z s) = (True, b, z')" and s': "s' = s\<lparr>st_buf := b, st_z := z'\<rparr>"
    using w by (auto simp: stream_call_def split: prod.splits)
  let ?p = "stream_pos Z h s"
  have p: "z_payload Z (st_z s) = h + ?p" "?p \<le> Size - h" "length (st_buf s) = 2 * Size"
    using s by (auto simp: streams_def stream_pos_def)
  have le: "h + ?p + length (enc c) \<le> length (st_buf s)" using p fits header by simp
  have z': "z_payload Z z' = h + ?p + length (enc c)" and b: "b = overwrite (st_buf s) (h + ?p) (enc c)"
    using zcbor_appendsD(1,2) [OF z c zc] p le by simp_all
  have "take (?p + length (enc c)) (drop h b) = take ?p (drop h (st_buf s)) @ enc c"
    using le by (simp add: b take_drop_overwrite)
  moreover have "length b = length (st_buf s)" using le by (simp add: b length_overwrite)
  moreover have "stream_pos Z h s' = ?p + length (enc c)" by (simp add: stream_pos_def s' z')
  moreover have "?p + length (enc c) \<le> 2 * (Size - h)" using p fits by simp
  moreover have "concat cs @ take ?p (drop h (st_buf s)) = bs" using s by (simp add: streams_def)
  ultimately show ?thesis using s z' p by (simp add: streams_def s' flip: append_assoc)
qed

lemma runs_streams:
  assumes z: "zcbor_appends Z enc"
    and "streams Z 2 s cs bs" "\<forall>c \<in> set zs. forward_call c \<and> length (enc c) \<le> Size - h"
    and "runs (guarded (writeIfNecessary Z Size h wr) (stream_call Z)) zs s = (True, s')"
  shows "\<exists>cs'. streams Z 2 s' cs' (bs @ concat (map enc zs))"
  using assms(2-)
proof (induction zs arbitrary: s cs bs)
  case (Cons c zs)
  from Cons.prems(3) obtain s1 s2 where w: "writeIfNecessary Z Size h wr s = (True, s1)"
    "stream_call Z c s1 = (True, s2)"
    "runs (guarded (writeIfNecessary Z Size h wr) (stream_call Z)) zs s2 = (True, s')"
    by (elim runs_ConsE guardedE)
  obtain cs1 where "streams Z 1 s1 cs1 bs" by (rule ensure_streams [OF z Cons.prems(1) w(1)])
  then have "streams Z 2 s2 cs1 (bs @ enc c)" by (rule call_streams [OF z]) (use Cons.prems w in auto)
  from Cons.IH [OF this _ w(3)] Cons.prems(2) show ?case by simp
qed auto

lemma flush_streams:
  assumes z: "zcbor_appends Z enc" and s: "streams Z 2 s cs bs"
    and w: "stream_flush Z Size h wr s = (True, s')"
  obtains cs' where "fin (st_x s') cs'" "concat cs' = bs" "cs' \<noteq> []"
    "\<forall>c \<in> set (butlast cs'). length c = Size - h" "length (last cs') \<le> Size - h"
    "st_exported s' = length bs" "2 \<le> length cs' \<Longrightarrow> 0 < length (last cs')"
proof -
  obtain s1 where w1: "writeIfNecessary Z Size h wr s = (True, s1)"
    using w by (cases "stream_pos Z h s > Size - h")
      (auto simp: stream_flush_def writeIfNecessary_def split: prod.splits if_splits)
  obtain cs1 where s1: "streams Z 1 s1 cs1 bs" by (rule ensure_streams [OF z s w1])
  let ?n = "stream_pos Z h s1"
  let ?s2 = "s1\<lparr>st_buf := overwrite (st_buf s1) (h + ?n) (replicate (length (st_buf s1) - h - ?n) 0)\<rparr>"
  obtain s3 where w3: "wr ?n True ?s2 = (True, s3)" and s': "s' = s3\<lparr>st_exported := st_exported s3 + ?n\<rparr>"
    using w w1 by (cases "stream_pos Z h s > Size - h")
      (auto simp: stream_flush_def writeIfNecessary_def Let_def split: prod.splits if_splits)
  have n: "?n \<le> Size - h" "length (st_buf s1) = 2 * Size" using s1 by (auto simp: streams_def)
  have le: "h + ?n \<le> length (st_buf ?s2)" using n header by (simp add: length_overwrite)
  let ?c = "take ?n (drop h (st_buf s1))"
  have c: "take ?n (drop h (st_buf ?s2)) = ?c" using n header by (simp add: take_drop_overwrite)
  have "rep (st_x ?s2) cs1" "st_exported ?s2 = 0 \<longleftrightarrow> cs1 = []"
    using s1 streams_exported [OF s1] by (auto simp: streams_def)
  from wr_last [OF w3 le this] have f: "fin (st_x s') (cs1 @ [?c])" by (simp only: s' c) simp
  have lc: "length ?c = ?n" using n header by simp
  have cc: "length (concat cs1) = length cs1 * (Size - h)"
    by (rule length_concat_const) (use s1 in \<open>simp add: streams_def\<close>)
  have bs: "concat cs1 @ ?c = bs" using s1 by (simp add: streams_def)
  then have "length bs = length cs1 * (Size - h) + ?n" using lc cc by (metis length_append)
  moreover have "st_exported s3 = length cs1 * (Size - h)"
    using s1 wr_frame [OF w3 le] by (simp add: streams_def)
  ultimately have "st_exported s' = length bs" by (simp add: s')
  moreover have "2 \<le> length (cs1 @ [?c]) \<Longrightarrow> 0 < ?n" using s1 by (cases cs1) (simp_all add: streams_def)
  ultimately show ?thesis using s1 n lc bs by (intro that [OF f]) (auto simp: streams_def)
qed

end

subsection \<open>Reports over CAN\<close>

text \<open>
  The server transport: its node address, the message number and, for the raw socket, the frames it
  took. \<open>accept\<close> is the kernel: whether it takes a frame after the frames before.
\<close>

record can_server =
  cs_address :: u8
  cs_messageNumber :: u8
  cs_frames :: "frame list"

type_synonym can_kernel = "frame list \<Rightarrow> frame \<Rightarrow> bool"

definition can_doPublish :: "can_kernel \<Rightarrow> can_id \<Rightarrow> u8 list \<Rightarrow> nat \<Rightarrow> can_server action" where
  "can_doPublish accept c buf len t =
    (if len > CANFD_MAX_DLEN then (False, t)
     else let f = frame_make c (take len buf) in
       if accept (cs_frames t) f then (True, t\<lparr>cs_frames := cs_frames t @ [f]\<rparr>) else (False, t))"

definition can_publish :: "can_kernel \<Rightarrow> can_id \<Rightarrow> u8 list \<Rightarrow> nat \<Rightarrow> can_server action" where
  "can_publish accept c0 buf len t =
    (let c = setMessageNumber (cs_messageNumber t) (setSource (cs_address t) c0);
         (result, t1) = can_doPublish accept c buf len t;
         ty = getMultiFrameMessageType c
     in (result, if ty = mf_type_val mf_last \<or> ty = mf_type_val mf_single
                 then t1\<lparr>cs_messageNumber := cs_messageNumber t1 + 1\<rparr> else t1))"

text \<open>\<open>sendControl\<close> for one property: \<open>encoded\<close> is the result of encoding its value.\<close>

definition can_sendControl :: "can_kernel \<Rightarrow> u16 \<Rightarrow> (u8 list \<times> nat) option \<Rightarrow> can_server action" where
  "can_sendControl accept i encoded t =
    (case encoded of None \<Rightarrow> (False, t)
     | Some (buf, len) \<Rightarrow>
       can_doPublish accept (setMessagePriority reportLow (setMessageType singleFrameReport
         (setDataId i (setSource (cs_address t) CanID_default)))) buf len t)"

record can_stream_ext =
  cx_seq :: u8              \<comment> \<open>_sequenceNumber\<close>
  cx_transport :: can_server

type_synonym 'z can_stream = "('z, can_stream_ext) stream"

definition can_send :: "can_kernel \<Rightarrow> mf_type \<Rightarrow> nat \<Rightarrow> 'z can_stream action" where
  "can_send accept ft len s =
    (let x = st_x s;
         c = setSequenceNumber (cx_seq x) (setMultiFrameMessageType ft
               (setMessageType multiFrameReport (setMessagePriority reportLow CanID_default)));
         (r, t) = can_publish accept c (st_buf s) len (cx_transport x)
     in (r, s\<lparr>st_x := \<lparr>cx_seq = cx_seq x + 1, cx_transport = t\<rparr>\<rparr>))"

definition can_write :: "can_kernel \<Rightarrow> ('z, can_stream_ext) writer" where
  "can_write accept len flushing s =
    can_send accept (if st_exported s = 0 then (if flushing then mf_single else mf_first)
                     else (if flushing then mf_last else mf_consecutive)) len s"

definition report_byte :: "bool \<Rightarrow> u8" where
  "report_byte enhanced = (if enhanced then 0x1e else 0x1f)"

text \<open>The constructor; the array is not initialised, so its contents are an argument.\<close>

definition can_encoder :: "'z zcbor \<Rightarrow> u8 list \<Rightarrow> bool \<Rightarrow> can_server \<Rightarrow> 'z can_stream" where
  "can_encoder Z junk enhanced t =
    \<lparr>st_z = z_new Z 1 (length junk - 1) (if enhanced then 3 else 2), st_buf = junk[0 := report_byte enhanced],
     st_exported = 0, st_x = \<lparr>cx_seq = 0, cx_transport = t\<rparr>\<rparr>"

text \<open>
  The frames of a report, as the specification: the i-th has the source address and message number
  of the report, sequence number i, and the type its position gives it.
\<close>

definition part_type :: "nat \<Rightarrow> bool \<Rightarrow> mf_type" where
  "part_type i final = (if i = 0 then (if final then mf_single else mf_first)
     else (if final then mf_last else mf_consecutive))"

definition report_id :: "u8 \<Rightarrow> u8 \<Rightarrow> nat \<Rightarrow> bool \<Rightarrow> can_id" where
  "report_id addr n i final = setMessageNumber n (setSource addr (setSequenceNumber (of_nat i)
     (setMultiFrameMessageType (part_type i final)
       (setMessageType multiFrameReport (setMessagePriority reportLow CanID_default)))))"

definition report_part :: "u8 \<Rightarrow> u8 \<Rightarrow> nat \<Rightarrow> bool \<Rightarrow> u8 list \<Rightarrow> frame" where
  "report_part addr n i final c = frame_make (report_id addr n i final) c"

definition open_report :: "(nat \<Rightarrow> bool \<Rightarrow> u8 list \<Rightarrow> 'f) \<Rightarrow> u8 list list \<Rightarrow> 'f list" where
  "open_report part cs = map (\<lambda>i. part i False (cs ! i)) [0..<length cs]"

definition closed_report :: "(nat \<Rightarrow> bool \<Rightarrow> u8 list \<Rightarrow> 'f) \<Rightarrow> u8 list list \<Rightarrow> 'f list" where
  "closed_report part cs = open_report part (butlast cs) @ [part (length cs - 1) True (last cs)]"

lemma open_report_snoc: "open_report part (cs @ [c]) = open_report part cs @ [part (length cs) False c]"
  by (simp add: open_report_def nth_append)

lemma open_report_Nil [simp]: "open_report part [] = []"
  by (simp add: open_report_def)

lemma closed_report_snoc: "closed_report part (cs @ [c]) = open_report part cs @ [part (length cs) True c]"
  by (simp add: closed_report_def)

definition can_rep :: "can_server \<Rightarrow> can_stream_ext \<Rightarrow> u8 list list \<Rightarrow> bool" where
  "can_rep t x cs \<longleftrightarrow> cx_seq x = of_nat (length cs) \<and>
     cx_transport x = t\<lparr>cs_frames := cs_frames t @ open_report (report_part (cs_address t) (cs_messageNumber t)) cs\<rparr>"

definition can_fin :: "can_server \<Rightarrow> can_stream_ext \<Rightarrow> u8 list list \<Rightarrow> bool" where
  "can_fin t x cs \<longleftrightarrow>
     cx_transport x = t\<lparr>cs_frames := cs_frames t @ closed_report (report_part (cs_address t) (cs_messageNumber t)) cs,
       cs_messageNumber := cs_messageNumber t + 1\<rparr>"

lemma report_id_type: "getMultiFrameMessageType (report_id addr n i final) = mf_type_val (part_type i final)"
  by (simp add: report_id_def getMultiFrameMessageType_def can_other_bits mask_disjoint)
    (simp add: can_own_bits)

lemma can_write_eq:
  assumes "can_write accept n fl s = (True, s')" "can_rep t (st_x s) cs" "st_exported s = 0 \<longleftrightarrow> cs = []"
  shows "s' = s\<lparr>st_x := \<lparr>cx_seq = of_nat (Suc (length cs)), cx_transport = (cx_transport (st_x s))
     \<lparr>cs_frames := cs_frames (cx_transport (st_x s)) @
        [report_part (cs_address t) (cs_messageNumber t) (length cs) fl (take n (st_buf s))],
      cs_messageNumber := cs_messageNumber t + (if fl then 1 else 0)\<rparr>\<rparr>\<rparr>"
proof -
  have pt: "(if st_exported s = 0 then (if fl then mf_single else mf_first)
      else (if fl then mf_last else mf_consecutive)) = part_type (length cs) fl"
    using assms(3) by (simp add: part_type_def)
  have ty: "(part_type (length cs) fl = mf_last \<or> part_type (length cs) fl = mf_single) = fl"
    by (simp add: part_type_def)
  show ?thesis
    using assms(1,2) unfolding can_write_def pt
    by (auto simp: can_send_def can_publish_def can_doPublish_def can_rep_def Let_def ty
        report_id_type [unfolded report_id_def] report_part_def report_id_def
        simp del: mf_type_val.simps split: if_splits prod.splits)
qed

interpretation can: chunk_writer CANFD_MAX_DLEN 0 "can_write accept" "can_rep t" "can_fin t"
  for accept :: can_kernel and t :: can_server
proof unfold_locales
  show "0 < CANFD_MAX_DLEN" by (simp add: CANFD_MAX_DLEN_def)
next
  fix n fl and s s' :: "'z can_stream"
  assume w: "can_write accept n fl s = (True, s')"
  then show "st_z s' = st_z s \<and> st_exported s' = st_exported s \<and>
      length (st_buf s') = length (st_buf s) \<and> drop 0 (st_buf s') = drop 0 (st_buf s)"
    by (auto simp: can_write_def can_send_def Let_def split: prod.splits)
next
  fix n cs and s s' :: "'z can_stream"
  assume "can_write accept n False s = (True, s')" "can_rep t (st_x s) cs" "(st_exported s = 0) = (cs = [])"
  from can_write_eq [OF this] this(2) show "can_rep t (st_x s') (cs @ [take n (drop 0 (st_buf s))])"
    by (simp add: can_rep_def open_report_snoc)
next
  fix n cs and s s' :: "'z can_stream"
  assume "can_write accept n True s = (True, s')" "can_rep t (st_x s) cs" "(st_exported s = 0) = (cs = [])"
  from can_write_eq [OF this] this(2) show "can_fin t (st_x s') (cs @ [take n (drop 0 (st_buf s))])"
    by (simp add: can_rep_def can_fin_def closed_report_snoc)
qed

lemma can_init_streams:
  assumes "zcbor_appends Z enc" "length junk = 2 * CANFD_MAX_DLEN"
  shows "can.streams t Z 2 (can_encoder Z junk e t) [] [report_byte e]"
proof -
  have "take 1 (junk[0 := b]) = [b]" for b using assms(2) by (cases junk) (auto simp: CANFD_MAX_DLEN_def)
  then show ?thesis
    using assms unfolding can.streams_def
    by (simp add: can_encoder_def can_rep_def stream_pos_def zcbor_appendsD(3) [OF assms(1)] CANFD_MAX_DLEN_def)
qed

abbreviation can_ensure :: "'z zcbor \<Rightarrow> can_kernel \<Rightarrow> 'z can_stream action" where
  "can_ensure Z accept \<equiv> writeIfNecessary Z CANFD_MAX_DLEN 0 (can_write accept)"

text \<open>
  C13. A report published over CAN. When no call into zcbor, no ensureState and no flush fails, the
  frames the socket took are those of one report: their data, joined, is the report byte followed by
  everything that was encoded; every frame but the last is full and none is longer than a CAN FD frame; the
  i-th frame carries sequence number i (mod 16), the source address and the message number of the
  report, and is typed single, first, consecutive or last by its position; afterwards the message
  number is advanced by one.
\<close>
theorem can_report_frames:
  assumes "zcbor_appends Z enc" "length junk = 2 * CANFD_MAX_DLEN"
    and "\<forall>c \<in> set zs. forward_call c \<and> length (enc c) \<le> CANFD_MAX_DLEN"
    and "runs (guarded (can_ensure Z accept) (stream_call Z)) zs (can_encoder Z junk e t) = (True, s)"
    and "stream_flush Z CANFD_MAX_DLEN 0 (can_write accept) s = (True, s')"
  shows "\<exists>cs. cx_transport (st_x s') = t\<lparr>cs_frames := cs_frames t @
        closed_report (report_part (cs_address t) (cs_messageNumber t)) cs,
        cs_messageNumber := cs_messageNumber t + 1\<rparr> \<and>
      concat cs = report_byte e # concat (map enc zs) \<and> (2 \<le> length cs \<longrightarrow> 0 < length (last cs)) \<and>
      (\<forall>c \<in> set (butlast cs). length c = CANFD_MAX_DLEN) \<and> length (last cs) \<le> CANFD_MAX_DLEN"
proof -
  obtain cs1 where "can.streams t Z 2 s cs1 ([report_byte e] @ concat (map enc zs))"
    using can.runs_streams [OF assms(1) can_init_streams [OF assms(1,2)] _ assms(4)] assms(3) by auto
  from can.flush_streams [OF assms(1) this assms(5)] show ?thesis
    by (auto simp: can_fin_def)
qed

subsection \<open>A concrete zcbor, for the witnesses\<close>

text \<open>The heads of RFC 8949 for arguments below 2^32, and the calls that write one head.\<close>

fun be_bytes :: "nat \<Rightarrow> nat \<Rightarrow> u8 list" where
  "be_bytes 0 n = []"
| "be_bytes (Suc k) n = be_bytes k (n div 256) @ [of_nat (n mod 256)]"

definition cbor_head :: "nat \<Rightarrow> nat \<Rightarrow> u8 list" where
  "cbor_head major n =
    (let m = major * 32 in
     if n < 24 then [of_nat (m + n)]
     else if n < 256 then of_nat (m + 24) # be_bytes 1 n
     else if n < 65536 then of_nat (m + 25) # be_bytes 2 n
     else of_nat (m + 26) # be_bytes 4 n)"

fun cbor_enc :: "zcall \<Rightarrow> u8 list" where
  "cbor_enc (Zu32 v) = cbor_head 0 (unat v)"
| "cbor_enc (Zbstr bs) = cbor_head 2 (length bs) @ bs"
| "cbor_enc (Ztstr bs) = cbor_head 3 (length bs) @ bs"
| "cbor_enc (Zlist_start n) = cbor_head 4 n"
| "cbor_enc (Zmap_start n) = cbor_head 5 n"
| "cbor_enc (Zbool b) = [if b then 0xf5 else 0xf4]"
| "cbor_enc Znil = [0xf6]"
| "cbor_enc (Zf32 v) = 0xfa # be_bytes 4 (unat v)"
| "cbor_enc c = []"

definition model_zcbor :: "(nat \<times> nat) zcbor" where
  "model_zcbor = \<lparr>
     z_call = \<lambda>c (buf, p, n). if p + length (cbor_enc c) \<le> n
        then (True, overwrite buf p (cbor_enc c), p + length (cbor_enc c), n) else (False, buf, p, n),
     z_payload = fst, z_new = \<lambda>p n k. (p, p + n), z_update = \<lambda>p n z. (p, p + n)\<rparr>"

lemma model_zcbor_appends: "zcbor_appends model_zcbor cbor_enc"
  by (auto simp: zcbor_appends_def model_zcbor_def split: if_splits)

definition wit_server :: can_server where
  "wit_server = \<lparr>cs_address = 5, cs_messageNumber = 3, cs_frames = []\<rparr>"

definition wit_calls :: "zcall list" where
  "wit_calls = [Zu32 7, Zmap_start 1, Zu32 0x300, Zbstr (replicate 60 9), Zbackup_end]"

definition wit_end :: "(nat \<times> nat) can_stream" where
  "wit_end = snd (runs (guarded (can_ensure model_zcbor (\<lambda>_ _. True)) (stream_call model_zcbor)) wit_calls
     (can_encoder model_zcbor (replicate 128 0) False wit_server))"

lemma length_be_bytes [simp]: "length (be_bytes k n) = k"
  by (induction k arbitrary: n) auto

lemmas stream_eval = runs_Cons guarded_def writeIfNecessary_def stream_call_def stream_pos_def model_zcbor_def
  can_write_def can_send_def can_publish_def can_doPublish_def can_encoder_def wit_server_def wit_calls_def
  CANFD_MAX_DLEN_def cbor_head_def Let_def case_prod_beta

lemma wit_run:
  "fst (runs (guarded (can_ensure model_zcbor (\<lambda>_ _. True)) (stream_call model_zcbor)) wit_calls
     (can_encoder model_zcbor (replicate 128 0) False wit_server))"
  "fst (stream_flush model_zcbor CANFD_MAX_DLEN 0 (can_write (\<lambda>_ _. True)) wit_end)"
  by (simp_all add: stream_eval wit_end_def stream_flush_def)

theorem can_report_frames_witness:
  "\<exists>cs. cx_transport (st_x (snd (stream_flush model_zcbor CANFD_MAX_DLEN 0 (can_write (\<lambda>_ _. True)) wit_end))) =
      wit_server\<lparr>cs_frames := closed_report (report_part 5 3) cs, cs_messageNumber := 4\<rparr> \<and>
    concat cs = 0x1f # concat (map cbor_enc wit_calls) \<and> (2 \<le> length cs \<longrightarrow> 0 < length (last cs)) \<and>
    (\<forall>c \<in> set (butlast cs). length c = 64) \<and> length (last cs) \<le> 64"
  using can_report_frames [OF model_zcbor_appends, where junk = "replicate 128 0" and zs = wit_calls and e = False
      and t = wit_server and accept = "\<lambda>_ _. True" and s = wit_end
      and s' = "snd (stream_flush model_zcbor CANFD_MAX_DLEN 0 (can_write (\<lambda>_ _. True)) wit_end)"]
    wit_run
  by (simp add: prod_eq_iff wit_end_def CANFD_MAX_DLEN_def wit_calls_def cbor_head_def wit_server_def report_byte_def)

subsection \<open>Reports over UDP\<close>

datatype ip_message_type = ip_first | ip_consecutive | ip_last | ip_single

fun ip_message_type_val :: "ip_message_type \<Rightarrow> u8" where
  "ip_message_type_val ip_first = push_bit 4 0x0"
| "ip_message_type_val ip_consecutive = push_bit 4 0x1"
| "ip_message_type_val ip_last = push_bit 4 0x2"
| "ip_message_type_val ip_single = push_bit 4 0x3"

lemma ip_message_type_val_inj [simp]: "ip_message_type_val a = ip_message_type_val b \<longleftrightarrow> a = b"
  by (cases a; cases b) simp_all

definition THINGSET_STREAMING_MSG_SIZE :: nat where "THINGSET_STREAMING_MSG_SIZE = 512"
definition THINGSET_STREAMING_HEADER_SIZE :: nat where "THINGSET_STREAMING_HEADER_SIZE = 2"

text \<open>
  The server transport: the message number, the port getsockname reports (None when it fails, 0 for a
  socket that is not bound), and the datagrams sendto took in full. \<open>accept\<close> is the kernel.
\<close>

record ip_server =
  is_messageNumber :: u8
  is_port :: "u16 option"
  is_sent :: "u8 list list"

type_synonym udp_kernel = "u8 list list \<Rightarrow> u8 list \<Rightarrow> bool"

definition ip_publish :: "udp_kernel \<Rightarrow> nat \<Rightarrow> u8 list \<Rightarrow> ip_server \<Rightarrow> bool \<times> u8 list \<times> ip_server" where
  "ip_publish accept len buf t =
    (let buf1 = buf[1 := is_messageNumber t];
         ty = buf1 ! 0 AND 0xF0;
         t1 = (if ty = ip_message_type_val ip_single \<or> ty = ip_message_type_val ip_last
               then t\<lparr>is_messageNumber := is_messageNumber t + 1\<rparr> else t)
     in case is_port t1 of None \<Rightarrow> (False, buf1, t1)
        | Some port \<Rightarrow>
          if port = 0 then (False, buf1, t1)
          else if accept (is_sent t1) (take len buf1)
          then (True, buf1, t1\<lparr>is_sent := is_sent t1 @ [take len buf1]\<rparr>)
          else (False, buf1, t1))"

record udp_stream_ext =
  ux_seq :: u8
  ux_transport :: ip_server

type_synonym 'z udp_stream = "('z, udp_stream_ext) stream"

definition udp_write :: "udp_kernel \<Rightarrow> ('z, udp_stream_ext) writer" where
  "udp_write accept len flushing s =
    (let ty = (if st_exported s = 0 then (if flushing then ip_single else ip_first)
               else (if flushing then ip_last else ip_consecutive));
         b0 = (st_buf s)[0 := ip_message_type_val ty OR (ux_seq (st_x s) AND 0x0F)];
         (r, b, t) = ip_publish accept (len + THINGSET_STREAMING_HEADER_SIZE) b0 (ux_transport (st_x s))
     in (r, s\<lparr>st_buf := b, st_x := \<lparr>ux_seq = ux_seq (st_x s) + 1, ux_transport = t\<rparr>\<rparr>))"

definition udp_encoder :: "'z zcbor \<Rightarrow> u8 list \<Rightarrow> bool \<Rightarrow> ip_server \<Rightarrow> 'z udp_stream" where
  "udp_encoder Z junk enhanced t =
    \<lparr>st_z = z_new Z 3 (length junk - 3) (if enhanced then 3 else 2), st_buf = junk[2 := report_byte enhanced],
     st_exported = 0, st_x = \<lparr>ux_seq = 0, ux_transport = t\<rparr>\<rparr>"

text \<open>The datagrams of a report, as the specification.\<close>

definition ip_part_type :: "nat \<Rightarrow> bool \<Rightarrow> ip_message_type" where
  "ip_part_type i final = (if i = 0 then (if final then ip_single else ip_first)
     else (if final then ip_last else ip_consecutive))"

definition udp_part :: "u8 \<Rightarrow> nat \<Rightarrow> bool \<Rightarrow> u8 list \<Rightarrow> u8 list" where
  "udp_part n i final c = [ip_message_type_val (ip_part_type i final) OR (of_nat i AND 0x0F), n] @ c"

definition udp_rep :: "ip_server \<Rightarrow> udp_stream_ext \<Rightarrow> u8 list list \<Rightarrow> bool" where
  "udp_rep t x cs \<longleftrightarrow> ux_seq x = of_nat (length cs) \<and>
     ux_transport x = t\<lparr>is_sent := is_sent t @ open_report (udp_part (is_messageNumber t)) cs\<rparr>"

definition udp_fin :: "ip_server \<Rightarrow> udp_stream_ext \<Rightarrow> u8 list list \<Rightarrow> bool" where
  "udp_fin t x cs \<longleftrightarrow> ux_transport x =
     t\<lparr>is_sent := is_sent t @ closed_report (udp_part (is_messageNumber t)) cs,
       is_messageNumber := is_messageNumber t + 1\<rparr>"

lemma udp_type_bits: "(ip_message_type_val ty OR (q AND 0x0F)) AND 0xF0 = ip_message_type_val ty"
proof -
  have "(q AND 0x0F) AND (0xF0 :: u8) = 0" by (simp add: and.assoc)
  then show ?thesis by (cases ty) (simp_all add: bit.conj_disj_distrib2 and.assoc)
qed

lemma take_header: "2 + n \<le> length b \<Longrightarrow> take (n + 2) (b[0 := x, Suc 0 := y]) = [x, y] @ take n (drop 2 b)"
  by (cases b; cases "tl b") auto

lemma udp_write_eq:
  assumes "udp_write accept n fl s = (True, s')" "2 + n \<le> length (st_buf s)"
    "udp_rep t (st_x s) cs" "st_exported s = 0 \<longleftrightarrow> cs = []"
  shows "ux_seq (st_x s') = of_nat (Suc (length cs)) \<and>
    ux_transport (st_x s') = t\<lparr>is_sent := is_sent t @ open_report (udp_part (is_messageNumber t)) cs @
        [udp_part (is_messageNumber t) (length cs) fl (take n (drop 2 (st_buf s)))],
      is_messageNumber := is_messageNumber t + (if fl then 1 else 0)\<rparr>"
proof -
  have pt: "(if st_exported s = 0 then (if fl then ip_single else ip_first)
      else (if fl then ip_last else ip_consecutive)) = ip_part_type (length cs) fl"
    using assms(4) by (simp add: ip_part_type_def)
  have ty: "(ip_part_type (length cs) fl = ip_single \<or> ip_part_type (length cs) fl = ip_last) = fl"
    by (simp add: ip_part_type_def)
  have b: "0 < length (st_buf s)" "Suc 0 < length (st_buf s)" using assms(2) by auto
  then have nz: "(st_buf s)[0 := x] ! 0 = x" for x by simp
  show ?thesis
    using assms(1,3) unfolding udp_write_def pt
    by (auto simp: ip_publish_def udp_rep_def Let_def ty b nz udp_type_bits udp_part_def
        THINGSET_STREAMING_HEADER_SIZE_def take_header [OF assms(2)] take_header [OF assms(2), simplified]
        simp del: ip_message_type_val.simps nth_list_update split: if_splits prod.splits option.splits)
      (auto simp: ip_part_type_def split: if_splits)
qed

lemma udp_write_frame:
  assumes "udp_write accept n fl s = (True, s')"
  shows "st_z s' = st_z s \<and> st_exported s' = st_exported s \<and>
    length (st_buf s') = length (st_buf s) \<and> drop 2 (st_buf s') = drop 2 (st_buf s)"
  using assms
  by (auto simp: udp_write_def ip_publish_def Let_def split: prod.splits option.splits if_splits)

interpretation udp: chunk_writer THINGSET_STREAMING_MSG_SIZE THINGSET_STREAMING_HEADER_SIZE
  "udp_write accept" "udp_rep t" "udp_fin t"
  for accept :: udp_kernel and t :: ip_server
proof unfold_locales
  show "THINGSET_STREAMING_HEADER_SIZE < THINGSET_STREAMING_MSG_SIZE"
    by (simp add: THINGSET_STREAMING_HEADER_SIZE_def THINGSET_STREAMING_MSG_SIZE_def)
next
  fix n fl and s s' :: "'z udp_stream"
  assume "udp_write accept n fl s = (True, s')"
  from udp_write_frame [OF this] show "st_z s' = st_z s \<and> st_exported s' = st_exported s \<and>
      length (st_buf s') = length (st_buf s) \<and>
      drop THINGSET_STREAMING_HEADER_SIZE (st_buf s') = drop THINGSET_STREAMING_HEADER_SIZE (st_buf s)"
    by (simp add: THINGSET_STREAMING_HEADER_SIZE_def)
next
  fix n cs and s s' :: "'z udp_stream"
  assume "udp_write accept n False s = (True, s')"
    "THINGSET_STREAMING_HEADER_SIZE + n \<le> length (st_buf s)" "udp_rep t (st_x s) cs" "(st_exported s = 0) = (cs = [])"
  from udp_write_eq [OF this [unfolded THINGSET_STREAMING_HEADER_SIZE_def]]
  show "udp_rep t (st_x s') (cs @ [take n (drop THINGSET_STREAMING_HEADER_SIZE (st_buf s))])"
    by (simp add: udp_rep_def open_report_snoc THINGSET_STREAMING_HEADER_SIZE_def)
next
  fix n cs and s s' :: "'z udp_stream"
  assume "udp_write accept n True s = (True, s')"
    "THINGSET_STREAMING_HEADER_SIZE + n \<le> length (st_buf s)" "udp_rep t (st_x s) cs" "(st_exported s = 0) = (cs = [])"
  from udp_write_eq [OF this [unfolded THINGSET_STREAMING_HEADER_SIZE_def]]
  show "udp_fin t (st_x s') (cs @ [take n (drop THINGSET_STREAMING_HEADER_SIZE (st_buf s))])"
    by (simp add: udp_fin_def closed_report_snoc THINGSET_STREAMING_HEADER_SIZE_def)
qed

lemma udp_init_streams:
  assumes "zcbor_appends Z enc" "length junk = 2 * THINGSET_STREAMING_MSG_SIZE"
  shows "udp.streams t Z 2 (udp_encoder Z junk e t) [] [report_byte e]"
proof -
  have "take 1 (drop 2 (junk[2 := b])) = [b]" for b
    using assms(2) by (simp add: THINGSET_STREAMING_MSG_SIZE_def take_Suc drop_update_swap hd_drop_conv_nth
        hd_conv_nth)
  then show ?thesis
    using assms unfolding udp.streams_def
    by (simp add: udp_encoder_def udp_rep_def stream_pos_def zcbor_appendsD(3) [OF assms(1)]
        THINGSET_STREAMING_MSG_SIZE_def THINGSET_STREAMING_HEADER_SIZE_def)
qed

abbreviation udp_ensure :: "'z zcbor \<Rightarrow> udp_kernel \<Rightarrow> 'z udp_stream action" where
  "udp_ensure Z accept \<equiv>
    writeIfNecessary Z THINGSET_STREAMING_MSG_SIZE THINGSET_STREAMING_HEADER_SIZE (udp_write accept)"

abbreviation udp_flush :: "'z zcbor \<Rightarrow> udp_kernel \<Rightarrow> 'z udp_stream action" where
  "udp_flush Z accept \<equiv>
    stream_flush Z THINGSET_STREAMING_MSG_SIZE THINGSET_STREAMING_HEADER_SIZE (udp_write accept)"

text \<open>
  C18. A report published over UDP: the datagrams sent are those of one report, each with its
  two-byte header (position in the report and sequence number modulo 16, then the message number); their
  payloads, joined, are the report byte followed by everything that was encoded, in full
  datagrams of 510 payload bytes but the last, and the message number moves on by one.
\<close>
theorem udp_report_datagrams:
  assumes "zcbor_appends Z enc" "length junk = 2 * THINGSET_STREAMING_MSG_SIZE"
    and "\<forall>c \<in> set zs. forward_call c \<and> length (enc c) \<le> 510"
    and "runs (guarded (udp_ensure Z accept) (stream_call Z)) zs (udp_encoder Z junk e t) = (True, s)"
    and "udp_flush Z accept s = (True, s')"
  shows "\<exists>cs. ux_transport (st_x s') = t\<lparr>is_sent := is_sent t @ closed_report (udp_part (is_messageNumber t)) cs,
        is_messageNumber := is_messageNumber t + 1\<rparr> \<and>
      concat cs = report_byte e # concat (map enc zs) \<and>
      (\<forall>c \<in> set (butlast cs). length c = 510) \<and> length (last cs) \<le> 510"
proof -
  have d: "THINGSET_STREAMING_MSG_SIZE - THINGSET_STREAMING_HEADER_SIZE = 510"
    by (simp add: THINGSET_STREAMING_MSG_SIZE_def THINGSET_STREAMING_HEADER_SIZE_def)
  obtain cs1 where "udp.streams t Z 2 s cs1 ([report_byte e] @ concat (map enc zs))"
    using udp.runs_streams [OF assms(1) udp_init_streams [OF assms(1,2)] _ assms(4)] assms(3) d by auto
  from udp.flush_streams [OF assms(1) this assms(5)] show ?thesis
    by (auto simp: udp_fin_def d)
qed

definition pad_bytes :: "nat \<Rightarrow> u8 list" where "pad_bytes n = replicate n 9"

lemma length_pad_bytes [simp]: "length (pad_bytes n) = n"
  by (simp add: pad_bytes_def)

definition wit_ip :: ip_server where
  "wit_ip = \<lparr>is_messageNumber = 3, is_port = Some 9, is_sent = []\<rparr>"

definition wit_udp_calls :: "zcall list" where
  "wit_udp_calls = [Zu32 7, Zmap_start 1, Zu32 0x300, Zbstr (pad_bytes 506), Zu32 9, Zbackup_end]"

definition wit_udp_end :: "(nat \<times> nat) udp_stream" where
  "wit_udp_end = snd (runs (guarded (udp_ensure model_zcbor (\<lambda>_ _. True)) (stream_call model_zcbor)) wit_udp_calls
     (udp_encoder model_zcbor (pad_bytes 1024) False wit_ip))"

text \<open>With a bound socket and a kernel that takes everything, a write succeeds.\<close>

lemma ip_publish_facts:
  "is_port t = Some 9 \<Longrightarrow> fst (ip_publish (\<lambda>_ _. True) n b t)"
  "is_port (snd (snd (ip_publish a n b t))) = is_port t" "length (fst (snd (ip_publish a n b t))) = length b"
  by (simp_all add: ip_publish_def Let_def del: ip_message_type_val.simps split: option.split)

lemma udp_write_succeeds:
  "is_port (ux_transport (st_x s)) = Some 9 \<Longrightarrow> fst (udp_write (\<lambda>_ _. True) n fl s)"
  "is_port (ux_transport (st_x (snd (udp_write a n fl s)))) = is_port (ux_transport (st_x s))"
  "st_z (snd (udp_write a n fl s)) = st_z s" "st_exported (snd (udp_write a n fl s)) = st_exported s"
  "length (st_buf (snd (udp_write a n fl s))) = length (st_buf s)"
  by (simp_all add: udp_write_def Let_def case_prod_beta ip_publish_facts del: ip_message_type_val.simps)

definition udp_ready :: "nat \<Rightarrow> (nat \<times> nat) udp_stream \<Rightarrow> bool" where
  "udp_ready m s \<longleftrightarrow> fst (st_z s) \<le> m \<and> 1024 \<le> snd (st_z s) \<and> length (st_buf s) = 1024 \<and>
     is_port (ux_transport (st_x s)) = Some 9"

lemmas udp_sizes = THINGSET_STREAMING_MSG_SIZE_def THINGSET_STREAMING_HEADER_SIZE_def

lemma udp_ensure_ready:
  assumes "udp_ready 1022 s"
  shows "\<exists>s'. udp_ensure model_zcbor (\<lambda>_ _. True) s = (True, s') \<and> udp_ready 512 s'"
proof -
  have "fst (udp_ensure model_zcbor (\<lambda>_ _. True) s) \<and> udp_ready 512 (snd (udp_ensure model_zcbor (\<lambda>_ _. True) s))"
    using assms by (cases "fst (st_z s) - 2 > 510")
      (auto simp: writeIfNecessary_def stream_pos_def model_zcbor_def udp_sizes udp_ready_def Let_def
        case_prod_beta length_memmove udp_write_succeeds)
  then show ?thesis by (metis prod.collapse)
qed

lemma udp_call_ready:
  assumes "udp_ready 512 s" "length (cbor_enc c) \<le> 510"
  shows "\<exists>s'. stream_call model_zcbor c s = (True, s') \<and> udp_ready 1022 s'"
proof -
  obtain p n where z: "st_z s = (p, n)" by force
  with assms show ?thesis by (auto simp: udp_ready_def stream_call_def model_zcbor_def length_overwrite)
qed

lemma udp_runs_ready:
  "udp_ready 1022 s \<Longrightarrow> \<forall>c \<in> set zs. length (cbor_enc c) \<le> 510 \<Longrightarrow>
   \<exists>s'. runs (guarded (udp_ensure model_zcbor (\<lambda>_ _. True)) (stream_call model_zcbor)) zs s = (True, s') \<and>
     udp_ready 1022 s'"
proof (induction zs arbitrary: s)
  case (Cons c zs)
  obtain s1 where s1: "udp_ensure model_zcbor (\<lambda>_ _. True) s = (True, s1)" "udp_ready 512 s1"
    using udp_ensure_ready [OF Cons.prems(1)] by blast
  obtain s2 where s2: "stream_call model_zcbor c s1 = (True, s2)" "udp_ready 1022 s2"
    using udp_call_ready [OF s1(2)] Cons.prems(2) by auto
  from Cons.IH [OF s2(2)] Cons.prems(2) s1(1) s2(1) show ?case by (simp add: runs_Cons guarded_def)
qed simp

lemma udp_flush_ready:
  assumes "udp_ready 1022 s"
  shows "fst (udp_flush model_zcbor (\<lambda>_ _. True) s)"
proof -
  obtain s1 where s1: "udp_ensure model_zcbor (\<lambda>_ _. True) s = (True, s1)" "udp_ready 512 s1"
    using udp_ensure_ready [OF assms] by blast
  then show ?thesis
    using assms by (auto simp: stream_flush_def Let_def case_prod_beta udp_ready_def udp_write_succeeds)
qed

lemma wit_udp_run:
  "fst (runs (guarded (udp_ensure model_zcbor (\<lambda>_ _. True)) (stream_call model_zcbor)) wit_udp_calls
     (udp_encoder model_zcbor (pad_bytes 1024) False wit_ip))"
  "fst (udp_flush model_zcbor (\<lambda>_ _. True) wit_udp_end)"
proof -
  have "udp_ready 1022 (udp_encoder model_zcbor (pad_bytes 1024) False wit_ip)"
    by (simp add: udp_ready_def udp_encoder_def model_zcbor_def wit_ip_def)
  then obtain s where "runs (guarded (udp_ensure model_zcbor (\<lambda>_ _. True)) (stream_call model_zcbor)) wit_udp_calls
     (udp_encoder model_zcbor (pad_bytes 1024) False wit_ip) = (True, s)" "udp_ready 1022 s"
    using udp_runs_ready [of _ wit_udp_calls] by (fastforce simp: wit_udp_calls_def cbor_head_def)
  then show "fst (runs (guarded (udp_ensure model_zcbor (\<lambda>_ _. True)) (stream_call model_zcbor)) wit_udp_calls
     (udp_encoder model_zcbor (pad_bytes 1024) False wit_ip))"
    "fst (udp_flush model_zcbor (\<lambda>_ _. True) wit_udp_end)"
    by (simp_all add: wit_udp_end_def udp_flush_ready)
qed

theorem udp_report_datagrams_witness:
  "\<exists>cs. ux_transport (st_x (snd (udp_flush model_zcbor (\<lambda>_ _. True) wit_udp_end))) =
      wit_ip\<lparr>is_sent := closed_report (udp_part 3) cs, is_messageNumber := 4\<rparr> \<and>
    concat cs = 0x1f # concat (map cbor_enc wit_udp_calls) \<and>
    (\<forall>c \<in> set (butlast cs). length c = 510) \<and> length (last cs) \<le> 510"
  using udp_report_datagrams [OF model_zcbor_appends, where junk = "pad_bytes 1024" and zs = wit_udp_calls
      and e = False and t = wit_ip and accept = "\<lambda>_ _. True" and s = wit_udp_end
      and s' = "snd (udp_flush model_zcbor (\<lambda>_ _. True) wit_udp_end)"]
    wit_udp_run
  by (simp add: prod_eq_iff wit_udp_end_def THINGSET_STREAMING_MSG_SIZE_def wit_udp_calls_def cbor_head_def
      wit_ip_def report_byte_def)

end
