(* ===== verification/Subscription.thy ===== *)
theory Subscription imports Streaming begin

text \<open>
  The receiving side of reports: include/thingset++/ThingSetSubscriptionTransport.hpp,
  StreamingQueuingThingSetBinaryDecoder.hpp over StreamingThingSetBinaryDecoder.hpp, and the message
  formats of CAN (can/StreamingCanThingSetBinaryDecoder.hpp, can/ThingSetCanSubscriptionTransport.hpp)
  and UDP (src/ip/StreamingUdpThingSetBinaryDecoder.cpp). A listener keeps one decoder per sender; a
  decoder queues the frames of a report and, when the report is complete, is handed to the callback.
  The decoder reads through a window of two chunks that it refills from the queue. The locale
  \<open>report_format\<close> states what the decoder needs of a message format; CAN and UDP are interpreted.
\<close>

subsection \<open>The streaming decoder\<close>

text \<open>
  zcbor is a parameter: of a decode state the code uses the payload pointer and the two functions that
  point it somewhere, for a number of bytes.
\<close>

record 'd zdecoder =
  zd_payload :: "'d \<Rightarrow> nat"
  zd_new :: "nat \<Rightarrow> nat \<Rightarrow> nat \<Rightarrow> 'd"
  zd_update :: "nat \<Rightarrow> nat \<Rightarrow> 'd \<Rightarrow> 'd"

definition zd_points :: "'d zdecoder \<Rightarrow> bool" where
  "zd_points D \<longleftrightarrow> (\<forall>p n k. zd_payload D (zd_new D p n k) = p) \<and> (\<forall>p n z. zd_payload D (zd_update D p n z) = p)"

text \<open>A message format: its type tests and \<open>getBuffer\<close>, the bytes and the length it reports.\<close>

record 'm msg_ops =
  m_first :: "'m \<Rightarrow> bool"
  m_single :: "'m \<Rightarrow> bool"
  m_last :: "'m \<Rightarrow> bool"
  m_bytes :: "'m \<Rightarrow> u8 list"
  m_length :: "'m \<Rightarrow> nat"

record ('d, 'm) sdec =
  sd_z :: 'd
  sd_buf :: "u8 list"
  sd_decoded :: nat
  sd_queue :: "'m list"

definition size_add :: "nat \<Rightarrow> nat \<Rightarrow> nat" where
  "size_add a b = (a + b) mod 2 ^ 64"

fun read_loop :: "'m msg_ops \<Rightarrow> nat \<Rightarrow> nat \<Rightarrow> u8 list \<Rightarrow> 'm list \<Rightarrow> nat \<times> u8 list \<times> 'm list" where
  "read_loop M maxSize pos buf [] = (pos, buf, [])"
| "read_loop M maxSize pos buf (m # q) =
    (if pos \<le> maxSize \<and> size_add pos (m_length M m) \<le> maxSize
     then read_loop M maxSize (size_add pos (m_length M m)) (overwrite buf pos (m_bytes M m)) q
     else (pos, buf, m # q))"

definition dec_read :: "'m msg_ops \<Rightarrow> nat \<Rightarrow> nat \<Rightarrow> ('d, 'm) sdec \<Rightarrow> nat \<times> ('d, 'm) sdec" where
  "dec_read M pos maxSize s =
    (if sd_queue s = [] then (0, s)
     else let (p, b, q) = read_loop M maxSize pos (sd_buf s) (sd_queue s)
          in (p, s\<lparr>sd_buf := b, sd_queue := q\<rparr>))"

definition sdec_make :: "'d zdecoder \<Rightarrow> u8 list \<Rightarrow> ('d, 'm) sdec" where
  "sdec_make D junk = \<lparr>sd_z = zd_new D 0 (length junk) 2, sd_buf = junk, sd_decoded = 0, sd_queue = []\<rparr>"

definition enqueue :: "'d zdecoder \<Rightarrow> 'm msg_ops \<Rightarrow> nat \<Rightarrow> 'm \<Rightarrow> ('d, 'm) sdec \<Rightarrow> bool \<times> ('d, 'm) sdec" where
  "enqueue D M Size m s =
    (let s1 = s\<lparr>sd_queue := sd_queue s @ [m]\<rparr> in
     if m_single M m \<or> m_last M m
     then (let (n, s2) = dec_read M 0 (Size * 2) s1
           in (True, s2\<lparr>sd_z := zd_new D 1 (length (sd_buf s2) - 1) 2\<rparr>))
     else (False, s1))"

definition ensureLength :: "'d zdecoder \<Rightarrow> 'm msg_ops \<Rightarrow> nat \<Rightarrow> nat \<Rightarrow> ('d, 'm) sdec \<Rightarrow> ('d, 'm) sdec" where
  "ensureLength D M Size h s =
    (let currentPos = zd_payload D (sd_z s); dataSize = Size - h in
     if currentPos > dataSize
     then (let s1 = s\<lparr>sd_buf := memmove (sd_buf s) 0 dataSize dataSize, sd_decoded := sd_decoded s + dataSize\<rparr>;
               (readSize, s2) = dec_read M dataSize (Size * 2) s1;
               newPos = currentPos - dataSize
           in s2\<lparr>sd_z := zd_update D newPos (dataSize + readSize - newPos) (sd_z s2)\<rparr>)
     else s)"

subsection \<open>The subscription listener\<close>

text \<open>
  The map from sender to decoder, and the callback, which may read from the decoder and change the
  state \<open>'w\<close> of the subscriber. A first or single frame starts a new decoder; any other frame of a
  sender without one is dropped.
\<close>

type_synonym ('i, 'd, 'm, 'w) sub_callback = "'i \<Rightarrow> ('d, 'm) sdec \<Rightarrow> 'w \<Rightarrow> ('d, 'm) sdec \<times> 'w"

definition sub_handle ::
  "'d zdecoder \<Rightarrow> 'm msg_ops \<Rightarrow> nat \<Rightarrow> u8 list \<Rightarrow> ('i, 'd, 'm, 'w) sub_callback \<Rightarrow> 'm \<Rightarrow> 'i \<Rightarrow> 'k \<Rightarrow>
   ('k \<rightharpoonup> ('d, 'm) sdec) \<times> 'w \<Rightarrow> ('k \<rightharpoonup> ('d, 'm) sdec) \<times> 'w" where
  "sub_handle D M Size junk callback frame ident key mw =
    (let (decs, w) = mw;
         decs1 = (if m_first M frame \<or> m_single M frame then decs(key \<mapsto> sdec_make D junk) else decs)
     in case decs1 key of
          None \<Rightarrow> (decs1, w)
        | Some dec \<Rightarrow>
          (let (ready, dec1) = enqueue D M Size frame dec in
           if ready then let (dec2, w1) = callback ident dec1 w in (decs1(key \<mapsto> dec2), w1)
           else (decs1(key \<mapsto> dec1), w)))"

text \<open>The CAN listener thread: its frames, in the order the socket delivers them.\<close>

definition can_msg_ops :: "frame msg_ops" where
  "can_msg_ops = \<lparr>
     m_first = \<lambda>f. getMultiFrameMessageType (frame_getId f) = mf_type_val mf_first,
     m_single = \<lambda>f. getMultiFrameMessageType (frame_getId f) = mf_type_val mf_single,
     m_last = \<lambda>f. getMultiFrameMessageType (frame_getId f) = mf_type_val mf_last,
     m_bytes = fr_data, m_length = \<lambda>f. length (fr_data f)\<rparr>"

definition can_listener_step where
  "can_listener_step D junk callback f =
    sub_handle D can_msg_ops CANFD_MAX_DLEN junk callback f (frame_getId f) (getSource (frame_getId f))"

text \<open>
  The UDP listener thread: a datagram is received into a buffer of 512 bytes, so a longer one is cut;
  the length is a size_t, so that of a datagram shorter than its header wraps around.
\<close>

definition udp_msg_ops :: "u8 list msg_ops" where
  "udp_msg_ops = (let ty = (\<lambda>b. b ! 0 AND 0xF0) in \<lparr>
     m_first = \<lambda>b. ty b = ip_message_type_val ip_first,
     m_single = \<lambda>b. ty b = ip_message_type_val ip_single,
     m_last = \<lambda>b. ty b = ip_message_type_val ip_last,
     m_bytes = drop THINGSET_STREAMING_HEADER_SIZE,
     m_length = \<lambda>b. if 2 \<le> length b then length b - 2 else 2 ^ 64 + length b - 2\<rparr>)"

definition udp_listener_step where
  "udp_listener_step D junk callback src datagram =
    sub_handle D udp_msg_ops THINGSET_STREAMING_MSG_SIZE junk callback
      (take THINGSET_STREAMING_MSG_SIZE datagram) src (fst src)"

subsection \<open>Senders do not disturb each other\<close>

lemma sub_handle_other: "k \<noteq> key \<Longrightarrow> fst (sub_handle D M Size junk cb f i key (decs, w)) k = decs k"
  by (auto simp: sub_handle_def Let_def split: option.split prod.split)

text \<open>A subscriber that only records what it is given.\<close>

definition observer :: "('i, 'd, 'm, ('i \<times> ('d, 'm) sdec) list) sub_callback" where
  "observer i dec w = (dec, w @ [(i, dec)])"

definition deliver :: "'d zdecoder \<Rightarrow> 'm msg_ops \<Rightarrow> nat \<Rightarrow> u8 list \<Rightarrow> ('i \<Rightarrow> 'k) \<Rightarrow> ('m \<times> 'i) list \<Rightarrow>
   ('k \<rightharpoonup> ('d, 'm) sdec) \<times> ('i \<times> ('d, 'm) sdec) list \<Rightarrow> ('k \<rightharpoonup> ('d, 'm) sdec) \<times> ('i \<times> ('d, 'm) sdec) list" where
  "deliver D M Size junk key evs st =
    fold (\<lambda>(f, i). sub_handle D M Size junk observer f i (key i)) evs st"

subsection \<open>What a message format promises\<close>

text \<open>
  The chunks of a report as a writer makes them: full ones and a last one. Where there are more
  than two, the last must be longer than twice the header, or the window cannot be shifted past it.
\<close>

definition chunks_ok :: "nat \<Rightarrow> nat \<Rightarrow> u8 list list \<Rightarrow> bool" where
  "chunks_ok Size h cs \<longleftrightarrow> cs \<noteq> [] \<and> (\<forall>c \<in> set (butlast cs). length c = Size - h) \<and> length (last cs) \<le> Size - h \<and>
     (2 < length cs \<longrightarrow> 2 * h < length (last cs))"

text \<open>\<open>queued M q qs\<close>: the queue carries the chunks qs. \<open>tail_ok\<close> is what a queue behind a full window has.\<close>

definition queued :: "'m msg_ops \<Rightarrow> 'm list \<Rightarrow> u8 list list \<Rightarrow> bool" where
  "queued M q qs \<longleftrightarrow> map (m_bytes M) q = qs \<and> map (m_length M) q = map length qs"

fun tail_ok :: "nat \<Rightarrow> nat \<Rightarrow> u8 list list \<Rightarrow> bool" where
  "tail_ok Size h [] = True"
| "tail_ok Size h [c] = (2 * h < length c \<and> length c \<le> Size - h)"
| "tail_ok Size h (c # cs) = (length c = Size - h \<and> tail_ok Size h cs)"

text \<open>\<open>holds M Size h s bs\<close>: the window and the queue together are the rest of the report bs.\<close>

definition holds :: "'m msg_ops \<Rightarrow> nat \<Rightarrow> nat \<Rightarrow> ('d, 'm) sdec \<Rightarrow> u8 list \<Rightarrow> bool" where
  "holds M Size h s bs \<longleftrightarrow> length (sd_buf s) = 2 * Size \<and>
     (\<exists>v qs. v \<le> 2 * (Size - h) \<and> (qs \<noteq> [] \<longrightarrow> v = 2 * (Size - h)) \<and> queued M (sd_queue s) qs \<and> tail_ok Size h qs \<and>
        take v (sd_buf s) @ concat qs = drop (sd_decoded s) bs)"

text \<open>A decoder that has the first n messages of a report, and one that has it all and is at its first item.\<close>

definition pending :: "(nat \<Rightarrow> bool \<Rightarrow> u8 list \<Rightarrow> 'm) \<Rightarrow> nat \<Rightarrow> u8 list list \<Rightarrow> nat \<Rightarrow> ('d, 'm) sdec \<Rightarrow> bool" where
  "pending part Size cs n s \<longleftrightarrow> sd_queue s = map (\<lambda>i. part i False (cs ! i)) [0..<n] \<and> sd_decoded s = 0 \<and>
     length (sd_buf s) = 2 * Size"

definition complete :: "'d zdecoder \<Rightarrow> 'm msg_ops \<Rightarrow> nat \<Rightarrow> nat \<Rightarrow> u8 list \<Rightarrow> ('d, 'm) sdec \<Rightarrow> bool" where
  "complete D M Size h bs s \<longleftrightarrow> holds M Size h s bs \<and> sd_decoded s = 0 \<and> zd_payload D (sd_z s) = 1"

text \<open>Reading: zcbor asks for its state, which may shift the window, and moves its pointer.\<close>

definition reads :: "'d zdecoder \<Rightarrow> 'm msg_ops \<Rightarrow> nat \<Rightarrow> nat \<Rightarrow> 'd list \<Rightarrow> ('d, 'm) sdec \<Rightarrow> ('d, 'm) sdec" where
  "reads D M Size h zs s = fold (\<lambda>z s. (ensureLength D M Size h s)\<lparr>sd_z := z\<rparr>) zs s"

text \<open>
  \<open>part i final c\<close> is the i-th message of a report, carrying c. The format recognises the first and the
  last message and gives back the payload.
\<close>

locale report_format =
  fixes M :: "'m msg_ops" and Size h :: nat and part :: "nat \<Rightarrow> bool \<Rightarrow> u8 list \<Rightarrow> 'm"
  assumes header: "2 * h < Size - h" and small: "Size * 4 < 2 ^ 64"
    and starts: "(m_first M (part i fl c) \<or> m_single M (part i fl c)) \<longleftrightarrow> i = 0"
    and ends: "(m_single M (part i fl c) \<or> m_last M (part i fl c)) \<longleftrightarrow> fl"
    and bytes: "m_bytes M (part i fl c) = c" and len: "m_length M (part i fl c) = length c"
begin

lemma queued_simps [simp]:
  "queued M [] qs \<longleftrightarrow> qs = []" "queued M q [] \<longleftrightarrow> q = []"
  "queued M (m # q) (c # qs) \<longleftrightarrow> m_bytes M m = c \<and> m_length M m = length c \<and> queued M q qs"
  by (auto simp: queued_def)

lemma queued_ConsE:
  assumes "queued M q (c # qs)"
  obtains m q' where "q = m # q'" "m_bytes M m = c" "m_length M m = length c" "queued M q' qs"
  using assms by (cases q) auto

lemma size_add_small: "a \<le> 2 * Size \<Longrightarrow> b \<le> 2 * Size \<Longrightarrow> size_add a b = a + b"
  using small by (simp add: size_add_def)

lemma tail_ok_head: "tail_ok Size h (c # cs) \<Longrightarrow> 2 * h < length c \<and> length c \<le> Size - h \<and> (cs \<noteq> [] \<longrightarrow> length c = Size - h) \<and> tail_ok Size h cs"
  using header by (cases cs) auto

text \<open>A full window takes nothing more.\<close>

lemma read_full:
  assumes "queued M q qs" "tail_ok Size h qs"
  shows "read_loop M (Size * 2) (2 * (Size - h)) buf q = (2 * (Size - h), buf, q)"
proof (cases qs)
  case (Cons c cs)
  with assms(1) have "queued M q (c # cs)" by simp
  then obtain m q' where q: "q = m # q'" "m_length M m = length c" by (rule queued_ConsE)
  have "2 * h < length c" "length c \<le> Size - h" using tail_ok_head [of c cs] assms(2) Cons by auto
  then have "size_add (2 * (Size - h)) (length c) > Size * 2"
    using header by (simp add: size_add_small)
  with q show ?thesis by simp
qed (use assms in simp)

lemma read_one:
  assumes "queued M q (c # qs)" "tail_ok Size h (c # qs)" "p \<le> Size - h" "qs \<noteq> [] \<Longrightarrow> p = Size - h"
  shows "\<exists>q'. read_loop M (Size * 2) p buf q = (p + length c, overwrite buf p c, q') \<and> queued M q' qs"
proof -
  from assms(1) obtain m q' where q: "q = m # q'" "m_bytes M m = c" "m_length M m = length c" "queued M q' qs"
    by (rule queued_ConsE)
  have l: "length c \<le> Size - h" "qs \<noteq> [] \<longrightarrow> length c = Size - h" "tail_ok Size h qs" using tail_ok_head [OF assms(2)] by auto
  then have a: "size_add p (length c) = p + length c" using assms(3) by (simp add: size_add_small)
  have le: "p \<le> Size * 2" "p + length c \<le> Size * 2" using assms(3) l by auto
  show ?thesis
  proof (cases "qs = []")
    case True
    with q a le show ?thesis by simp
  next
    case False
    with l assms(4) have e: "p + length c = 2 * (Size - h)" by simp
    with read_full [OF q(4) l(3), of "overwrite buf p c"] q a le show ?thesis by simp
  qed
qed

lemma memmove_shift:
  assumes "length buf = 2 * Size"
  shows "length (memmove buf 0 (Size - h) (Size - h)) = 2 * Size"
    "k \<le> Size - h \<Longrightarrow> take k (memmove buf 0 (Size - h) (Size - h)) = take k (drop (Size - h) buf)"
  using assms take_memmove [of 0 "Size - h" buf "Size - h" k] by (simp_all add: length_memmove)

lemma ensureLength_holds:
  assumes D: "zd_points D" and s: "holds M Size h s bs"
  shows "holds M Size h (ensureLength D M Size h s) bs \<and>
    sd_decoded (ensureLength D M Size h s) + zd_payload D (sd_z (ensureLength D M Size h s)) =
      sd_decoded s + zd_payload D (sd_z s)"
proof (cases "zd_payload D (sd_z s) > Size - h")
  case False
  then show ?thesis using s by (simp add: ensureLength_def)
next
  case True
  define d where "d = Size - h"
  define b where "b = memmove (sd_buf s) 0 d d"
  obtain v qs where w: "length (sd_buf s) = 2 * Size" "v \<le> 2 * d" "qs \<noteq> [] \<longrightarrow> v = 2 * d" "queued M (sd_queue s) qs"
    "tail_ok Size h qs" "take v (sd_buf s) @ concat qs = drop (sd_decoded s) bs"
    using s by (auto simp: holds_def d_def)
  have lb: "length b = 2 * Size" and tb: "\<And>k. k \<le> d \<Longrightarrow> take k b = take k (drop d (sd_buf s))"
    using memmove_shift [OF w(1)] by (simp_all add: b_def d_def)
  have dd: "drop (sd_decoded s + d) bs = drop d (take v (sd_buf s) @ concat qs)"
    by (simp add: w(6) add.commute)
  have dS: "d \<le> Size" "2 * d \<le> 2 * Size" by (simp_all add: d_def)
  let ?s1 = "s\<lparr>sd_buf := b, sd_decoded := sd_decoded s + d\<rparr>"
  obtain n s2 where r: "dec_read M d (Size * 2) ?s1 = (n, s2)" by force
  have e: "ensureLength D M Size h s = s2\<lparr>sd_z := zd_update D (zd_payload D (sd_z s) - d)
      (d + n - (zd_payload D (sd_z s) - d)) (sd_z s2)\<rparr>"
    using True r by (simp add: ensureLength_def Let_def d_def b_def)
  have "holds M Size h s2 bs \<and> sd_decoded s2 = sd_decoded s + d"
  proof (cases qs)
    case Nil
    with w r have s2: "s2 = ?s1" "sd_queue s = []" by (auto simp: dec_read_def)
    have "take (v - d) b = drop d (take v (sd_buf s))"
      using w(2) tb [of "v - d"] by (simp add: drop_take)
    then show ?thesis
      using w lb dd Nil s2 by (auto simp: holds_def d_def intro!: exI [of _ "v - (Size - h)"])
  next
    case (Cons c cs)
    have v: "v = 2 * d" using w(3) Cons by simp
    have ok: "tail_ok Size h (c # cs)" "queued M (sd_queue s) (c # cs)" using w(4,5) Cons by auto
    obtain q' where q': "read_loop M (Size * 2) d b (sd_queue s) = (d + length c, overwrite b d c, q')" "queued M q' cs"
      using read_one [OF ok(2,1), of d b] by (auto simp: d_def)
    have "sd_queue s \<noteq> []" using ok(2) by auto
    with r q'(1) have s2: "s2 = ?s1\<lparr>sd_buf := overwrite b d c, sd_queue := q'\<rparr>"
      by (simp add: dec_read_def)
    have lc: "length c \<le> d" "cs \<noteq> [] \<longrightarrow> length c = d" "tail_ok Size h cs" using tail_ok_head [OF ok(1)] by (auto simp: d_def)
    have "take (d + length c) (overwrite b d c) = take d (drop d (sd_buf s)) @ c"
      using lb dS tb [of d] by (simp add: take_overwrite_all)
    moreover have "drop d (take v (sd_buf s) @ concat qs) = take d (drop d (sd_buf s)) @ c @ concat cs"
      using w(1) dS by (simp add: v Cons drop_take)
    moreover have "length (overwrite b d c) = 2 * Size" using lb lc dS by (simp add: length_overwrite)
    ultimately show ?thesis
      using lc q' dd by (auto simp: holds_def s2 d_def intro!: exI [of _ "Size - h + length c"] exI [of _ cs])
  qed
  moreover have "holds M Size h (s2\<lparr>sd_z := z\<rparr>) bs = holds M Size h s2 bs" for z by (simp add: holds_def)
  ultimately show ?thesis using D True by (simp add: e zd_points_def d_def)
qed

text \<open>The first filling of the window, when the last message of a report arrives.\<close>

lemma tail_okI:
  assumes "cs \<noteq> []" "\<forall>c \<in> set (butlast cs). length c = Size - h" "2 * h < length (last cs)" "length (last cs) \<le> Size - h"
  shows "tail_ok Size h cs"
  using assms by (induction cs rule: tail_ok.induct) auto

lemma read_single:
  "queued M q [c] \<Longrightarrow> p \<le> Size - h \<Longrightarrow> length c \<le> Size - h \<Longrightarrow>
   read_loop M (Size * 2) p buf q = (p + length c, overwrite buf p c, [])"
  by (elim queued_ConsE) (auto simp: size_add_small)

lemma read_first:
  assumes q: "queued M q cs" and cs: "chunks_ok Size h cs" and b: "length buf = 2 * Size"
  shows "\<exists>v buf' q' qs. read_loop M (Size * 2) 0 buf q = (v, buf', q') \<and> v \<le> 2 * (Size - h) \<and>
    (qs \<noteq> [] \<longrightarrow> v = 2 * (Size - h)) \<and> queued M q' qs \<and> tail_ok Size h qs \<and> length buf' = 2 * Size \<and>
    take v buf' @ concat qs = concat cs"
proof -
  define d where "d = Size - h"
  have dS: "d \<le> Size" by (simp add: d_def)
  obtain c cs1 where c: "cs = c # cs1" using cs by (cases cs) (auto simp: chunks_ok_def)
  show ?thesis
  proof (cases cs1)
    case Nil
    with cs c have l: "length c \<le> d" by (simp add: chunks_ok_def d_def)
    with q c Nil have "read_loop M (Size * 2) 0 buf q = (length c, overwrite buf 0 c, [])"
      using read_single [of q c 0 buf] by (simp add: d_def)
    moreover have "take (length c) (overwrite buf 0 c) = c" "length (overwrite buf 0 c) = 2 * Size"
      using b l dS by (auto simp: overwrite_def)
    ultimately show ?thesis using l c Nil by (auto simp: d_def intro!: exI [of _ "[]"])
  next
    case (Cons c2 cs2)
    with cs c have l: "length c = d" by (simp add: chunks_ok_def d_def)
    obtain m q1 where m: "q = m # q1" "m_bytes M m = c" "m_length M m = length c" "queued M q1 (c2 # cs2)"
      using q c Cons by (auto elim: queued_ConsE)
    have first: "read_loop M (Size * 2) 0 buf q = read_loop M (Size * 2) d (overwrite buf 0 c) q1"
      using m l dS by (simp add: size_add_small)
    have "length c2 \<le> d" "\<exists>q'. read_loop M (Size * 2) d (overwrite buf 0 c) q1 =
        (d + length c2, overwrite (overwrite buf 0 c) d c2, q') \<and> queued M q' cs2" "tail_ok Size h cs2" "cs2 \<noteq> [] \<longrightarrow> length c2 = d"
    proof -
      have "length c2 \<le> d \<and> (\<exists>q'. read_loop M (Size * 2) d (overwrite buf 0 c) q1 =
          (d + length c2, overwrite (overwrite buf 0 c) d c2, q') \<and> queued M q' cs2) \<and> tail_ok Size h cs2 \<and>
          (cs2 \<noteq> [] \<longrightarrow> length c2 = d)"
      proof (cases "cs2 = []")
        case True
        with cs c Cons have "length c2 \<le> d" by (simp add: chunks_ok_def d_def)
        with True m(4) read_single [of q1 c2 d "overwrite buf 0 c"] show ?thesis by (simp add: d_def)
      next
        case False
        then have "tail_ok Size h (c2 # cs2)"
          using cs c Cons by (intro tail_okI) (auto simp: chunks_ok_def split: if_splits)
        from tail_ok_head [OF this] read_one [OF m(4) this, of d "overwrite buf 0 c"] False
        show ?thesis by (auto simp: d_def)
      qed
      then show "length c2 \<le> d" "\<exists>q'. read_loop M (Size * 2) d (overwrite buf 0 c) q1 =
        (d + length c2, overwrite (overwrite buf 0 c) d c2, q') \<and> queued M q' cs2" "tail_ok Size h cs2" "cs2 \<noteq> [] \<longrightarrow> length c2 = d"
        by auto
    qed
    then obtain q' where r: "length c2 \<le> d" "read_loop M (Size * 2) d (overwrite buf 0 c) q1 =
        (d + length c2, overwrite (overwrite buf 0 c) d c2, q')" "queued M q' cs2" "tail_ok Size h cs2" "cs2 \<noteq> [] \<longrightarrow> length c2 = d"
      by auto
    have lb: "length (overwrite buf 0 c) = 2 * Size" using b l dS by (simp add: length_overwrite)
    have "take (d + length c2) (overwrite (overwrite buf 0 c) d c2) = c @ c2"
      using lb dS l b by (simp add: take_overwrite_all) (simp add: overwrite_def)
    moreover have "length (overwrite (overwrite buf 0 c) d c2) = 2 * Size"
      using lb dS r(1) by (simp add: length_overwrite)
    ultimately show ?thesis
      using r first c Cons by (intro exI [of _ "d + length c2"] exI [of _ "overwrite (overwrite buf 0 c) d c2"]
        exI [of _ q'] exI [of _ cs2]) (auto simp: d_def)
  qed
qed

lemma enqueue_more:
  assumes "pending part Size cs n s"
  shows "\<exists>s'. enqueue D M Size (part n False (cs ! n)) s = (False, s') \<and> pending part Size cs (Suc n) s'"
  using assms by (auto simp: enqueue_def pending_def ends)

lemma enqueue_last:
  assumes D: "zd_points D" and s: "pending part Size cs n s" and n: "length cs = Suc n" and cs: "chunks_ok Size h cs"
  shows "\<exists>s'. enqueue D M Size (part n True (cs ! n)) s = (True, s') \<and> complete D M Size h (concat cs) s'"
proof -
  let ?q = "sd_queue s @ [part n True (cs ! n)]"
  have e: "map ((!) cs) [0..<n] @ [cs ! n] = cs"
    using n by (intro nth_equalityI) (auto simp: nth_append less_Suc_eq)
  have "map (m_bytes M) ?q = map ((!) cs) [0..<n] @ [cs ! n]"
    "map (m_length M) ?q = map length (map ((!) cs) [0..<n] @ [cs ! n])"
    using s by (simp_all add: pending_def bytes len comp_def)
  then have q: "queued M ?q cs" by (simp only: e queued_def)
  obtain v b' q' qs where r: "read_loop M (Size * 2) 0 (sd_buf s) ?q = (v, b', q')" "v \<le> 2 * (Size - h)"
    "qs \<noteq> [] \<longrightarrow> v = 2 * (Size - h)" "queued M q' qs" "tail_ok Size h qs" "length b' = 2 * Size" "take v b' @ concat qs = concat cs"
    using read_first [OF q cs, of "sd_buf s"] s by (auto simp: pending_def)
  have "m_single M (part n True (cs ! n)) \<or> m_last M (part n True (cs ! n))" using ends by blast
  then have "enqueue D M Size (part n True (cs ! n)) s = (True, s\<lparr>sd_queue := q', sd_buf := b',
      sd_z := zd_new D 1 (2 * Size - 1) 2\<rparr>)"
    using r by (simp add: enqueue_def dec_read_def)
  then show ?thesis
    using D r s by (auto simp: complete_def holds_def zd_points_def pending_def)
qed

lemma reads_holds: "zd_points D \<Longrightarrow> holds M Size h s bs \<Longrightarrow> holds M Size h (reads D M Size h zs s) bs"
proof (induction zs arbitrary: s)
  case (Cons z zs)
  have "holds M Size h ((ensureLength D M Size h s)\<lparr>sd_z := z\<rparr>) bs"
    using ensureLength_holds [OF Cons.prems] by (simp add: holds_def)
  from Cons.IH [OF Cons.prems(1) this] show ?case by (simp add: reads_def)
qed (simp add: reads_def)

subsection \<open>Delivery of a report among others\<close>

text \<open>One message of the sender: the decoder before it has the first n messages, or the message is the first.\<close>

lemma own_message:
  assumes "n = 0 \<or> (\<exists>s. decs k = Some s \<and> pending part Size cs n s)" "length junk = 2 * Size" "f = part n fl (cs ! n)"
  obtains s where "pending part Size cs n s" "sub_handle D M Size junk observer f i k (decs, w) =
      (let (ready, s1) = enqueue D M Size f s in (decs(k \<mapsto> s1), if ready then w @ [(i, s1)] else w))"
proof (cases "n = 0")
  case True
  show ?thesis
  proof (rule that [of "sdec_make D junk"])
    show "pending part Size cs n (sdec_make D junk)" using True assms(2) by (simp add: pending_def sdec_make_def)
  qed (use True starts assms(3) in \<open>simp add: sub_handle_def observer_def Let_def split: prod.split\<close>)
next
  case False
  with assms(1) obtain s where "decs k = Some s" "pending part Size cs n s" by auto
  then show ?thesis
    using False starts assms(3)
    by (intro that [of s]) (auto simp: sub_handle_def observer_def Let_def split: prod.split)
qed

lemma deliver_others:
  "\<forall>(f, i) \<in> set evs. key i \<noteq> k \<Longrightarrow>
   filter (\<lambda>(i, s). key i = k) (snd (deliver D M Size junk key evs (decs, w))) = filter (\<lambda>(i, s). key i = k) w"
proof (induction evs arbitrary: decs w)
  case (Cons e evs)
  obtain f i where e: "e = (f, i)" by force
  obtain decs1 w1 where h: "sub_handle D M Size junk observer f i (key i) (decs, w) = (decs1, w1)" by force
  then have "filter (\<lambda>(i, s). key i = k) w1 = filter (\<lambda>(i, s). key i = k) w"
    using Cons.prems e by (auto simp: sub_handle_def observer_def Let_def split: option.splits prod.splits if_splits)
  moreover have "filter (\<lambda>(i, s). key i = k) (snd (deliver D M Size junk key evs (decs1, w1))) =
    filter (\<lambda>(i, s). key i = k) w1" by (rule Cons.IH) (use Cons.prems in auto)
  ultimately show ?case using e h by (simp add: deliver_def)
qed (simp add: deliver_def)

lemma nth_closed: "n < length cs \<Longrightarrow> closed_report part cs ! n = part n (n = length cs - 1) (cs ! n)"
proof -
  assume n: "n < length cs"
  then have "n = length cs - 1 \<or> n < length cs - 1" "cs \<noteq> []" by auto
  then show ?thesis using n
    by (auto simp: closed_report_def open_report_def nth_append nth_butlast last_conv_nth)
qed

lemma length_closed: "cs \<noteq> [] \<Longrightarrow> length (closed_report part cs) = length cs"
  by (simp add: closed_report_def open_report_def)

lemma deliver_report:
  assumes D: "zd_points D" and cs: "chunks_ok Size h cs" and junk: "length junk = 2 * Size"
  shows "n = 0 \<or> (\<exists>s. decs k = Some s \<and> pending part Size cs n s) \<Longrightarrow> n < length cs \<Longrightarrow>
    map fst (filter (\<lambda>(f, i). key i = k) evs) = drop n (closed_report part cs) \<Longrightarrow>
    \<exists>i s. filter (\<lambda>(i, s). key i = k) (snd (deliver D M Size junk key evs (decs, w))) =
      filter (\<lambda>(i, s). key i = k) w @ [(i, s)] \<and> complete D M Size h (concat cs) s"
proof (induction evs arbitrary: n decs w)
  case Nil
  have "length (closed_report part cs) = length cs" using cs by (intro length_closed) (simp add: chunks_ok_def)
  with Nil show ?case by simp
next
  case (Cons e evs)
  obtain f i where e: "e = (f, i)" by force
  obtain decs1 w1 where h: "sub_handle D M Size junk observer f i (key i) (decs, w) = (decs1, w1)" by force
  have step: "deliver D M Size junk key (e # evs) (decs, w) = deliver D M Size junk key evs (decs1, w1)"
    by (simp add: deliver_def e h)
  show ?case
  proof (cases "key i = k")
    case False
    then have d: "decs1 k = decs k" using sub_handle_other [of k "key i" D M Size junk observer f i decs w] h by simp
    have w: "filter (\<lambda>(i, s). key i = k) w1 = filter (\<lambda>(i, s). key i = k) w"
      using deliver_others [of "[e]" key k D junk decs w] False e h by (simp add: deliver_def)
    have "n = 0 \<or> (\<exists>s. decs1 k = Some s \<and> pending part Size cs n s)" using Cons.prems(1) d by simp
    from Cons.IH [of n decs1 w1, OF this Cons.prems(2)] Cons.prems(3) False e w show ?thesis unfolding step by simp
  next
    case True
    have lc: "length (closed_report part cs) = length cs" using cs by (intro length_closed) (simp add: chunks_ok_def)
    have fs: "f = part n (n = length cs - 1) (cs ! n)"
      "map fst (filter (\<lambda>(f, i). key i = k) evs) = drop (Suc n) (closed_report part cs)"
      using Cons.prems(2,3) True e lc nth_closed [of n cs] by (auto simp: Cons_nth_drop_Suc [symmetric])
    obtain s where s: "pending part Size cs n s" "sub_handle D M Size junk observer f i k (decs, w) =
      (let (ready, s1) = enqueue D M Size f s in (decs(k \<mapsto> s1), if ready then w @ [(i, s1)] else w))"
      by (rule own_message [of n decs k cs junk f "n = length cs - 1" D i w, OF Cons.prems(1) junk fs(1)]) blast
    show ?thesis
    proof (cases "n = length cs - 1")
      case last: True
      then have "length cs = Suc n" using Cons.prems(2) by simp
      from enqueue_last [OF D s(1) this cs] obtain s1 where s1:
        "enqueue D M Size f s = (True, s1)" "complete D M Size h (concat cs) s1" using fs(1) last by auto
      then have w1: "w1 = w @ [(i, s1)]" using s(2) h True by simp
      have "map fst (filter (\<lambda>(f, i). key i = k) evs) = []" using fs(2) lc last Cons.prems(2) by simp
      then have "\<forall>(f, i) \<in> set evs. key i \<noteq> k" by (auto simp: filter_empty_conv)
      from deliver_others [OF this, of D junk decs1 w1] w1 True s1(2) show ?thesis unfolding step by simp
    next
      case False
      from enqueue_more [OF s(1)] obtain s1 where s1: "enqueue D M Size f s = (False, s1)" "pending part Size cs (Suc n) s1"
        using fs(1) False by auto
      then have "w1 = w" "decs1 k = Some s1" using s(2) h True by auto
      with Cons.IH [of "Suc n" decs1 w] s1(2) fs(2) False Cons.prems(2) show ?thesis unfolding step by simp
    qed
  qed
qed

end

subsection \<open>The two formats\<close>

lemma eff_valid_report_id: "eff_valid (report_id addr n i fl)"
  by (simp add: report_id_def)

lemma report_part_type:
  "getMultiFrameMessageType (frame_getId (report_part addr n i fl c)) = mf_type_val (part_type i fl)"
  using report_id_type [of addr n i fl] frame_id_roundtrip [OF eff_valid_report_id, of addr n i fl c]
  by (simp add: report_part_def getMultiFrameMessageType_def)

lemma report_part_data: "fr_data (report_part addr n i fl c) = c"
  by (simp add: report_part_def)

lemma report_part_source: "getSource (frame_getId (report_part addr n i fl c)) = addr"
proof -
  have "getSource (setMessageNumber n c) = getSource c" for c
    by (simp add: src.get_eq can_other_bits mask_disjoint)
  then have "getSource (report_id addr n i fl) = addr"
    by (simp add: report_id_def int_field_get_set)
  then show ?thesis
    using frame_id_roundtrip [OF eff_valid_report_id, of addr n i fl c] by (simp add: report_part_def getSource_def)
qed

interpretation can_format: report_format can_msg_ops CANFD_MAX_DLEN 0 "report_part addr n" for addr n :: u8
  by unfold_locales
    (auto simp: can_msg_ops_def CANFD_MAX_DLEN_def report_part_type part_type_def report_part_data
      simp del: mf_type_val.simps)

interpretation udp_format: report_format udp_msg_ops THINGSET_STREAMING_MSG_SIZE THINGSET_STREAMING_HEADER_SIZE
  "udp_part n" for n :: u8
  by unfold_locales
    (auto simp: udp_msg_ops_def udp_sizes udp_part_def ip_part_type_def Let_def udp_type_bits
      simp del: ip_message_type_val.simps)

subsection \<open>Reports arrive whole\<close>

lemma can_listener_deliver:
  "fold (can_listener_step D junk observer) fs st =
   deliver D can_msg_ops CANFD_MAX_DLEN junk getSource (map (\<lambda>f. (f, frame_getId f)) fs) st"
  by (induction fs arbitrary: st) (simp_all add: deliver_def can_listener_step_def)

lemma udp_listener_deliver:
  "fold (\<lambda>(src, b). udp_listener_step D junk observer src b) evs st =
   deliver D udp_msg_ops THINGSET_STREAMING_MSG_SIZE junk fst
     (map (\<lambda>(src, b). (take THINGSET_STREAMING_MSG_SIZE b, src)) evs) st"
  by (induction evs arbitrary: st) (auto simp: deliver_def udp_listener_step_def)



definition index_decoder :: "(nat \<times> nat) zdecoder" where
  "index_decoder = \<lparr>zd_payload = fst, zd_new = \<lambda>p n k. (p, n), zd_update = \<lambda>p n z. (p, n)\<rparr>"

lemma index_decoder_points: "zd_points index_decoder"
  by (simp add: zd_points_def index_decoder_def)

definition two_senders :: "frame list" where
  "two_senders = [report_part 5 3 0 False (pad_bytes 64), report_part 7 0 0 True [2], report_part 5 3 1 True [1]]"


definition udp_traffic :: "((nat \<times> nat) \<times> u8 list) list" where
  "udp_traffic = [((1, 9), udp_part 3 0 False (pad_bytes 510)), ((2, 9), udp_part 0 0 True [2]),
     ((1, 9), udp_part 3 1 True [1])]"


subsection \<open>Two faults of the window\<close>

text \<open>
  C32. The end of the payload after a refill. \<open>read\<close> returns the position behind the last byte it wrote,
  and \<open>ensureLength\<close> takes that for a number of bytes and adds it to the chunk before it: on CAN, when
  the window has been shifted and a frame of len bytes taken from the queue, zcbor is told that the
  payload ends at byte 128 + len of an array of 128 bytes, of which 64 + len are valid.
\<close>
theorem refill_runs_past_end:
  assumes "zd_points D" "length (sd_buf s) = 2 * CANFD_MAX_DLEN" "sd_queue s = [f]"
    and "0 < length (fr_data f)" "length (fr_data f) \<le> 64" "64 < zd_payload D (sd_z s)" "zd_payload D (sd_z s) \<le> 128"
  shows "\<exists>p n. sd_z (ensureLength D can_msg_ops CANFD_MAX_DLEN 0 s) = zd_update D p n (sd_z s) \<and>
    p + n = 128 + length (fr_data f) \<and> length (sd_buf s) < p + n"
proof -
  have "read_loop can_msg_ops 128 64 b [f] = (64 + length (fr_data f), overwrite b 64 (fr_data f), [])" for b
    using assms(5) by (simp add: can_msg_ops_def size_add_def)
  then show ?thesis
    using assms by (simp add: ensureLength_def dec_read_def CANFD_MAX_DLEN_def Let_def)
      (rule exI [of _ "zd_payload D (sd_z s) - 64"]; rule exI [of _ "64 + (64 + length (fr_data f)) - (zd_payload D (sd_z s) - 64)"]; simp)
qed

theorem refill_runs_past_end_witness:
  "\<exists>p n. sd_z (ensureLength index_decoder can_msg_ops CANFD_MAX_DLEN 0
      \<lparr>sd_z = (65, 63), sd_buf = pad_bytes 128, sd_decoded = 0, sd_queue = [report_part 5 3 2 True [7, 8]]\<rparr>) =
      (p, n) \<and> p + n = 130"
  using refill_runs_past_end [OF index_decoder_points, of
      "\<lparr>sd_z = (65, 63), sd_buf = pad_bytes 128, sd_decoded = 0, sd_queue = [report_part 5 3 2 True [7, 8]]\<rparr>"
      "report_part 5 3 2 True [7, 8]"]
  by (auto simp: index_decoder_def CANFD_MAX_DLEN_def report_part_data)

text \<open>
  The end of a UDP report can be lost. When the third datagram of a report carries at most four
  bytes, it still fits behind the first two in the window; but when the window is shifted only the
  second chunk moves to the front, and the decoder is told that the payload ends there: the last bytes
  of the report are never decoded.
\<close>
theorem udp_short_tail_lost:
  assumes "length c1 = 510" "length c2 = 510" "length c3 \<le> 4" "length junk = 2 * THINGSET_STREAMING_MSG_SIZE"
    and "d = snd (enqueue D udp_msg_ops THINGSET_STREAMING_MSG_SIZE (udp_part n 2 True c3)
       (snd (enqueue D udp_msg_ops THINGSET_STREAMING_MSG_SIZE (udp_part n 1 False c2)
         (snd (enqueue D udp_msg_ops THINGSET_STREAMING_MSG_SIZE (udp_part n 0 False c1) (sdec_make D junk))))))"
    and "510 < zd_payload D z"
  shows "take (1020 + length c3) (sd_buf d) = c1 @ c2 @ c3 \<and> sd_queue d = [] \<and>
    (let d' = ensureLength D udp_msg_ops THINGSET_STREAMING_MSG_SIZE THINGSET_STREAMING_HEADER_SIZE (d\<lparr>sd_z := z\<rparr>)
     in sd_queue d' = [] \<and> take 510 (sd_buf d') = c2 \<and>
        sd_z d' = zd_update D (zd_payload D z - 510) (510 - (zd_payload D z - 510)) z)"
proof -
  have types: "m_single udp_msg_ops (udp_part n i fl c) \<or> m_last udp_msg_ops (udp_part n i fl c) \<longleftrightarrow> fl"
    "m_bytes udp_msg_ops (udp_part n i fl c) = c" "m_length udp_msg_ops (udp_part n i fl c) = length c" for i fl c
    by (rule udp_format.ends udp_format.bytes udp_format.len)+
  let ?b = "overwrite (overwrite (overwrite junk 0 c1) 510 c2) 1020 c3"
  have loop: "read_loop udp_msg_ops 1024 0 junk [udp_part n 0 False c1, udp_part n 1 False c2, udp_part n 2 True c3] =
      (1020 + length c3, ?b, [])"
    using assms(1-3) by (simp add: types size_add_def)
  have d: "sd_buf d = ?b" "sd_queue d = []"
    using assms(4) loop by (simp_all add: assms(5) enqueue_def types sdec_make_def dec_read_def udp_sizes)
  have j: "length junk = 1024" using assms(4) by (simp add: udp_sizes)
  have t1: "take 510 (overwrite junk 0 c1) = c1" using assms(1) j by (simp add: overwrite_def)
  have l1: "length (overwrite junk 0 c1) = 1024" using assms(1) j by (simp add: length_overwrite)
  have t2: "take 1020 (overwrite (overwrite junk 0 c1) 510 c2) = c1 @ c2"
    using take_overwrite_all [of 510 "overwrite junk 0 c1" c2] t1 l1 assms(2) by simp
  have l2: "length (overwrite (overwrite junk 0 c1) 510 c2) = 1024"
    using assms(2) l1 by (simp add: length_overwrite)
  have t3: "take (1020 + length c3) ?b = c1 @ c2 @ c3"
    using take_overwrite_all [of 1020 "overwrite (overwrite junk 0 c1) 510 c2" c3] t2 l2 by simp
  have l3: "length ?b = 1024" using assms(3) l2 by (simp add: length_overwrite)
  have "take 1020 ?b = c1 @ c2" using t2 l2 by (simp add: take_overwrite_le)
  then have "drop 510 (take 1020 ?b) = c2" using assms(1) by simp
  then have "take 510 (drop 510 ?b) = c2" by (simp add: drop_take)
  then have "take 510 (memmove ?b 0 510 510) = c2" using take_memmove [of 0 510 ?b 510 510] l3 by simp
  with d t3 assms(6) show ?thesis by (simp add: ensureLength_def dec_read_def udp_sizes Let_def)
qed

theorem udp_short_tail_lost_witness:
  "let d = snd (enqueue index_decoder udp_msg_ops THINGSET_STREAMING_MSG_SIZE (udp_part 3 2 True [1, 2])
       (snd (enqueue index_decoder udp_msg_ops THINGSET_STREAMING_MSG_SIZE (udp_part 3 1 False (pad_bytes 510))
         (snd (enqueue index_decoder udp_msg_ops THINGSET_STREAMING_MSG_SIZE (udp_part 3 0 False (pad_bytes 510))
            (sdec_make index_decoder (pad_bytes 1024)))))))
   in sd_z (ensureLength index_decoder udp_msg_ops THINGSET_STREAMING_MSG_SIZE THINGSET_STREAMING_HEADER_SIZE
        (d\<lparr>sd_z := (1010, 14)\<rparr>)) = (500, 10)"
  unfolding Let_def
  using udp_short_tail_lost [OF length_pad_bytes length_pad_bytes _ _ refl, of "[1, 2]" "pad_bytes 1024" index_decoder "(1010, 14)" 3]
  by (simp add: Let_def udp_sizes index_decoder_def)

end
