(* ===== verification/Decoder.thy ===== *)
theory Decoder imports Encoder begin

text \<open>
  The decoder interface of include/thingset++/ThingSetDecoder.hpp and src/ThingSetDecoder.cpp. The pure
  virtual functions are the fields of \<open>decoder_ops\<close> over the state \<open>'d\<close> of the decoder; a decode
  function returns the value it read, or None where the code returns false. The functions built on
  them run callbacks that may change a state \<open>'w\<close> of their own. A result None of such a function means that the
  code does not return or writes outside an array.
\<close>

subsection \<open>The virtual functions\<close>

datatype enc_type = et_unknown | et_primitive | et_string | et_list | et_map

record 'd decoder_ops =
  d_str :: "'d \<Rightarrow> string option \<times> 'd"
  d_f32 :: "'d \<Rightarrow> u32 option \<times> 'd"
  d_f64 :: "'d \<Rightarrow> u64 option \<times> 'd"
  d_bool :: "'d \<Rightarrow> bool option \<times> 'd"
  d_u8 :: "'d \<Rightarrow> u8 option \<times> 'd"
  d_u16 :: "'d \<Rightarrow> u16 option \<times> 'd"
  d_u32 :: "'d \<Rightarrow> u32 option \<times> 'd"
  d_u64 :: "'d \<Rightarrow> u64 option \<times> 'd"
  d_i8 :: "'d \<Rightarrow> u8 option \<times> 'd"
  d_i16 :: "'d \<Rightarrow> u16 option \<times> 'd"
  d_i32 :: "'d \<Rightarrow> u32 option \<times> 'd"
  d_i64 :: "'d \<Rightarrow> u64 option \<times> 'd"
  d_null :: "'d \<Rightarrow> bool \<times> 'd"
  d_list_start :: "'d \<Rightarrow> bool \<times> 'd"
  d_list_end :: "'d \<Rightarrow> bool \<times> 'd"
  d_bytes :: "nat \<Rightarrow> 'd \<Rightarrow> u8 list option \<times> 'd"
  d_peek :: "'d \<Rightarrow> enc_type"
  d_skip :: "'d \<Rightarrow> bool \<times> 'd"
  d_map_start :: "'d \<Rightarrow> bool \<times> 'd"
  d_map_end :: "'d \<Rightarrow> bool \<times> 'd"
  d_in_map :: "'d \<Rightarrow> bool"
  d_in_list :: "'d \<Rightarrow> bool"
  d_list_size :: "nat \<Rightarrow> 'd \<Rightarrow> nat option \<times> 'd"   \<comment> \<open>ensureListSize: the number of elements to read\<close>

subsection \<open>Lists and maps\<close>

type_synonym ('d, 'w) dec_result = "(bool \<times> 'd \<times> 'w) option"

text \<open>The while loops: each round the callback decodes one element, or one value after its key.\<close>

partial_function (option) list_loop ::
  "('d \<Rightarrow> bool) \<Rightarrow> (nat \<Rightarrow> 'd \<Rightarrow> 'w \<Rightarrow> ('d, 'w) dec_result) \<Rightarrow> nat \<Rightarrow> 'd \<Rightarrow> 'w \<Rightarrow> ('d, 'w) dec_result" where
  "list_loop in_list cb i d w =
    (if \<not> in_list d then Some (True, d, w)
     else Option.bind (cb i d w) (\<lambda>x.
       if fst x then list_loop in_list cb (Suc i) (fst (snd x)) (snd (snd x))
       else Some (False, snd x)))"

definition decodeList :: "'d decoder_ops \<Rightarrow> (nat \<Rightarrow> 'd \<Rightarrow> 'w \<Rightarrow> ('d, 'w) dec_result) \<Rightarrow> 'd \<Rightarrow> 'w \<Rightarrow> ('d, 'w) dec_result" where
  "decodeList ops cb d w =
    (let (r, d1) = d_list_start ops d in
     if \<not> r then Some (False, d1, w)
     else Option.bind (list_loop (d_in_list ops) cb 0 d1 w) (\<lambda>(r, d2, w2).
       if r then (let (r3, d3) = d_list_end ops d2 in Some (r3, d3, w2)) else Some (False, d2, w2)))"

definition decodeKey :: "'d decoder_ops \<Rightarrow> u32 option \<Rightarrow> string option \<Rightarrow> 'd \<Rightarrow> bool \<times> u32 option \<times> string option \<times> 'd" where
  "decodeKey ops ident name d =
    (case d_u32 ops d of
       (Some i, d1) \<Rightarrow> (True, Some i, name, d1)
     | (None, d1) \<Rightarrow> (case d_str ops d1 of
           (Some n, d2) \<Rightarrow> (True, ident, Some n, d2)
         | (None, d2) \<Rightarrow> (False, ident, name, d2)))"

text \<open>The optionals for id and name live outside the loop and are never reset.\<close>

partial_function (option) map_loop ::
  "'d decoder_ops \<Rightarrow> (u32 option \<Rightarrow> string option \<Rightarrow> 'd \<Rightarrow> 'w \<Rightarrow> ('d, 'w) dec_result) \<Rightarrow>
   u32 option \<Rightarrow> string option \<Rightarrow> 'd \<Rightarrow> 'w \<Rightarrow> ('d, 'w) dec_result" where
  "map_loop ops cb ident name d w =
    (let k = decodeKey ops ident name d in
     if \<not> fst k then Some (True, snd (snd (snd k)), w)
     else Option.bind (cb (fst (snd k)) (fst (snd (snd k))) (snd (snd (snd k))) w) (\<lambda>x.
       if fst x then map_loop ops cb (fst (snd k)) (fst (snd (snd k))) (fst (snd x)) (snd (snd x))
       else Some (False, snd x)))"

definition decodeMap :: "'d decoder_ops \<Rightarrow> (u32 option \<Rightarrow> string option \<Rightarrow> 'd \<Rightarrow> 'w \<Rightarrow> ('d, 'w) dec_result) \<Rightarrow>
    'd \<Rightarrow> 'w \<Rightarrow> ('d, 'w) dec_result" where
  "decodeMap ops cb d w =
    (let (r, d1) = d_map_start ops d in
     if \<not> r then Some (False, d1, w)
     else Option.bind (map_loop ops cb None None d1 w) (\<lambda>(r, d2, w2).
       if r then (let (r3, d3) = d_map_end ops d2 in Some (r3, d3, w2)) else Some (False, d2, w2)))"

text \<open>The overload with a key of one type, given as its decode function.\<close>

partial_function (option) key_loop ::
  "('d \<Rightarrow> bool) \<Rightarrow> ('d \<Rightarrow> 'k option \<times> 'd) \<Rightarrow> ('k \<Rightarrow> 'd \<Rightarrow> 'w \<Rightarrow> ('d, 'w) dec_result) \<Rightarrow> 'd \<Rightarrow> 'w \<Rightarrow> ('d, 'w) dec_result" where
  "key_loop in_map key cb d w =
    (if \<not> in_map d then Some (True, d, w)
     else case fst (key d) of
       None \<Rightarrow> Some (False, snd (key d), w)
     | Some k \<Rightarrow> Option.bind (cb k (snd (key d)) w) (\<lambda>x.
         if fst x then key_loop in_map key cb (fst (snd x)) (snd (snd x)) else Some (False, snd x)))"

definition decodeMapKeyed :: "'d decoder_ops \<Rightarrow> ('d \<Rightarrow> 'k option \<times> 'd) \<Rightarrow> ('k \<Rightarrow> 'd \<Rightarrow> 'w \<Rightarrow> ('d, 'w) dec_result) \<Rightarrow>
    'd \<Rightarrow> 'w \<Rightarrow> ('d, 'w) dec_result" where
  "decodeMapKeyed ops key cb d w =
    (let (r, d1) = d_map_start ops d in
     if \<not> r then Some (False, d1, w)
     else Option.bind (key_loop (d_in_map ops) key cb d1 w) (\<lambda>(r, d2, w2).
       if r then (let (r3, d3) = d_map_end ops d2 in Some (r3, d3, w2)) else Some (False, d2, w2)))"

partial_function (option) skipUntil :: "'d decoder_ops \<Rightarrow> enc_type \<Rightarrow> 'd \<Rightarrow> (bool \<times> 'd) option" where
  "skipUntil ops sought d =
    (if d_peek ops d = sought then Some (True, d) else skipUntil ops sought (snd (d_skip ops d)))"

subsection \<open>Decoding into a value of a given type\<close>

text \<open>
  The C++ type of the target selects the overload. \<open>TArr n\<close> is an array of n elements, \<open>TVec\<close> a std::vector, \<open>TRec\<close> a class with its members. A decode action overwrites the target
  and reports success.
\<close>

datatype pkind = KBool | KU8 | KU16 | KU32 | KU64 | KI8 | KI16 | KI32 | KI64 | KF32 | KF64 | KStr

datatype ttype =
    TPrim pkind
  | TArr nat ttype
  | TVec ttype
  | TRec "(u16 \<times> string \<times> ttype) list"

type_synonym 'd dec_action = "tsval \<Rightarrow> 'd \<Rightarrow> (bool \<times> 'd \<times> tsval) option"

definition put_prim :: "('v \<Rightarrow> prim) \<Rightarrow> 'v option \<times> 'd \<Rightarrow> tsval \<Rightarrow> bool \<times> 'd \<times> tsval" where
  "put_prim f r old = (case r of (Some v, d) \<Rightarrow> (True, d, Prim (f v)) | (None, d) \<Rightarrow> (False, d, old))"

fun dec_prim :: "'d decoder_ops \<Rightarrow> pkind \<Rightarrow> tsval \<Rightarrow> 'd \<Rightarrow> bool \<times> 'd \<times> tsval" where
  "dec_prim ops KBool old d = put_prim PBool (d_bool ops d) old"
| "dec_prim ops KU8 old d = put_prim PU8 (d_u8 ops d) old"
| "dec_prim ops KU16 old d = put_prim PU16 (d_u16 ops d) old"
| "dec_prim ops KU32 old d = put_prim PU32 (d_u32 ops d) old"
| "dec_prim ops KU64 old d = put_prim PU64 (d_u64 ops d) old"
| "dec_prim ops KI8 old d = put_prim PI8 (d_i8 ops d) old"
| "dec_prim ops KI16 old d = put_prim PI16 (d_i16 ops d) old"
| "dec_prim ops KI32 old d = put_prim PI32 (d_i32 ops d) old"
| "dec_prim ops KI64 old d = put_prim PI64 (d_i64 ops d) old"
| "dec_prim ops KF32 old d = put_prim PF32 (d_f32 ops d) old"
| "dec_prim ops KF64 old d = put_prim PF64 (d_f64 ops d) old"
| "dec_prim ops KStr old d = put_prim PStr (d_str ops d) old"

text \<open>The loop over an array writes at every index below the element count, whatever the array's length.\<close>

fun dec_items :: "'d dec_action \<Rightarrow> nat \<Rightarrow> nat \<Rightarrow> tsval list \<Rightarrow> 'd \<Rightarrow> (bool \<times> 'd \<times> tsval list) option" where
  "dec_items act 0 i vs d = Some (True, d, vs)"
| "dec_items act (Suc k) i vs d =
    (if i < length vs
     then Option.bind (act (vs ! i) d) (\<lambda>(r, d', v).
       if r then dec_items act k (Suc i) (vs[i := v]) d' else Some (False, d', vs[i := v]))
     else None)"

fun elems :: "tsval \<Rightarrow> tsval list" where
  "elems (VArr vs) = vs"
| "elems (VList vs) = vs"
| "elems v = []"

fun members :: "tsval \<Rightarrow> (u16 \<times> string \<times> tsval) list" where
  "members (VRec fs) = fs"
| "members v = []"

definition dec_array :: "'d decoder_ops \<Rightarrow> 'd dec_action \<Rightarrow> 'd dec_action" where
  "dec_array ops act old d =
    (let (r, d1) = d_list_start ops d in
     if \<not> r then Some (False, d1, old)
     else case d_list_size ops (length (elems old)) d1 of
       (None, d2) \<Rightarrow> Some (False, d2, old)
     | (Some n, d2) \<Rightarrow> Option.bind (dec_items act n 0 (elems old) d2) (\<lambda>(r, d3, vs).
         if r then (let (r4, d4) = d_list_end ops d3 in Some (r4, d4, VArr vs)) else Some (False, d3, VArr vs)))"

definition dec_vector :: "'d decoder_ops \<Rightarrow> 'd dec_action \<Rightarrow> tsval \<Rightarrow> 'd dec_action" where
  "dec_vector ops act fresh old d =
    map_option (\<lambda>(r, d', vs). (r, d', VList vs))
      (decodeList ops (\<lambda>i d vs. map_option (\<lambda>(r, d', v). (r, d', if r then vs @ [v] else vs)) (act fresh d))
        d (elems old))"

text \<open>\<open>switchDecode\<close>: the first member whose key matches is decoded; its result is the result.\<close>

fun switchDecode :: "((u16 \<times> string \<times> 'd dec_action) \<Rightarrow> bool) \<Rightarrow> (u16 \<times> string \<times> 'd dec_action) list \<Rightarrow>
    (u16 \<times> string \<times> tsval) list \<Rightarrow> 'd \<Rightarrow> (bool \<times> 'd \<times> (u16 \<times> string \<times> tsval) list) option" where
  "switchDecode P (a # acts) ((i, n, v) # fs) d =
    (if P a then map_option (\<lambda>(r, d', v'). (r, d', (i, n, v') # fs)) (snd (snd a) v d)
     else map_option (\<lambda>(r, d', fs'). (r, d', (i, n, v) # fs')) (switchDecode P acts fs d))"
| "switchDecode P acts fs d = Some (False, d, fs)"

definition class_member :: "'d decoder_ops \<Rightarrow> (u16 \<times> string \<times> 'd dec_action) list \<Rightarrow> u32 option \<Rightarrow> string option \<Rightarrow> 'd \<Rightarrow>
    (u16 \<times> string \<times> tsval) list \<Rightarrow> ('d, (u16 \<times> string \<times> tsval) list) dec_result" where
  "class_member ops acts ident name d fs =
    (let sel = (case ident of Some i \<Rightarrow> Some (\<lambda>a. ucast (fst a) = i)
                | None \<Rightarrow> (case name of Some n \<Rightarrow> Some (\<lambda>a. fst (snd a) = n) | None \<Rightarrow> None))
     in case sel of
          None \<Rightarrow> Some (False, d, fs)
        | Some P \<Rightarrow> map_option (\<lambda>(r, d', fs').
             if r then (True, d', fs') else (let (sk, d'') = d_skip ops d' in (sk, d'', fs')))
            (switchDecode P acts fs d))"

definition dec_class :: "'d decoder_ops \<Rightarrow> (u16 \<times> string \<times> 'd dec_action) list \<Rightarrow> 'd dec_action" where
  "dec_class ops acts old d =
    map_option (\<lambda>(r, d', fs). (r, d', VRec fs)) (decodeMap ops (class_member ops acts) d (members old))"

text \<open>The object an element of a vector is decoded into: \<open>T value\<close>. Scalars start as zero here, uninitialised in the code.\<close>

fun zero_prim :: "pkind \<Rightarrow> prim" where
  "zero_prim KBool = PBool False"
| "zero_prim KU8 = PU8 0"
| "zero_prim KU16 = PU16 0"
| "zero_prim KU32 = PU32 0"
| "zero_prim KU64 = PU64 0"
| "zero_prim KI8 = PI8 0"
| "zero_prim KI16 = PI16 0"
| "zero_prim KI32 = PI32 0"
| "zero_prim KI64 = PI64 0"
| "zero_prim KF32 = PF32 0"
| "zero_prim KF64 = PF64 0"
| "zero_prim KStr = PStr []"

fun init_val :: "ttype \<Rightarrow> tsval" where
  "init_val (TPrim k) = Prim (zero_prim k)"
| "init_val (TArr n t) = VArr (replicate n (init_val t))"
| "init_val (TVec t) = VList []"
| "init_val (TRec fs) = VRec (map (\<lambda>(i, n, t). (i, n, init_val t)) fs)"

fun dec_val :: "'d decoder_ops \<Rightarrow> ttype \<Rightarrow> 'd dec_action" where
  "dec_val ops (TPrim k) old d = Some (dec_prim ops k old d)"
| "dec_val ops (TArr n t) old d = dec_array ops (dec_val ops t) old d"
| "dec_val ops (TVec t) old d = dec_vector ops (dec_val ops t) (init_val t) old d"
| "dec_val ops (TRec fs) old d = dec_class ops (map (\<lambda>(i, n, t). (i, n, dec_val ops t)) fs) old d"

text \<open>\<open>decodeList\<close> into a tuple: every element is decoded whatever the ones before, and the end always.\<close>

fun dec_tuple_items :: "'d dec_action list \<Rightarrow> tsval list \<Rightarrow> bool \<Rightarrow> 'd \<Rightarrow> (bool \<times> 'd \<times> tsval list) option" where
  "dec_tuple_items (a # acts) (v # vs) r d =
     Option.bind (a v d) (\<lambda>(r1, d1, v1). map_option (\<lambda>(r2, d2, vs2). (r2, d2, v1 # vs2))
       (dec_tuple_items acts vs (r \<and> r1) d1))"
| "dec_tuple_items acts vs r d = Some (r, d, vs)"

definition decodeTuple :: "'d decoder_ops \<Rightarrow> 'd dec_action list \<Rightarrow> tsval list \<Rightarrow> 'd \<Rightarrow> (bool \<times> 'd \<times> tsval list) option" where
  "decodeTuple ops acts vs d =
    (let (r, d1) = d_list_start ops d in
     map_option (\<lambda>(r2, d2, vs2). let (r3, d3) = d_list_end ops d2 in (r2 \<and> r3, d3, vs2))
       (if r then dec_tuple_items acts vs True d1 else Some (False, d1, vs)))"

subsection \<open>Invariants of the loops\<close>

definition keeps_state :: "('w \<Rightarrow> bool) \<Rightarrow> (u32 option \<Rightarrow> string option \<Rightarrow> 'd \<Rightarrow> 'w \<Rightarrow> ('d, 'w) dec_result) \<Rightarrow> bool" where
  "keeps_state I cb \<longleftrightarrow> (\<forall>i n d w r d' w'. I w \<longrightarrow> cb i n d w = Some (r, d', w') \<longrightarrow> I w')"

lemma map_loop_keeps:
  "map_loop ops cb ident name d w = Some x \<Longrightarrow> keeps_state I cb \<longrightarrow> I w \<longrightarrow> I (snd (snd x))"
proof (induction ops cb ident name d w x rule: map_loop.raw_induct [rotated, consumes 1, case_names 1])
  case (1 loop ops cb ident name d w x)
  show ?case
  proof (intro impI, cases "fst (decodeKey ops ident name d)")
    assume "I w" "\<not> fst (decodeKey ops ident name d)"
    with 1(2) show "I (snd (snd x))" by auto
  next
    assume k: "keeps_state I cb" and w: "I w" and True: "fst (decodeKey ops ident name d)"
    then obtain y where y: "cb (fst (snd (decodeKey ops ident name d))) (fst (snd (snd (decodeKey ops ident name d))))
        (snd (snd (snd (decodeKey ops ident name d)))) w = Some y"
      using 1(2) by (auto simp: Let_def bind_eq_Some_conv)
    then have I: "I (snd (snd y))" using k w unfolding keeps_state_def by (cases y) fastforce
    show "I (snd (snd x))"
    proof (cases "fst y")
      case True
      with 1(2) y \<open>fst (decodeKey ops ident name d)\<close>
      have "loop ops cb (fst (snd (decodeKey ops ident name d))) (fst (snd (snd (decodeKey ops ident name d))))
          (fst (snd y)) (snd (snd y)) = Some x" by (simp add: Let_def)
      from 1(1) [OF this] k I show ?thesis by blast
    next
      case False
      with 1(2) y \<open>fst (decodeKey ops ident name d)\<close> I show ?thesis by (auto simp: Let_def)
    qed
  qed
qed

lemma decodeMap_keeps:
  "decodeMap ops cb d w = Some (r, d', w') \<Longrightarrow> keeps_state I cb \<Longrightarrow> I w \<Longrightarrow> I w'"
  using map_loop_keeps [of ops cb None None _ w _ I]
  by (fastforce simp: decodeMap_def bind_eq_Some_conv split: prod.splits if_splits)

lemma list_loop_keeps:
  "list_loop in_list cb i d w = Some x \<Longrightarrow> (\<forall>i d w r d' w'. I w \<longrightarrow> cb i d w = Some (r, d', w') \<longrightarrow> I w') \<longrightarrow> I w \<longrightarrow> I (snd (snd x))"
proof (induction in_list cb i d w x rule: list_loop.raw_induct [rotated, consumes 1, case_names 1])
  case (1 loop in_list cb i d w x)
  show ?case
  proof (intro impI, cases "in_list d")
    assume "I w" "\<not> in_list d"
    with 1(2) show "I (snd (snd x))" by auto
  next
    assume cb: "\<forall>i d w r d' w'. I w \<longrightarrow> cb i d w = Some (r, d', w') \<longrightarrow> I w'" and w: "I w" and "in_list d"
    then obtain y where y: "cb i d w = Some y" using 1(2) by (auto simp: bind_eq_Some_conv)
    then have I: "I (snd (snd y))" using cb w by (cases y) fastforce
    show "I (snd (snd x))"
    proof (cases "fst y")
      case True
      with 1(2) y \<open>in_list d\<close> have "loop in_list cb (Suc i) (fst (snd y)) (snd (snd y)) = Some x" by simp
      from 1(1) [OF this] cb I show ?thesis by blast
    next
      case False
      with 1(2) y \<open>in_list d\<close> I show ?thesis by auto
    qed
  qed
qed

subsection \<open>Values keep their type\<close>

fun kind_of :: "prim \<Rightarrow> pkind" where
  "kind_of (PBool b) = KBool"
| "kind_of (PU8 v) = KU8"
| "kind_of (PU16 v) = KU16"
| "kind_of (PU32 v) = KU32"
| "kind_of (PU64 v) = KU64"
| "kind_of (PI8 v) = KI8"
| "kind_of (PI16 v) = KI16"
| "kind_of (PI32 v) = KI32"
| "kind_of (PI64 v) = KI64"
| "kind_of (PF32 v) = KF32"
| "kind_of (PF64 v) = KF64"
| "kind_of (PStr s) = KStr"

fun fields_typed :: "(u16 \<times> string \<times> (tsval \<Rightarrow> bool)) list \<Rightarrow> (u16 \<times> string \<times> tsval) list \<Rightarrow> bool" where
  "fields_typed [] [] = True"
| "fields_typed ((i, n, P) # ps) ((j, m, v) # vs) = (j = i \<and> m = n \<and> P v \<and> fields_typed ps vs)"
| "fields_typed ps vs = False"

fun has_type :: "ttype \<Rightarrow> tsval \<Rightarrow> bool" where
  "has_type (TPrim k) v = (case v of Prim p \<Rightarrow> kind_of p = k | _ \<Rightarrow> False)"
| "has_type (TArr n t) v = (case v of VArr vs \<Rightarrow> length vs = n \<and> list_all (has_type t) vs | _ \<Rightarrow> False)"
| "has_type (TVec t) v = (case v of VList vs \<Rightarrow> list_all (has_type t) vs | _ \<Rightarrow> False)"
| "has_type (TRec fs) v = (case v of VRec vs \<Rightarrow> fields_typed (map (\<lambda>(i, n, t). (i, n, has_type t)) fs) vs | _ \<Rightarrow> False)"

definition keeps_type :: "'d dec_action \<Rightarrow> (tsval \<Rightarrow> bool) \<Rightarrow> bool" where
  "keeps_type act P \<longleftrightarrow> (\<forall>old d r d' v. P old \<longrightarrow> act old d = Some (r, d', v) \<longrightarrow> P v)"

lemma keeps_typeD: "keeps_type act P \<Longrightarrow> P old \<Longrightarrow> act old d = Some (r, d', v) \<Longrightarrow> P v"
  unfolding keeps_type_def by blast

lemma put_prim_typed:
  "(\<And>v. kind_of (f v) = k) \<Longrightarrow> has_type (TPrim k) old \<Longrightarrow> put_prim f res old = (r, d', v) \<Longrightarrow> has_type (TPrim k) v"
  by (auto simp: put_prim_def split: prod.splits option.splits)

lemma dec_prim_typed: "has_type (TPrim k) old \<Longrightarrow> dec_prim ops k old d = (r, d', v) \<Longrightarrow> has_type (TPrim k) v"
  by (cases k; simp only: dec_prim.simps; erule put_prim_typed [rotated]; assumption?; simp)

lemma dec_items_typed:
  "keeps_type act P \<Longrightarrow> list_all P vs \<Longrightarrow> dec_items act k i vs d = Some (r, d', vs') \<Longrightarrow> list_all P vs' \<and> length vs' = length vs"
proof (induction k arbitrary: i vs d)
  case (Suc k)
  then obtain r1 d1 v where i: "i < length vs" and a: "act (vs ! i) d = Some (r1, d1, v)"
    by (auto simp: bind_eq_Some_conv split: if_splits)
  then have "P v" using Suc.prems(1,2) keeps_typeD [of act P "vs ! i" d r1 d1 v] by (simp add: list_all_length)
  then have l: "list_all P (vs[i := v])" using Suc.prems(2) set_update_subset_insert [of vs i v] by (auto simp: list_all_iff)
  show ?case
  proof (cases r1)
    case True
    with i a Suc.prems(3) have "dec_items act k (Suc i) (vs[i := v]) d1 = Some (r, d', vs')" by simp
    from Suc.IH [OF Suc.prems(1) l this] show ?thesis by simp
  next
    case False
    with i a Suc.prems(3) l show ?thesis by auto
  qed
qed simp

lemma switchDecode_typed:
  "list_all2 (\<lambda>a p. keeps_type (snd (snd a)) (snd (snd p))) acts ps \<Longrightarrow> fields_typed ps fs \<Longrightarrow>
   switchDecode Q acts fs d = Some (r, d', fs') \<Longrightarrow> fields_typed ps fs'"
proof (induction acts ps arbitrary: fs fs' r d' rule: list_all2_induct)
  case (Cons a acts p ps)
  obtain i n P where p: "p = (i, n, P)" by (cases p) auto
  obtain v vs where fs: "fs = (i, n, v) # vs" "P v" "fields_typed ps vs"
    using Cons.prems(1) by (cases fs) (auto simp: p)
  show ?case
  proof (cases "Q a")
    case True
    then obtain v' where "snd (snd a) v d = Some (r, d', v')" "fs' = (i, n, v') # vs"
      using Cons.prems(2) by (auto simp: fs)
    then show ?thesis using keeps_typeD [OF Cons.hyps(1)] fs by (auto simp: p)
  next
    case False
    then obtain gs where "switchDecode Q acts vs d = Some (r, d', gs)" "fs' = (i, n, v) # gs"
      using Cons.prems(2) by (auto simp: fs)
    then show ?thesis using Cons.IH [OF fs(3)] fs by (auto simp: p)
  qed
qed simp

lemma class_member_decodes:
  "class_member ops acts ident name d w = Some (r, d', w') \<Longrightarrow>
   w' = w \<or> (\<exists>Q r1 d1. switchDecode Q acts w d = Some (r1, d1, w'))"
  by (auto simp: class_member_def Let_def split_def split: option.splits if_splits)

lemma dec_class_typed:
  assumes "list_all2 (\<lambda>a p. keeps_type (snd (snd a)) (snd (snd p))) acts ps"
  shows "keeps_type (dec_class ops acts) (\<lambda>v. case v of VRec vs \<Rightarrow> fields_typed ps vs | _ \<Rightarrow> False)"
proof -
  have m: "keeps_state (fields_typed ps) (class_member ops acts)"
    unfolding keeps_state_def
    by (auto dest!: class_member_decodes dest: switchDecode_typed [OF assms])
  show ?thesis
    unfolding keeps_type_def dec_class_def
    by (auto split: tsval.splits dest: decodeMap_keeps [OF _ m])
qed

lemma fields_typed_init:
  "(\<And>f. f \<in> set fs \<Longrightarrow> P (snd (snd f)) (I (snd (snd f)))) \<Longrightarrow>
   fields_typed (map (\<lambda>(i, n, t). (i, n, P t)) fs) (map (\<lambda>(i, n, t). (i, n, I t)) fs)"
  by (induction fs) (auto simp: case_prod_beta)

lemma init_val_typed: "has_type t (init_val t)"
proof (induction t)
  case (TPrim k)
  show ?case by (cases k) simp_all
next
  case (TRec fs)
  then have "\<And>f. f \<in> set fs \<Longrightarrow> has_type (snd (snd f)) (init_val (snd (snd f)))" by fastforce
  then show ?case using fields_typed_init [of fs has_type init_val] by simp
qed (simp_all add: list_all_iff)

lemma dec_array_result:
  "dec_array ops act (VArr vs) d = Some (r, d', v) \<Longrightarrow>
   v = VArr vs \<or> (\<exists>k r1 d1 d2 vs'. dec_items act k 0 vs d1 = Some (r1, d2, vs') \<and> v = VArr vs')"
  by (auto simp: dec_array_def Let_def split_def bind_eq_Some_conv split: if_splits option.splits)

lemma dec_vector_result:
  "dec_vector ops act x (VList vs) d = Some (r, d', v) \<Longrightarrow>
   v = VList vs \<or> (\<exists>r1 d1 d2 vs'. list_loop (d_in_list ops)
       (\<lambda>i d vs. map_option (\<lambda>(r, d', v). (r, d', if r then vs @ [v] else vs)) (act x d)) 0 d1 vs = Some (r1, d2, vs') \<and> v = VList vs')"
  by (auto simp: dec_vector_def decodeList_def Let_def split_def bind_eq_Some_conv split: if_splits)

text \<open>Whatever the decoder, decoding into a target never changes its type, also when it fails half-way.\<close>

lemma dec_val_typed: "keeps_type (dec_val ops t) (has_type t)"
proof (induction t)
  case (TPrim k)
  show ?case unfolding keeps_type_def
    by (simp del: has_type.simps) (intro allI impI, erule (1) dec_prim_typed)
next
  case (TArr n t)
  show ?case unfolding keeps_type_def
    by (auto split: tsval.splits dest!: dec_array_result dest: dec_items_typed [OF TArr.IH])
next
  case (TVec t)
  let ?cb = "\<lambda>i d vs. map_option (\<lambda>(r, d', v). (r, d', if r then vs @ [v] else vs)) (dec_val ops t (init_val t) d)"
  have cb: "\<forall>i d w r d' w'. list_all (has_type t) w \<longrightarrow> ?cb i d w = Some (r, d', w') \<longrightarrow> list_all (has_type t) w'"
    using keeps_typeD [OF TVec.IH init_val_typed] by (auto split: if_splits)
  have l: "list_loop il ?cb i d w = Some (r, d', w') \<Longrightarrow> list_all (has_type t) w \<Longrightarrow> list_all (has_type t) w'" for il i d w r d' w'
    using list_loop_keeps [of il ?cb i d w "(r, d', w')" "list_all (has_type t)"] cb by simp
  show ?case unfolding keeps_type_def
    by (auto split: tsval.splits dest!: dec_vector_result dest: l)
next
  case (TRec fs)
  have ih: "keeps_type (dec_val ops (snd (snd f))) (has_type (snd (snd f)))" if "f \<in> set fs" for f
    using TRec that by (cases f) fastforce
  have "list_all2 (\<lambda>a p. keeps_type (snd (snd a)) (snd (snd p)))
      (map (\<lambda>(i, n, t). (i, n, dec_val ops t)) fs) (map (\<lambda>(i, n, t). (i, n, has_type t)) fs)"
    by (auto simp: list_all2_conv_all_nth case_prod_beta intro: ih)
  from dec_class_typed [OF this, of ops] show ?case by (simp add: keeps_type_def)
qed

end
