(* ===== verification/BinaryDecoder.thy ===== *)
theory BinaryDecoder imports Decoder BinaryEncoder begin

text \<open>
  The binary decoder: include/thingset++/ThingSetBinaryDecoder.hpp and src/ThingSetBinaryDecoder.cpp. The
  decoding functions of zcbor are a parameter, a record over the state \<open>'d\<close> of the decoder object, which
  contains the zcbor state; \<open>ensure\<close> is what the virtual function getState does before it hands the state
  out. \<open>zcbor_reads\<close> states the documented behaviour the results rest on.
\<close>

subsection \<open>The zcbor functions\<close>

record 'd zreader =
  zr_tstr :: "'d \<Rightarrow> u8 list option \<times> 'd"       \<comment> \<open>zcbor_tstr_decode\<close>
  zr_bstr :: "'d \<Rightarrow> u8 list option \<times> 'd"       \<comment> \<open>zcbor_bstr_decode\<close>
  zr_f32 :: "'d \<Rightarrow> u32 option \<times> 'd"            \<comment> \<open>zcbor_float16_32_decode\<close>
  zr_f64 :: "'d \<Rightarrow> u64 option \<times> 'd"            \<comment> \<open>zcbor_float64_decode\<close>
  zr_bool :: "'d \<Rightarrow> bool option \<times> 'd"          \<comment> \<open>zcbor_bool_decode\<close>
  zr_u32 :: "'d \<Rightarrow> u32 option \<times> 'd"            \<comment> \<open>zcbor_uint32_decode\<close>
  zr_u64 :: "'d \<Rightarrow> u64 option \<times> 'd"            \<comment> \<open>zcbor_uint64_decode\<close>
  zr_i32 :: "'d \<Rightarrow> u32 option \<times> 'd"            \<comment> \<open>zcbor_int32_decode\<close>
  zr_i64 :: "'d \<Rightarrow> u64 option \<times> 'd"            \<comment> \<open>zcbor_int64_decode\<close>
  zr_nil :: "'d \<Rightarrow> bool \<times> 'd"                  \<comment> \<open>zcbor_nil_expect\<close>
  zr_list_start :: "'d \<Rightarrow> bool \<times> 'd"
  zr_list_end :: "'d \<Rightarrow> bool \<times> 'd"
  zr_map_start :: "'d \<Rightarrow> bool \<times> 'd"
  zr_map_end :: "'d \<Rightarrow> bool \<times> 'd"
  zr_skip :: "'d \<Rightarrow> bool \<times> 'd"                 \<comment> \<open>zcbor_any_skip\<close>
  zr_elem_count :: "'d \<Rightarrow> nat"                 \<comment> \<open>elem_count of the state\<close>
  zr_major :: "'d \<Rightarrow> nat"                      \<comment> \<open>major type of the byte at the payload pointer\<close>
  zr_rewind :: "'d \<Rightarrow> 'd"  \<comment> \<open>zcbor_process_backup, the payload pointer from payload_bak, elem_count plus one\<close>

subsection \<open>The decoder\<close>

definition opt_allowUndersizedArrays :: u32 where "opt_allowUndersizedArrays = push_bit 0 1"

definition bd_getIsForwardOnly :: bool where "bd_getIsForwardOnly = False"

definition bd_str :: "('d \<Rightarrow> 'd) \<Rightarrow> 'd zreader \<Rightarrow> 'd \<Rightarrow> string option \<times> 'd" where
  "bd_str ensure R d = (case zr_tstr R (ensure d) of (Some s, d1) \<Rightarrow> (Some (map (\<lambda>b. char_of (unat b)) s), d1) | (None, d1) \<Rightarrow> (None, d1))"

text \<open>Into a buffer of \<open>size\<close> characters: the result is what is written from its start, the terminator included.\<close>

definition strncpy_bytes :: "u8 list \<Rightarrow> u8 list" where
  "strncpy_bytes s = (let t = takeWhile (\<lambda>b. b \<noteq> 0) s in t @ replicate (length s - length t) 0)"

definition bd_chars :: "('d \<Rightarrow> 'd) \<Rightarrow> 'd zreader \<Rightarrow> nat \<Rightarrow> 'd \<Rightarrow> u8 list option \<times> 'd" where
  "bd_chars ensure R cap d =
    (case zr_tstr R (ensure d) of
       (Some s, d1) \<Rightarrow> if length s \<le> cap then (Some (strncpy_bytes s @ [0]), d1) else (None, d1)
     | (None, d1) \<Rightarrow> (None, d1))"

definition bd_u8 :: "('d \<Rightarrow> 'd) \<Rightarrow> 'd zreader \<Rightarrow> 'd \<Rightarrow> u8 option \<times> 'd" where
  "bd_u8 ensure R d = (case zr_u32 R (ensure d) of
     (Some i, d1) \<Rightarrow> if i < 0xFF then (Some (ucast i), d1) else (None, d1) | (None, d1) \<Rightarrow> (None, d1))"

definition bd_u16 :: "('d \<Rightarrow> 'd) \<Rightarrow> 'd zreader \<Rightarrow> 'd \<Rightarrow> u16 option \<times> 'd" where
  "bd_u16 ensure R d = (case zr_u32 R (ensure d) of
     (Some i, d1) \<Rightarrow> if i < 0xFFFF then (Some (ucast i), d1) else (None, d1) | (None, d1) \<Rightarrow> (None, d1))"

definition bd_i8 :: "('d \<Rightarrow> 'd) \<Rightarrow> 'd zreader \<Rightarrow> 'd \<Rightarrow> u8 option \<times> 'd" where
  "bd_i8 ensure R d = (case zr_i32 R (ensure d) of
     (Some i, d1) \<Rightarrow> if sint i < 127 then (Some (ucast i), d1) else (None, d1) | (None, d1) \<Rightarrow> (None, d1))"

definition bd_i16 :: "('d \<Rightarrow> 'd) \<Rightarrow> 'd zreader \<Rightarrow> 'd \<Rightarrow> u16 option \<times> 'd" where
  "bd_i16 ensure R d = (case zr_i32 R (ensure d) of
     (Some i, d1) \<Rightarrow> if sint i < 32767 then (Some (ucast i), d1) else (None, d1) | (None, d1) \<Rightarrow> (None, d1))"

definition bd_bytes :: "('d \<Rightarrow> 'd) \<Rightarrow> 'd zreader \<Rightarrow> nat \<Rightarrow> 'd \<Rightarrow> u8 list option \<times> 'd" where
  "bd_bytes ensure R capacity d = (case zr_bstr R (ensure d) of
     (Some s, d1) \<Rightarrow> if length s \<le> capacity then (Some s, d1) else (None, d1) | (None, d1) \<Rightarrow> (None, d1))"

definition bd_list_size :: "('d \<Rightarrow> 'd) \<Rightarrow> 'd zreader \<Rightarrow> u32 \<Rightarrow> bool \<Rightarrow> nat \<Rightarrow> 'd \<Rightarrow> nat option \<times> 'd" where
  "bd_list_size ensure R opts fwd n d =
    (let d1 = ensure d; elementCount = zr_elem_count R d1 in
     if n > elementCount \<and> opts AND opt_allowUndersizedArrays = 0
     then (None, if fwd then d1 else zr_rewind R (ensure d1))
     else (Some elementCount, d1))"

definition bd_peek :: "('d \<Rightarrow> 'd) \<Rightarrow> 'd zreader \<Rightarrow> 'd \<Rightarrow> enc_type" where
  "bd_peek ensure R d =
    (let m = zr_major R (ensure d) in
     if m = 4 then et_list else if m = 5 then et_map
     else if m = 1 \<or> m = 0 \<or> m = 7 then et_primitive
     else if m = 2 \<or> m = 3 then et_string else et_unknown)"

definition binary_decoder_ops :: "('d \<Rightarrow> 'd) \<Rightarrow> 'd zreader \<Rightarrow> u32 \<Rightarrow> bool \<Rightarrow> 'd decoder_ops" where
  "binary_decoder_ops ensure R opts fwd = \<lparr>
     d_str = bd_str ensure R,
     d_f32 = \<lambda>d. zr_f32 R (ensure d),
     d_f64 = \<lambda>d. zr_f64 R (ensure d),
     d_bool = \<lambda>d. zr_bool R (ensure d),
     d_u8 = bd_u8 ensure R,
     d_u16 = bd_u16 ensure R,
     d_u32 = \<lambda>d. zr_u32 R (ensure d),
     d_u64 = \<lambda>d. zr_u64 R (ensure d),
     d_i8 = bd_i8 ensure R,
     d_i16 = bd_i16 ensure R,
     d_i32 = \<lambda>d. zr_i32 R (ensure d),
     d_i64 = \<lambda>d. zr_i64 R (ensure d),
     d_null = \<lambda>d. zr_nil R (ensure d),
     d_list_start = \<lambda>d. zr_list_start R (ensure d),
     d_list_end = \<lambda>d. zr_list_end R (ensure d),
     d_bytes = bd_bytes ensure R,
     d_peek = bd_peek ensure R,
     d_skip = \<lambda>d. zr_skip R (ensure d),
     d_map_start = \<lambda>d. zr_map_start R (ensure d),
     d_map_end = \<lambda>d. zr_map_end R (ensure d),
     d_in_map = \<lambda>d. zr_elem_count R d \<noteq> 0,
     d_in_list = \<lambda>d. zr_elem_count R d \<noteq> 0,
     d_list_size = bd_list_size ensure R opts fwd\<rparr>"

text \<open>The decoder over a fixed buffer hands its state out as it is.\<close>

definition fixed_decoder_ops :: "'d zreader \<Rightarrow> u32 \<Rightarrow> 'd decoder_ops" where
  "fixed_decoder_ops R opts = binary_decoder_ops id R opts bd_getIsForwardOnly"

subsection \<open>Items\<close>

text \<open>
  The items of an encoded value, and the calls of the encoder they come from. A state of the decoder is
  described by a stack: the items left in the innermost open list or map, then those of
  the one around it, and so on.
\<close>

datatype citem = CPrim zcall | CList "citem list" | CMap "(citem \<times> citem) list"

fun item_of :: "bool \<Rightarrow> tsval \<Rightarrow> citem" where
  "item_of ids (Prim p) = CPrim (prim_call p)"
| "item_of ids (VArr xs) = CList (map (item_of ids) xs)"
| "item_of ids (VList xs) = CList (map (item_of ids) xs)"
| "item_of ids (VMap kvs) = CMap (map (\<lambda>(k, v). (item_of ids k, item_of ids v)) kvs)"
| "item_of ids (VRec fs) = CMap (map (\<lambda>(i, n, v). (CPrim (key_call ids i n), item_of ids v)) fs)"

fun item_calls :: "bool \<Rightarrow> citem \<Rightarrow> zcall list" where
  "item_calls fwd (CPrim c) = [c]"
| "item_calls fwd (CList xs) = list_calls fwd (length xs) (concat (map (item_calls fwd) xs))"
| "item_calls fwd (CMap kvs) = map_calls fwd (length kvs)
     (concat (map (\<lambda>(k, v). item_calls fwd k @ item_calls fwd v) kvs))"

lemma item_calls_of: "item_calls fwd (item_of ids v) = calls_of fwd ids v"
proof (induction v)
  case (VMap kvs)
  then have "\<And>kv. kv \<in> set kvs \<Longrightarrow> item_calls fwd (item_of ids (fst kv)) = calls_of fwd ids (fst kv) \<and>
      item_calls fwd (item_of ids (snd kv)) = calls_of fwd ids (snd kv)"
    by (auto simp: fsts.simps snds.simps)
  then show ?case by (auto simp: case_prod_beta comp_def cong: map_cong)
next
  case (VRec fs)
  then have "\<And>f. f \<in> set fs \<Longrightarrow> item_calls fwd (item_of ids (snd (snd f))) = calls_of fwd ids (snd (snd f))"
    by fastforce
  then show ?case by (auto simp: case_prod_beta comp_def cong: map_cong)
qed (auto simp: comp_def cong: map_cong)

definition flat_pairs :: "(citem \<times> citem) list \<Rightarrow> citem list" where
  "flat_pairs kvs = concat (map (\<lambda>(k, v). [k, v]) kvs)"

text \<open>
  What zcbor documents of decoding, for a state before the items xs: the function for the type of the
  next item returns its value and moves behind it; the functions for an integer and a string fail, and
  leave the state where it is, on an item of the other kind and at the end of a container; starting
  a list or map enters it, ending it at its end leaves it; elem_count is the number of items left.
\<close>

definition moves :: "('d \<Rightarrow> citem list list \<Rightarrow> bool) \<Rightarrow> ('d \<Rightarrow> 'a \<times> 'd) \<Rightarrow> citem list list \<Rightarrow> 'a \<Rightarrow> citem list list \<Rightarrow> bool" where
  "moves at f before r after \<longleftrightarrow> (\<forall>d. at d before \<longrightarrow> (\<exists>d'. f d = (r, d') \<and> at d' after))"

definition zcbor_reads :: "'d zreader \<Rightarrow> ('d \<Rightarrow> citem list list \<Rightarrow> bool) \<Rightarrow> bool" where
  "zcbor_reads R at \<longleftrightarrow>
     (\<forall>v xs st. moves at (zr_u32 R) ((CPrim (Zu32 v) # xs) # st) (Some v) (xs # st)) \<and>
     (\<forall>v xs st. moves at (zr_u64 R) ((CPrim (Zu64 v) # xs) # st) (Some v) (xs # st)) \<and>
     (\<forall>v xs st. moves at (zr_i32 R) ((CPrim (Zi32 v) # xs) # st) (Some v) (xs # st)) \<and>
     (\<forall>v xs st. moves at (zr_i64 R) ((CPrim (Zi64 v) # xs) # st) (Some v) (xs # st)) \<and>
     (\<forall>v xs st. moves at (zr_f32 R) ((CPrim (Zf32 v) # xs) # st) (Some v) (xs # st)) \<and>
     (\<forall>v xs st. moves at (zr_f64 R) ((CPrim (Zf64 v) # xs) # st) (Some v) (xs # st)) \<and>
     (\<forall>v xs st. moves at (zr_bool R) ((CPrim (Zbool v) # xs) # st) (Some v) (xs # st)) \<and>
     (\<forall>v xs st. moves at (zr_tstr R) ((CPrim (Ztstr v) # xs) # st) (Some v) (xs # st)) \<and>
     (\<forall>v xs st. moves at (zr_u32 R) ((CPrim (Ztstr v) # xs) # st) None ((CPrim (Ztstr v) # xs) # st)) \<and>
     (\<forall>st. moves at (zr_u32 R) ([] # st) None ([] # st)) \<and>
     (\<forall>st. moves at (zr_tstr R) ([] # st) None ([] # st)) \<and>
     (\<forall>xs ys st. moves at (zr_list_start R) ((CList ys # xs) # st) True (ys # xs # st)) \<and>
     (\<forall>xs kvs st. moves at (zr_map_start R) ((CMap kvs # xs) # st) True (flat_pairs kvs # xs # st)) \<and>
     (\<forall>st. moves at (zr_list_end R) ([] # st) True st) \<and>
     (\<forall>st. moves at (zr_map_end R) ([] # st) True st) \<and>
     (\<forall>d xs st. at d (xs # st) \<longrightarrow> zr_elem_count R d = length xs)"

lemma movesD: "moves at f before r after \<Longrightarrow> at d before \<Longrightarrow> \<exists>d'. f d = (r, d') \<and> at d' after"
  by (simp add: moves_def)

subsection \<open>Values that survive the round trip\<close>

text \<open>
  \<open>fits t old v\<close>: v is a value of type t that can be decoded into a target that holds old. The small
  integers exclude the largest value, which the decoder rejects; strings hold no NUL; a vector starts
  empty; an array has the length of its target; the keys of a class are distinct.
\<close>

fun prim_ok :: "prim \<Rightarrow> bool" where
  "prim_ok (PU8 v) = (v \<noteq> 0xFF)"
| "prim_ok (PU16 v) = (v \<noteq> 0xFFFF)"
| "prim_ok (PI8 v) = (v \<noteq> 0x7F)"
| "prim_ok (PI16 v) = (v \<noteq> 0x7FFF)"
| "prim_ok (PStr s) = (CHR 0x00 \<notin> set s)"
| "prim_ok p = True"

definition prim_fits :: "pkind \<Rightarrow> tsval \<Rightarrow> bool" where
  "prim_fits k v = (case v of Prim p \<Rightarrow> kind_of p = k \<and> prim_ok p | _ \<Rightarrow> False)"

fun arr_fits :: "(tsval \<Rightarrow> tsval \<Rightarrow> bool) \<Rightarrow> tsval \<Rightarrow> tsval \<Rightarrow> bool" where
  "arr_fits P (VArr os) (VArr vs) = list_all2 P os vs"
| "arr_fits P old v = False"

fun vec_fits :: "(tsval \<Rightarrow> bool) \<Rightarrow> tsval \<Rightarrow> tsval \<Rightarrow> bool" where
  "vec_fits P (VList []) (VList vs) = list_all P vs"
| "vec_fits P old v = False"

fun fields_fit :: "(u16 \<times> string \<times> (tsval \<Rightarrow> tsval \<Rightarrow> bool)) list \<Rightarrow> (u16 \<times> string \<times> tsval) list \<Rightarrow>
    (u16 \<times> string \<times> tsval) list \<Rightarrow> bool" where
  "fields_fit [] [] [] = True"
| "fields_fit ((i, n, P) # ps) ((i1, n1, old) # os) ((i2, n2, v) # vs) =
    (i1 = i \<and> n1 = n \<and> i2 = i \<and> n2 = n \<and> CHR 0x00 \<notin> set n \<and> P old v \<and> fields_fit ps os vs)"
| "fields_fit ps os vs = False"

definition rec_fits :: "(u16 \<times> string \<times> (tsval \<Rightarrow> tsval \<Rightarrow> bool)) list \<Rightarrow> tsval \<Rightarrow> tsval \<Rightarrow> bool" where
  "rec_fits ps old v = (case (old, v) of
     (VRec os, VRec vs) \<Rightarrow> fields_fit ps os vs \<and> distinct (map fst ps) \<and> distinct (map (\<lambda>p. fst (snd p)) ps)
   | _ \<Rightarrow> False)"

fun fits :: "ttype \<Rightarrow> tsval \<Rightarrow> tsval \<Rightarrow> bool" where
  "fits (TPrim k) old v = prim_fits k v"
| "fits (TArr n t) old v = arr_fits (fits t) old v"
| "fits (TVec t) old v = vec_fits (fits t (init_val t)) old v"
| "fits (TRec fs) old v = rec_fits (map (\<lambda>(i, n, t). (i, n, fits t)) fs) old v"

lemma string_roundtrip: "CHR 0x00 \<notin> set s \<Longrightarrow> map (\<lambda>b. char_of (unat b)) (term_bytes s) = s"
proof -
  assume s: "CHR 0x00 \<notin> set s"
  have u: "unat (of_char c :: u8) = of_char c" for c
  proof -
    have "unat (of_char c :: u8) = unat (of_nat (of_char c) :: u8)" by (simp only: of_nat_of_char)
    also have "\<dots> = of_char c mod 256" by (simp add: unat_of_nat)
    finally show ?thesis by simp
  qed
  then have b: "char_of (unat (of_char c :: u8)) = c" for c by simp
  have z: "of_char c = (0 :: u8) \<longleftrightarrow> c = CHR 0x00" for c
  proof
    assume "of_char c = (0 :: u8)"
    then have "c = char_of (0 :: nat)" using b [of c] by simp
    then show "c = CHR 0x00" by (simp add: char_of_def)
  qed simp
  have "takeWhile (\<lambda>b. b \<noteq> 0) (map of_char s) = (map of_char s :: u8 list)"
    unfolding takeWhile_eq_all_conv using s z by auto
  then have "term_bytes s = map of_char s" by (simp only: term_bytes_def)
  then show ?thesis by (simp add: comp_def b)
qed

subsection \<open>The small integers\<close>

lemma u8_below: "(ucast (v :: u8) :: u32) < 0xFF \<longleftrightarrow> v \<noteq> 0xFF"
proof -
  have "unat v < 256" using unsigned_less [of v, where ?'a = nat] by simp
  moreover have "v = 0xFF \<longleftrightarrow> unat v = 255" by (simp flip: unat_inj)
  ultimately show ?thesis by (auto simp: word_less_nat_alt)
qed

lemma u16_below: "(ucast (v :: u16) :: u32) < 0xFFFF \<longleftrightarrow> v \<noteq> 0xFFFF"
proof -
  have "unat v < 65536" using unsigned_less [of v, where ?'a = nat] by simp
  moreover have "v = 0xFFFF \<longleftrightarrow> unat v = 65535" by (simp flip: unat_inj)
  ultimately show ?thesis by (auto simp: word_less_nat_alt)
qed

lemma sint_inj: "sint (v :: 'a::len word) = sint w \<longleftrightarrow> v = w"
  by (metis scast_id signed_word_eqI)

lemma sint_widen: "sint (scast (v :: u8) :: u32) = sint v" "sint (scast (w :: u16) :: u32) = sint w"
  by (simp_all add: sint_up_scast is_up)

lemma i8_below: "sint (scast (v :: u8) :: u32) < 127 \<longleftrightarrow> v \<noteq> 0x7F"
  using sint_less [of v] sint_inj [of v "0x7F"] by (auto simp: sint_widen)

lemma i16_below: "sint (scast (v :: u16) :: u32) < 32767 \<longleftrightarrow> v \<noteq> 0x7FFF"
  using sint_less [of v] sint_inj [of v "0x7FFF"] by (auto simp: sint_widen)

lemma narrow_back:
  "(ucast (scast (v :: u8) :: u32) :: u8) = v" "(ucast (scast (w :: u16) :: u32) :: u16) = w"
  "(ucast (ucast (v :: u8) :: u32) :: u8) = v" "(ucast (ucast (w :: u16) :: u32) :: u16) = w"
  by (rule bit_word_eqI; simp add: bit_simps)+

subsection \<open>Decoding what was encoded\<close>

lemma zcbor_readsD:
  assumes "zcbor_reads R at"
  shows "moves at (zr_u32 R) ((CPrim (Zu32 a) # xs) # st) (Some a) (xs # st)"
    "moves at (zr_u64 R) ((CPrim (Zu64 b) # xs) # st) (Some b) (xs # st)"
    "moves at (zr_i32 R) ((CPrim (Zi32 a) # xs) # st) (Some a) (xs # st)"
    "moves at (zr_i64 R) ((CPrim (Zi64 b) # xs) # st) (Some b) (xs # st)"
    "moves at (zr_f32 R) ((CPrim (Zf32 a) # xs) # st) (Some a) (xs # st)"
    "moves at (zr_f64 R) ((CPrim (Zf64 b) # xs) # st) (Some b) (xs # st)"
    "moves at (zr_bool R) ((CPrim (Zbool t) # xs) # st) (Some t) (xs # st)"
    "moves at (zr_tstr R) ((CPrim (Ztstr s) # xs) # st) (Some s) (xs # st)"
    "moves at (zr_u32 R) ((CPrim (Ztstr s) # xs) # st) None ((CPrim (Ztstr s) # xs) # st)"
    "moves at (zr_u32 R) ([] # st) None ([] # st)" "moves at (zr_tstr R) ([] # st) None ([] # st)"
    "moves at (zr_list_start R) ((CList ys # xs) # st) True (ys # xs # st)"
    "moves at (zr_map_start R) ((CMap kvs # xs) # st) True (flat_pairs kvs # xs # st)"
    "moves at (zr_list_end R) ([] # st) True st" "moves at (zr_map_end R) ([] # st) True st"
  using assms by (simp_all add: zcbor_reads_def)

lemma zcbor_counts: "zcbor_reads R at \<Longrightarrow> at d (xs # st) \<Longrightarrow> zr_elem_count R d = length xs"
  unfolding zcbor_reads_def by blast

text \<open>\<open>reads_as\<close>: the action decodes an encoded value into a target it fits.\<close>

definition reads_as :: "('d \<Rightarrow> citem list list \<Rightarrow> bool) \<Rightarrow> bool \<Rightarrow> 'd dec_action \<Rightarrow> (tsval \<Rightarrow> tsval \<Rightarrow> bool) \<Rightarrow> bool" where
  "reads_as at ids act P \<longleftrightarrow> (\<forall>d xs st old v. at d ((item_of ids v # xs) # st) \<longrightarrow> P old v \<longrightarrow>
     (\<exists>d'. act old d = Some (True, d', v) \<and> at d' (xs # st)))"

lemma reads_asD: "reads_as at ids act P \<Longrightarrow> at d ((item_of ids v # xs) # st) \<Longrightarrow> P old v \<Longrightarrow>
    \<exists>d'. act old d = Some (True, d', v) \<and> at d' (xs # st)"
  unfolding reads_as_def by blast

abbreviation bops :: "'d zreader \<Rightarrow> u32 \<Rightarrow> 'd decoder_ops" where
  "bops R opts \<equiv> fixed_decoder_ops R opts"

lemmas bdec_defs = fixed_decoder_ops_def binary_decoder_ops_def bd_u8_def bd_u16_def bd_i8_def bd_i16_def bd_str_def

lemma reads_prim: "zcbor_reads R at \<Longrightarrow> reads_as at ids (\<lambda>old d. Some (dec_prim (bops R opts) k old d)) (\<lambda>old. prim_fits k)"
  unfolding reads_as_def
proof (intro allI impI)
  fix d xs st old v
  assume R: "zcbor_reads R at" and at: "at d ((item_of ids v # xs) # st)" and f: "prim_fits k v"
  obtain p where p: "v = Prim p" "kind_of p = k" "prim_ok p" using f by (auto simp: prim_fits_def split: tsval.splits)
  show "\<exists>d'. Some (dec_prim (bops R opts) k old d) = Some (True, d', v) \<and> at d' (xs # st)"
    using at p zcbor_readsD(1-8) [OF R, THEN movesD]
    by (cases p) (fastforce simp: bdec_defs put_prim_def u8_below u16_below i8_below i16_below narrow_back string_roundtrip)+
qed

lemma list_fits_reads:
  "reads_as at ids act P \<Longrightarrow> at d (map (item_of ids) vs # st) \<Longrightarrow> list_all2 P os vs \<Longrightarrow>
   \<exists>d'. dec_items act (length vs) (length pre) (pre @ os) d = Some (True, d', pre @ vs) \<and> at d' ([] # st)"
proof (induction vs arbitrary: os pre d)
  case (Cons v vs)
  then obtain x xs where os: "os = x # xs" "P x v" "list_all2 P xs vs" by (auto simp: list_all2_Cons2)
  obtain d1 where d1: "act x d = Some (True, d1, v)" "at d1 (map (item_of ids) vs # st)"
    using reads_asD [OF Cons.prems(1), of d v "map (item_of ids) vs" st x] Cons.prems(2) os(2) by auto
  show ?case using Cons.IH [OF Cons.prems(1) d1(2) os(3), of "pre @ [v]"] d1(1) by (simp add: os(1))
qed simp

lemma reads_array:
  assumes R: "zcbor_reads R at" and act: "reads_as at ids act P"
  shows "reads_as at ids (dec_array (bops R opts) act) (arr_fits P)"
  unfolding reads_as_def
proof (intro allI impI)
  fix d xs st old v
  assume at: "at d ((item_of ids v # xs) # st)" and f: "arr_fits P old v"
  then obtain os vs where v: "old = VArr os" "v = VArr vs" "list_all2 P os vs" by (cases "(P, old, v)" rule: arr_fits.cases) auto
  note len = list_all2_lengthD [OF v(3)]
  obtain d1 where d1: "zr_list_start R d = (True, d1)" "at d1 (map (item_of ids) vs # xs # st)"
    using movesD [OF zcbor_readsD(12) [OF R]] at by (fastforce simp: v(2))
  obtain d2 where d2: "dec_items act (length vs) 0 os d1 = Some (True, d2, vs)" "at d2 ([] # xs # st)"
    using list_fits_reads [OF act d1(2) v(3), of "[]"] by auto
  obtain d3 where d3: "zr_list_end R d2 = (True, d3)" "at d3 (xs # st)"
    using movesD [OF zcbor_readsD(14) [OF R] d2(2)] by blast
  show "\<exists>d'. dec_array (bops R opts) act old d = Some (True, d', v) \<and> at d' (xs # st)"
    using d1(1) d2(1) d3 zcbor_counts [OF R d1(2)] len
    by (simp add: dec_array_def bdec_defs bd_list_size_def v(1,2))
qed

lemma reads_vector_loop:
  assumes R: "zcbor_reads R at" and act: "reads_as at ids act P"
  shows "at d (map (item_of ids) vs # st) \<Longrightarrow> list_all (P x) vs \<Longrightarrow>
    \<exists>d'. list_loop (\<lambda>d. zr_elem_count R d \<noteq> 0)
        (\<lambda>i d vs. map_option (\<lambda>(r, d', v). (r, d', if r then vs @ [v] else vs)) (act x d)) i d acc =
      Some (True, d', acc @ vs) \<and> at d' ([] # st)"
proof (induction vs arbitrary: d i acc)
  case Nil
  then show ?case using zcbor_counts [OF R, of d "[]" st] by (subst list_loop.simps) simp
next
  case (Cons v vs)
  then obtain d1 where d1: "act x d = Some (True, d1, v)" "at d1 (map (item_of ids) vs # st)"
    using reads_asD [OF act, of d v "map (item_of ids) vs" st x] by auto
  show ?case using zcbor_counts [OF R Cons.prems(1)] d1(1) Cons.IH [OF d1(2), of "Suc i" "acc @ [v]"] Cons.prems(2)
    by (subst list_loop.simps) simp
qed

lemma reads_vector:
  assumes R: "zcbor_reads R at" and act: "reads_as at ids act P"
  shows "reads_as at ids (dec_vector (bops R opts) act x) (vec_fits (P x))"
  unfolding reads_as_def
proof (intro allI impI)
  fix d xs st old v
  assume at: "at d ((item_of ids v # xs) # st)" and f: "vec_fits (P x) old v"
  then obtain vs where v: "old = VList []" "v = VList vs" "list_all (P x) vs" by (cases "(P x, old, v)" rule: vec_fits.cases) auto
  obtain d1 where d1: "zr_list_start R d = (True, d1)" "at d1 (map (item_of ids) vs # xs # st)"
    using movesD [OF zcbor_readsD(12) [OF R]] at by (fastforce simp: v(2))
  note loop = reads_vector_loop [OF R act d1(2) v(3), of 0 "[]"]
  then obtain d2 where d2: "list_loop (\<lambda>d. zr_elem_count R d \<noteq> 0)
        (\<lambda>i d vs. map_option (\<lambda>(r, d', v). (r, d', if r then vs @ [v] else vs)) (act x d)) 0 d1 [] = Some (True, d2, vs)"
    "at d2 ([] # xs # st)" by auto
  obtain d3 where d3: "zr_list_end R d2 = (True, d3)" "at d3 (xs # st)"
    using movesD [OF zcbor_readsD(14) [OF R] d2(2)] by blast
  show "\<exists>d'. dec_vector (bops R opts) act x old d = Some (True, d', v) \<and> at d' (xs # st)"
    using d1(1) d2(1) d3 by (simp add: dec_vector_def decodeList_def bdec_defs v(1,2))
qed

lemma switchDecode_hit:
  "length pa = length pf \<Longrightarrow> \<forall>a \<in> set pa. \<not> P a \<Longrightarrow> P a \<Longrightarrow>
   switchDecode P (pa @ a # acts) (pf @ (i, n, v) # fs) d =
   map_option (\<lambda>(r, d', v'). (r, d', pf @ (i, n, v') # fs)) (snd (snd a) v d)"
  by (induction pa pf rule: list_induct2) (auto simp: option.map_comp comp_def split_def)

definition key_item :: "bool \<Rightarrow> u16 \<times> string \<times> tsval \<Rightarrow> citem list" where
  "key_item ids f = [CPrim (key_call ids (fst f) (fst (snd f))), item_of ids (snd (snd f))]"

lemma key_items_Cons: "concat (map (key_item ids) ((i, n, v) # fs)) =
    CPrim (key_call ids i n) # item_of ids v # concat (map (key_item ids) fs)"
  by (simp add: key_item_def)

lemma flat_fields: "flat_pairs (map (\<lambda>(i, n, v). (CPrim (key_call ids i n), item_of ids v)) fs) = concat (map (key_item ids) fs)"
  by (induction fs) (simp_all add: flat_pairs_def key_item_def case_prod_beta)

lemma decodeKey_reads:
  assumes R: "zcbor_reads R at" and at: "at d ((CPrim (key_call ids i n) # xs) # st)" and n: "CHR 0x00 \<notin> set n"
  shows "\<exists>d'. decodeKey (bops R opts) ident name d =
     (True, if ids then Some (ucast i) else ident, if ids then name else Some n, d') \<and> at d' (xs # st)"
proof (cases ids)
  case True
  then show ?thesis using movesD [OF zcbor_readsD(1) [OF R]] at by (fastforce simp: key_call_def decodeKey_def bdec_defs)
next
  case False
  with at have at': "at d ((CPrim (Ztstr (term_bytes n)) # xs) # st)" by (simp add: key_call_def)
  obtain d1 where d1: "zr_u32 R d = (None, d1)" "at d1 ((CPrim (Ztstr (term_bytes n)) # xs) # st)"
    using movesD [OF zcbor_readsD(9) [OF R] at'] by blast
  obtain d2 where d2: "zr_tstr R d1 = (Some (term_bytes n), d2)" "at d2 (xs # st)"
    using movesD [OF zcbor_readsD(8) [OF R] d1(2)] by blast
  show ?thesis using False d1(1) d2 string_roundtrip [OF n] by (simp add: decodeKey_def bdec_defs)
qed

lemma decodeKey_end:
  assumes R: "zcbor_reads R at" and at: "at d ([] # st)"
  shows "\<exists>d'. decodeKey (bops R opts) ident name d = (False, ident, name, d') \<and> at d' ([] # st)"
proof -
  obtain d1 where d1: "zr_u32 R d = (None, d1)" "at d1 ([] # st)" using movesD [OF zcbor_readsD(10) [OF R] at] by blast
  obtain d2 where d2: "zr_tstr R d1 = (None, d2)" "at d2 ([] # st)" using movesD [OF zcbor_readsD(11) [OF R] d1(2)] by blast
  show ?thesis using d1(1) d2 by (simp add: decodeKey_def bdec_defs)
qed

lemma class_member_hit:
  assumes "length pa = length pf" and "act old d = Some (True, d', v)"
    and "i \<notin> set (map fst pa)" "n \<notin> set (map (\<lambda>a. fst (snd a)) pa)" and "\<not> ids \<Longrightarrow> ident = None"
  shows "class_member ops (pa @ (i, n, act) # acts) (if ids then Some (ucast i) else ident) (if ids then name else Some n) d
      (pf @ (i, n, old) # fs) = Some (True, d', pf @ (i, n, v) # fs)"
proof (cases ids)
  case True
  have "\<forall>a \<in> set pa. \<not> ucast (fst a) = (ucast i :: u32)" using assms(3) by auto
  then have "switchDecode (\<lambda>a. ucast (fst a) = (ucast i :: u32)) (pa @ (i, n, act) # acts) (pf @ (i, n, old) # fs) d =
      Some (True, d', pf @ (i, n, v) # fs)" by (subst switchDecode_hit) (simp_all add: assms(1,2))
  with True show ?thesis by (simp add: class_member_def)
next
  case False
  have "\<forall>a \<in> set pa. \<not> fst (snd a) = n" using assms(4) by auto
  then have "switchDecode (\<lambda>a. fst (snd a) = n) (pa @ (i, n, act) # acts) (pf @ (i, n, old) # fs) d =
      Some (True, d', pf @ (i, n, v) # fs)" by (subst switchDecode_hit) (simp_all add: assms(1,2))
  with False assms(5) show ?thesis by (simp add: class_member_def)
qed

text \<open>\<open>P\<close> is what a value of type t must satisfy, \<open>dv\<close> how it is decoded.\<close>

lemma class_loop:
  assumes R: "zcbor_reads R at"
  shows "(\<And>f. f \<in> set ts \<Longrightarrow> reads_as at ids (dv (snd (snd f))) (P (snd (snd f)))) \<Longrightarrow>
    at d (concat (map (key_item ids) vs) # st) \<Longrightarrow>
    fields_fit (map (\<lambda>(i, n, t). (i, n, P t)) ts) os vs \<Longrightarrow> length pa = length pf \<Longrightarrow>
    distinct (map fst pa @ map fst ts) \<Longrightarrow> distinct (map (\<lambda>a. fst (snd a)) pa @ map (\<lambda>a. fst (snd a)) ts) \<Longrightarrow>
    (\<not> ids \<Longrightarrow> ident = None) \<Longrightarrow>
    \<exists>d'. map_loop (bops R opts) (class_member (bops R opts) (pa @ map (\<lambda>(i, n, t). (i, n, dv t)) ts))
        ident name d (pf @ os) = Some (True, d', pf @ vs) \<and> at d' ([] # st)"
proof (induction ts arbitrary: pa pf os vs d ident name)
  case Nil
  then have "os = []" "vs = []" by (cases os; cases vs; auto)+
  with decodeKey_end [OF R, of d st opts ident name] Nil.prems(2) show ?case by (subst map_loop.simps) auto
next
  case (Cons t ts)
  obtain i n ty where t: "t = (i, n, ty)" by (cases t) auto
  obtain old os' v vs' where ov: "os = (i, n, old) # os'" "vs = (i, n, v) # vs'" "CHR 0x00 \<notin> set n" "P ty old v"
      "fields_fit (map (\<lambda>(i, n, t). (i, n, P t)) ts) os' vs'"
    using Cons.prems(3) by (cases os; cases vs) (auto simp: t)
  have "at d ((CPrim (key_call ids i n) # item_of ids v # concat (map (key_item ids) vs')) # st)"
    using Cons.prems(2) unfolding ov(2) key_items_Cons by simp
  from decodeKey_reads [OF R this ov(3), of opts ident name] obtain d1 where
    d1: "decodeKey (bops R opts) ident name d = (True, if ids then Some (ucast i) else ident, if ids then name else Some n, d1)"
      "at d1 ((item_of ids v # concat (map (key_item ids) vs')) # st)" by blast
  obtain d2 where d2: "dv ty old d1 = Some (True, d2, v)" "at d2 (concat (map (key_item ids) vs') # st)"
    using reads_asD [of at ids "dv ty" "P ty", OF _ d1(2) ov(4)] Cons.prems(1) [of t] by (auto simp: t)
  have hit: "class_member (bops R opts) (pa @ map (\<lambda>(i, n, t). (i, n, dv t)) (t # ts))
      (if ids then Some (ucast i) else ident) (if ids then name else Some n) d1 (pf @ os) = Some (True, d2, pf @ (i, n, v) # os')"
    using class_member_hit [where act = "dv ty", OF Cons.prems(4) d2(1), of i n ids ident] Cons.prems(5,6,7) by (simp add: t ov)
  have "\<exists>d'. map_loop (bops R opts) (class_member (bops R opts) ((pa @ [(i, n, dv ty)]) @ map (\<lambda>(i, n, t). (i, n, dv t)) ts))
        (if ids then Some (ucast i) else ident) (if ids then name else Some n) d2 ((pf @ [(i, n, v)]) @ os') =
      Some (True, d', (pf @ [(i, n, v)]) @ vs') \<and> at d' ([] # st)"
    using Cons.prems(4-7) t by (intro Cons.IH [OF Cons.prems(1) d2(2) ov(5)]) auto
  then show ?case using hit d1(1) by (subst map_loop.simps) (simp add: t ov)
qed

lemma bops_map: "d_map_start (bops R opts) = zr_map_start R" "d_map_end (bops R opts) = zr_map_end R"
  "d_list_start (bops R opts) = zr_list_start R"
  by (simp_all add: bdec_defs)

lemma reads_class:
  assumes R: "zcbor_reads R at" and acts: "\<And>f. f \<in> set ts \<Longrightarrow> reads_as at ids (dv (snd (snd f))) (P (snd (snd f)))"
  shows "reads_as at ids (dec_class (bops R opts) (map (\<lambda>(i, n, t). (i, n, dv t)) ts)) (rec_fits (map (\<lambda>(i, n, t). (i, n, P t)) ts))"
  unfolding reads_as_def
proof (intro allI impI)
  fix d xs st old v
  assume at: "at d ((item_of ids v # xs) # st)" and f: "rec_fits (map (\<lambda>(i, n, t). (i, n, P t)) ts) old v"
  then obtain os vs where v: "old = VRec os" "v = VRec vs" "fields_fit (map (\<lambda>(i, n, t). (i, n, P t)) ts) os vs"
      "distinct (map fst ts)" "distinct (map (\<lambda>a. fst (snd a)) ts)"
    by (auto simp: rec_fits_def comp_def case_prod_beta split: tsval.splits)
  obtain d1 where d1: "zr_map_start R d = (True, d1)" "at d1 (concat (map (key_item ids) vs) # xs # st)"
    using movesD [OF zcbor_readsD(13) [OF R]] at by (fastforce simp: v(2) flat_fields)
  obtain d2 where d2: "map_loop (bops R opts) (class_member (bops R opts) (map (\<lambda>(i, n, t). (i, n, dv t)) ts)) None None d1 os =
      Some (True, d2, vs)" "at d2 ([] # xs # st)"
    using class_loop [OF R acts d1(2) v(3), of "[]" "[]" None opts None] v(4,5) by auto
  obtain d3 where d3: "zr_map_end R d2 = (True, d3)" "at d3 (xs # st)"
    using movesD [OF zcbor_readsD(15) [OF R] d2(2)] by blast
  show "\<exists>d'. dec_class (bops R opts) (map (\<lambda>(i, n, t). (i, n, dv t)) ts) old d = Some (True, d', v) \<and> at d' (xs # st)"
    using d1(1) d2(1) d3 by (simp add: dec_class_def decodeMap_def v(1,2) bops_map)
qed

lemma reads_val: "zcbor_reads R at \<Longrightarrow> reads_as at ids (dec_val (bops R opts) t) (fits t)"
proof (induction t)
  case (TPrim k)
  then show ?case using reads_prim [of R at ids opts k] by (simp add: reads_as_def)
next
  case (TArr n t)
  then show ?case using reads_array [of R at ids "dec_val (bops R opts) t" "fits t" opts] by (simp add: reads_as_def)
next
  case (TVec t)
  then show ?case using reads_vector [of R at ids "dec_val (bops R opts) t" "fits t" opts "init_val t"] by (simp add: reads_as_def)
next
  case (TRec fs)
  then have "\<And>f. f \<in> set fs \<Longrightarrow> reads_as at ids (dec_val (bops R opts) (snd (snd f))) (fits (snd (snd f)))"
    by fastforce
  then show ?case using reads_class [of R at fs ids "dec_val (bops R opts)" fits opts] TRec.prems by (simp add: reads_as_def)
qed

subsection \<open>Arrays of another length\<close>

lemma list_overruns:
  "reads_as at ids act P \<Longrightarrow> at d (map (item_of ids) (us @ w # ws) # st) \<Longrightarrow> list_all2 P os us \<Longrightarrow>
   dec_items act (length (us @ w # ws)) (length pre) (pre @ os) d = None"
proof (induction us arbitrary: os pre d)
  case (Cons v vs)
  then obtain x xs where os: "os = x # xs" "P x v" "list_all2 P xs vs" by (auto simp: list_all2_Cons2)
  obtain d1 where d1: "act x d = Some (True, d1, v)" "at d1 (map (item_of ids) (vs @ w # ws) # st)"
    using reads_asD [OF Cons.prems(1), of d v "map (item_of ids) (vs @ w # ws)" st x] Cons.prems(2) os(2) by auto
  show ?case using Cons.IH [OF Cons.prems(1) d1(2) os(3), of "pre @ [v]"] d1(1) by (simp add: os(1))
qed simp

lemma array_overruns:
  assumes R: "zcbor_reads R at" and act: "reads_as at ids act P"
    and at: "at d ((CList (map (item_of ids) (us @ w # ws)) # xs) # st)" and os: "list_all2 P os us"
  shows "dec_array (bops R opts) act (VArr os) d = None"
proof -
  obtain d1 where d1: "zr_list_start R d = (True, d1)" "at d1 (map (item_of ids) (us @ w # ws) # xs # st)"
    using movesD [OF zcbor_readsD(12) [OF R] at] by blast
  show ?thesis
    using d1(1) zcbor_counts [OF R d1(2)] list_all2_lengthD [OF os] list_overruns [OF act d1(2) os, of "[]"]
    by (simp add: dec_array_def bdec_defs bd_list_size_def)
qed

lemma array_refuses:
  assumes R: "zcbor_reads R at" and at: "at d ((CList ys # xs) # st)" and "length ys < length os"
    and "opts AND opt_allowUndersizedArrays = 0"
  shows "\<exists>d'. dec_array (bops R opts) act (VArr os) d = Some (False, d', VArr os)"
proof -
  obtain d1 where d1: "zr_list_start R d = (True, d1)" "at d1 (ys # xs # st)"
    using movesD [OF zcbor_readsD(12) [OF R] at] by blast
  show ?thesis using d1(1) zcbor_counts [OF R d1(2)] assms(3,4)
    by (simp add: dec_array_def bdec_defs bd_list_size_def)
qed

subsection \<open>A reader\<close>

text \<open>A reader whose state is the stack of items itself: it has the documented behaviour.\<close>

definition take_prim :: "(zcall \<Rightarrow> 'a option) \<Rightarrow> citem list list \<Rightarrow> 'a option \<times> citem list list" where
  "take_prim f st = (case st of (CPrim c # xs) # r \<Rightarrow> (case f c of Some v \<Rightarrow> (Some v, xs # r) | None \<Rightarrow> (None, st)) | _ \<Rightarrow> (None, st))"

definition stack_reader :: "citem list list zreader" where
  "stack_reader = \<lparr>
     zr_tstr = take_prim (\<lambda>c. case c of Ztstr s \<Rightarrow> Some s | _ \<Rightarrow> None),
     zr_bstr = take_prim (\<lambda>c. case c of Zbstr s \<Rightarrow> Some s | _ \<Rightarrow> None),
     zr_f32 = take_prim (\<lambda>c. case c of Zf32 s \<Rightarrow> Some s | _ \<Rightarrow> None),
     zr_f64 = take_prim (\<lambda>c. case c of Zf64 s \<Rightarrow> Some s | _ \<Rightarrow> None),
     zr_bool = take_prim (\<lambda>c. case c of Zbool s \<Rightarrow> Some s | _ \<Rightarrow> None),
     zr_u32 = take_prim (\<lambda>c. case c of Zu32 s \<Rightarrow> Some s | _ \<Rightarrow> None),
     zr_u64 = take_prim (\<lambda>c. case c of Zu64 s \<Rightarrow> Some s | _ \<Rightarrow> None),
     zr_i32 = take_prim (\<lambda>c. case c of Zi32 s \<Rightarrow> Some s | _ \<Rightarrow> None),
     zr_i64 = take_prim (\<lambda>c. case c of Zi64 s \<Rightarrow> Some s | _ \<Rightarrow> None),
     zr_nil = \<lambda>st. (False, st),
     zr_list_start = \<lambda>st. (case st of (CList ys # xs) # r \<Rightarrow> (True, ys # xs # r) | _ \<Rightarrow> (False, st)),
     zr_list_end = \<lambda>st. (case st of [] # r \<Rightarrow> (True, r) | _ \<Rightarrow> (False, st)),
     zr_map_start = \<lambda>st. (case st of (CMap kvs # xs) # r \<Rightarrow> (True, flat_pairs kvs # xs # r) | _ \<Rightarrow> (False, st)),
     zr_map_end = \<lambda>st. (case st of [] # r \<Rightarrow> (True, r) | _ \<Rightarrow> (False, st)),
     zr_skip = \<lambda>st. (case st of (c # xs) # r \<Rightarrow> (True, xs # r) | _ \<Rightarrow> (False, st)),
     zr_elem_count = \<lambda>st. (case st of xs # r \<Rightarrow> length xs | [] \<Rightarrow> 0),
     zr_major = \<lambda>st. (case st of (CList ys # xs) # r \<Rightarrow> 4 | (CMap kvs # xs) # r \<Rightarrow> 5 | (CPrim (Ztstr s) # xs) # r \<Rightarrow> 3 | _ \<Rightarrow> 0),
     zr_rewind = id\<rparr>"

lemma stack_reader_reads: "zcbor_reads stack_reader (=)"
  by (simp add: zcbor_reads_def moves_def stack_reader_def take_prim_def)

subsection \<open>Properties\<close>


definition sample_type :: ttype where
  "sample_type = TRec [(0x300, ''rBatVolt_V'', TPrim KF32), (0x301, ''aErrors'', TArr 2 (TPrim KU16)), (0x302, ''aNames'', TVec (TPrim KStr))]"

definition sample_rec :: "u32 \<Rightarrow> tsval list \<Rightarrow> tsval list \<Rightarrow> tsval" where
  "sample_rec volt errs names =
     VRec [(0x300, ''rBatVolt_V'', Prim (PF32 volt)), (0x301, ''aErrors'', VArr errs), (0x302, ''aNames'', VList names)]"

lemma sample_fits: "fits sample_type (sample_rec 0 [Prim (PU16 1), Prim (PU16 2)] [])
    (sample_rec 0x41200000 [Prim (PU16 7), Prim (PU16 0xFFFE)] [Prim (PStr ''cell''), Prim (PStr '''')])"
  by (simp add: sample_type_def sample_rec_def rec_fits_def prim_fits_def)


text \<open>The four decode functions that narrow the integer they read accept every value the encoder writes
  except the largest of the type: that one is refused, the item is consumed, and the target keeps its value.\<close>

theorem small_int_limits:
  assumes "zcbor_reads R at"
  shows "(at d ((CPrim (prim_call (PU8 a)) # xs) # st) \<longrightarrow>
      (\<exists>d'. d_u8 (fixed_decoder_ops R opts) d = (if a = 0xFF then None else Some a, d') \<and> at d' (xs # st))) \<and>
    (at d ((CPrim (prim_call (PU16 b)) # xs) # st) \<longrightarrow>
      (\<exists>d'. d_u16 (fixed_decoder_ops R opts) d = (if b = 0xFFFF then None else Some b, d') \<and> at d' (xs # st))) \<and>
    (at d ((CPrim (prim_call (PI8 a)) # xs) # st) \<longrightarrow>
      (\<exists>d'. d_i8 (fixed_decoder_ops R opts) d = (if a = 0x7F then None else Some a, d') \<and> at d' (xs # st))) \<and>
    (at d ((CPrim (prim_call (PI16 b)) # xs) # st) \<longrightarrow>
      (\<exists>d'. d_i16 (fixed_decoder_ops R opts) d = (if b = 0x7FFF then None else Some b, d') \<and> at d' (xs # st)))"
  using zcbor_readsD(1,3) [OF assms, THEN movesD]
  by (fastforce simp: bdec_defs u8_below u16_below i8_below i16_below narrow_back)

theorem small_int_limits_witness:
  "d_u8 (fixed_decoder_ops stack_reader 0) [[CPrim (prim_call (PU8 0xFF))]] = (None, [[]])"
  using small_int_limits [OF stack_reader_reads, where d = "[[CPrim (prim_call (PU8 0xFF))]]" and a = "0xFF" and xs = "[]" and st = "[]" and opts = 0]
  by auto

text \<open>C27. Decoding into an array looks at the element count of the stream: with fewer elements than the
  array has, and without the option for undersized arrays, it fails and leaves the array as it is; with
  more elements it decodes past the end of the array, an out-of-bounds write.\<close>

theorem array_count_checked_below_only:
  assumes "zcbor_reads R at" and "at d ((CList (map (item_of ids) vs) # xs) # st)"
  shows "(length vs < length os \<and> opts AND opt_allowUndersizedArrays = 0 \<longrightarrow>
       (\<exists>d'. dec_val (fixed_decoder_ops R opts) (TArr k t) (VArr os) d = Some (False, d', VArr os))) \<and>
     (length os < length vs \<and> list_all2 (fits t) os (take (length os) vs) \<longrightarrow>
       dec_val (fixed_decoder_ops R opts) (TArr k t) (VArr os) d = None)"
proof (intro conjI impI)
  assume "length vs < length os \<and> opts AND opt_allowUndersizedArrays = 0"
  then show "\<exists>d'. dec_val (fixed_decoder_ops R opts) (TArr k t) (VArr os) d = Some (False, d', VArr os)"
    using array_refuses [OF assms, of os opts] by simp
next
  assume a: "length os < length vs \<and> list_all2 (fits t) os (take (length os) vs)"
  then have "vs = take (length os) vs @ vs ! length os # drop (Suc (length os)) vs" by (simp add: id_take_nth_drop)
  then show "dec_val (fixed_decoder_ops R opts) (TArr k t) (VArr os) d = None"
    using array_overruns [OF assms(1) reads_val [OF assms(1)], of d ids "take (length os) vs" "vs ! length os"
        "drop (Suc (length os)) vs" xs st t os opts] assms(2) a by simp
qed

theorem array_count_checked_below_only_witness:
  "dec_val (fixed_decoder_ops stack_reader 0) (TArr 1 (TPrim KU32)) (VArr [Prim (PU32 5)])
     [[item_of True (VArr [Prim (PU32 1), Prim (PU32 2)])]] = None"
  using array_count_checked_below_only [OF stack_reader_reads refl, where os = "[Prim (PU32 5)]" and vs = "[Prim (PU32 1), Prim (PU32 2)]"
      and ids = True and xs = "[]" and st = "[]" and opts = 0 and t = "TPrim KU32"]
  by (simp add: prim_fits_def)

end
