(* ===== verification/RequestContext.thy ===== *)
theory RequestContext imports Registry BinaryDecoder begin

text \<open>
  The request contexts of include/thingset++/ThingSetRequestContext.hpp and src/ThingSetRequestContext.cpp: what a
  request says about its endpoint, the encoder of its response and the decoder of its payload, and how a
  gateway strips the node id from a request it forwards. The virtual functions encoder() and decoder() are the
  operation records of the context. \<open>cx_head\<close> is the header of the response, before the
  encoder's buffer. A result None means an access outside an array.
\<close>

subsection \<open>The context\<close>

datatype proto = Binary | Text

record ('e, 'd) rctx =
  cx_proto :: proto                  \<comment> \<open>the subclass\<close>
  cx_type :: u8                      \<comment> \<open>_requestType\<close>
  cx_id :: "u16 option"
  cx_path :: "string option"
  cx_node :: nref
  cx_index :: "nat option"           \<comment> \<open>index, None is SIZE_MAX\<close>
  cx_eops :: "'e encoder_ops"
  cx_dops :: "'d decoder_ops"
  cx_enc :: 'e
  cx_dec :: 'd
  cx_head :: "u8 list"

definition is_type :: "request_type \<Rightarrow> ('e, 'd) rctx \<Rightarrow> bool" where
  "is_type t c = (case cx_proto c of Binary \<Rightarrow> cx_type c = binary_request_val t
                  | Text \<Rightarrow> text_request_val t = Some (cx_type c))"

definition isGet :: "('e, 'd) rctx \<Rightarrow> bool" where "isGet = is_type rq_get"
definition isFetch :: "('e, 'd) rctx \<Rightarrow> bool" where "isFetch = is_type rq_fetch"
definition isUpdate :: "('e, 'd) rctx \<Rightarrow> bool" where "isUpdate = is_type rq_update"
definition isDelete :: "('e, 'd) rctx \<Rightarrow> bool" where "isDelete = is_type rq_remove"
definition isExec :: "('e, 'd) rctx \<Rightarrow> bool" where "isExec = is_type rq_exec"
definition isForward :: "('e, 'd) rctx \<Rightarrow> bool" where "isForward = is_type rq_forward"

definition hasValidEndpoint :: "('e, 'd) rctx \<Rightarrow> bool" where
  "hasValidEndpoint c \<longleftrightarrow> cx_id c \<noteq> None \<or> cx_path c \<noteq> None"

definition isToBeForwarded :: "('e, 'd) rctx \<Rightarrow> bool" where
  "isToBeForwarded c \<longleftrightarrow> isForward c \<or>
     (case cx_path c of Some p \<Rightarrow> length p > 1 \<and> hd p = CHR ''/'' | None \<Rightarrow> False)"

definition useIds :: "('e, 'd) rctx \<Rightarrow> bool" where "useIds c \<longleftrightarrow> cx_id c \<noteq> None"

definition getHeaderLength :: "('e, 'd) rctx \<Rightarrow> nat" where
  "getHeaderLength c = (case cx_proto c of Binary \<Rightarrow> 1 | Text \<Rightarrow> 4)"

text \<open>\<open>find('/', 1)\<close> and \<open>substr\<close>.\<close>

definition tryGetNodeId :: "string \<Rightarrow> string option" where
  "tryGetNodeId p = (if CHR ''/'' \<in> set (drop 1 p) then Some (takeWhile (\<lambda>c. c \<noteq> CHR ''/'') (drop 1 p)) else None)"

text \<open>The status: one byte, or a colon and two hexadecimal digits (the terminator of snprintf becomes the space).\<close>

definition hex_digit :: "nat \<Rightarrow> u8" where
  "hex_digit n = of_nat (if n < 10 then 48 + n else 55 + n)"

definition binary_status :: "status_code \<Rightarrow> u8 list" where "binary_status s = [status_val s]"

definition text_status :: "status_code \<Rightarrow> u8 list" where
  "text_status s = [58, hex_digit (unat (status_val s) div 16), hex_digit (unat (status_val s) mod 16), 32]"

definition setStatus :: "status_code \<Rightarrow> ('e, 'd) rctx \<Rightarrow> ('e, 'd) rctx" where
  "setStatus s c = c\<lparr>cx_head := (case cx_proto c of Binary \<Rightarrow> binary_status s | Text \<Rightarrow> text_status s)\<rparr>"

subsection \<open>Construction\<close>

text \<open>
  The binary context tries to read a string, then an integer. \<open>mk\<close> is the constructor of the decoder on the
  bytes after the verb, with two elements.
\<close>

definition binary_context :: "'e encoder_ops \<Rightarrow> 'd decoder_ops \<Rightarrow> (u8 list \<Rightarrow> 'd) \<Rightarrow> 'e \<Rightarrow> u8 list \<Rightarrow> nat \<Rightarrow> ('e, 'd) rctx" where
  "binary_context EO DO mk e req n =
    (let (p, d1) = d_str DO (mk (take (n - 1) (drop 1 req)));
         (i, d2) = (case p of Some s \<Rightarrow> (None, d1) | None \<Rightarrow> d_u16 DO d1)
     in \<lparr>cx_proto = Binary, cx_type = hd req, cx_id = i, cx_path = p, cx_node = 0, cx_index = None,
         cx_eops = EO, cx_dops = DO, cx_enc = e, cx_dec = d2, cx_head = []\<rparr>)"

text \<open>\<open>memchr\<close> from p over n bytes: the index it finds, or None; it reads until it finds one.\<close>

definition memchr :: "u8 list \<Rightarrow> nat \<Rightarrow> u8 \<Rightarrow> nat \<Rightarrow> nat option option" where
  "memchr buf p b n =
    (let t = takeWhile (\<lambda>c. c \<noteq> b) (take n (drop p buf)) in
     if length t < length (take n (drop p buf)) then Some (Some (p + length t))
     else if p + n \<le> length buf then Some None else None)"

definition chars :: "u8 list \<Rightarrow> string" where "chars bs = map (\<lambda>b. char_of (unat b)) bs"

text \<open>The text context: the path ends at the first space, the payload is what follows it.\<close>

definition text_context :: "'e encoder_ops \<Rightarrow> 'd decoder_ops \<Rightarrow> (u8 list \<Rightarrow> 'd) \<Rightarrow> 'e \<Rightarrow> u8 list \<Rightarrow> nat \<Rightarrow> ('e, 'd) rctx option" where
  "text_context EO DO mk e req n =
    map_option (\<lambda>f.
      let (p, payload) = (case f of
             Some pathEnd \<Rightarrow> (take (pathEnd - 1) (drop 1 req), take (n - 1 - (pathEnd - 1)) (drop (pathEnd + 1) req))
           | None \<Rightarrow> (take (n - 1) (drop 1 req), take (n - 1) (drop 1 req)))
      in \<lparr>cx_proto = Text, cx_type = hd req, cx_id = None, cx_path = Some (chars p), cx_node = 0, cx_index = None,
          cx_eops = EO, cx_dops = DO, cx_enc = e, cx_dec = mk payload, cx_head = []\<rparr>)
      (memchr req 1 32 n)"

subsection \<open>Stripping the node id\<close>

text \<open>
  \<open>rewrite\<close> returns the new length, the index the request pointer moved to, the buffer and the node id; length
  0 means failure. Lengths are 64 bits wide.
\<close>

type_synonym rewritten = "nat \<times> nat \<times> u8 list \<times> string"

definition size_minus :: "nat \<Rightarrow> nat \<Rightarrow> nat" where
  "size_minus a b = (if b \<le> a then a - b else a + 2 ^ 64 - b)"

definition ZCBOR_VALUE_IN_HEADER :: nat where "ZCBOR_VALUE_IN_HEADER = 23"

fun search_sub :: "'a list \<Rightarrow> 'a list \<Rightarrow> nat" where
  "search_sub [] pat = 0"
| "search_sub (x # xs) pat = (if take (length pat) (x # xs) = pat then 0 else Suc (search_sub xs pat))"

definition rewrite_new :: "u8 list \<Rightarrow> nat \<Rightarrow> rewritten option" where
  "rewrite_new buf n =
    (if length buf < 2 then None
     else if drop_bit 5 (buf ! 1) = 3 then
       (let len = unat (buf ! 1 AND 0x1f) in
        if len \<le> ZCBOR_VALUE_IN_HEADER
        then (if length buf < 2 + len then None
              else Some (size_minus n (2 + len), 2 + len, buf, chars (take len (drop 2 buf))))
        else Some (0, 0, buf, []))
     else Some (0, 0, buf, []))"

definition bytes :: "string \<Rightarrow> u8 list" where "bytes s = map of_char s"

definition rewrite_old :: "string \<Rightarrow> u8 list \<Rightarrow> nat \<Rightarrow> rewritten option" where
  "rewrite_old path buf n =
    (case tryGetNodeId path of
       None \<Rightarrow> Some (0, 0, buf, [])
     | Some nodeId \<Rightarrow>
         (let i = search_sub (take (n - 1) buf) (bytes nodeId) in
          if i = n - 1 then Some (0, 0, buf, nodeId)
          else let start = i + length nodeId + 1;
                   newLen = length path - length nodeId - 2;
                   hdr = (if newLen \<le> ZCBOR_VALUE_IN_HEADER then [0x60 OR of_nat newLen] else [0x78, of_nat newLen])
               in if start < length hdr + 1 then None
                  else let p = start - length hdr;
                           buf1 = overwrite buf p hdr;
                           buf2 = buf1[p - 1 := buf1 ! 0]
                       in Some (size_minus (n + 1) (p - 1), p - 1, buf2, nodeId)))"

definition binary_rewrite :: "('e, 'd) rctx \<Rightarrow> u8 list \<Rightarrow> nat \<Rightarrow> rewritten option" where
  "binary_rewrite c buf n =
    (if isForward c then rewrite_new buf n
     else case cx_path c of Some path \<Rightarrow> rewrite_old path buf n | None \<Rightarrow> None)"

definition alnum :: "u8 \<Rightarrow> bool" where
  "alnum c \<longleftrightarrow> (48 \<le> c \<and> c \<le> 57) \<or> (97 \<le> c \<and> c \<le> 122) \<or> (65 \<le> c \<and> c \<le> 90)"

text \<open>The other branch of the text rewriter indexes the pointer to the request pointer instead of the request.\<close>

definition text_rewrite :: "('e, 'd) rctx \<Rightarrow> u8 list \<Rightarrow> nat \<Rightarrow> rewritten option" where
  "text_rewrite c buf n =
    (if isForward c
     then (let i = 1 + length (takeWhile alnum (take (n - 1) (drop 1 buf)))
           in Some (size_minus n i, i, buf, chars (take (i - 1) (drop 1 buf))))
     else case cx_path c of
            Some path \<Rightarrow> (case tryGetNodeId path of None \<Rightarrow> Some (0, 0, buf, []) | Some nodeId \<Rightarrow> None)
          | None \<Rightarrow> None)"

subsection \<open>What the rewriters do\<close>

text \<open>A CBOR text string of at most 255 bytes.\<close>

definition cbor_tstr :: "string \<Rightarrow> u8 list" where
  "cbor_tstr s = (if length s \<le> ZCBOR_VALUE_IN_HEADER then [0x60 OR of_nat (length s)] else [0x78, of_nat (length s)]) @ bytes s"

lemma short_header:
  assumes "k \<le> 23"
  shows "drop_bit 5 (0x60 OR of_nat k :: u8) = 3 \<and> unat ((0x60 OR of_nat k :: u8) AND 0x1f) = k"
proof -
  have "k \<in> set [0..<24]" using assms by auto
  then show ?thesis by (simp add: upt_rec) (elim disjE; simp)
qed

lemma chars_bytes [simp]: "chars (bytes s) = s"
  by (simp add: chars_def bytes_def comp_def)

lemma length_bytes [simp]: "length (bytes s) = length s"
  by (simp add: bytes_def)

lemma bytes_append [simp]: "bytes (s @ t) = bytes s @ bytes t" "bytes (c # s) = of_char c # bytes s"
  by (simp_all add: bytes_def)

lemma rewrite_new_strips:
  assumes "length nid \<le> ZCBOR_VALUE_IN_HEADER"
  shows "rewrite_new (verb # cbor_tstr nid @ inner) n =
    Some (size_minus n (2 + length nid), 2 + length nid, verb # cbor_tstr nid @ inner, nid)"
  using short_header [of "length nid"] assms
  by (simp add: rewrite_new_def cbor_tstr_def ZCBOR_VALUE_IN_HEADER_def Let_def)

lemma tryGetNodeId_path: "CHR ''/'' \<notin> set nid \<Longrightarrow> tryGetNodeId (CHR ''/'' # nid @ CHR ''/'' # rest) = Some nid"
  by (auto simp: tryGetNodeId_def takeWhile_tail)

lemma drop_overwrite_at: "p \<le> length buf \<Longrightarrow> drop p (overwrite buf p xs) = xs @ drop (p + length xs) buf"
  by (simp add: overwrite_def)

lemma drop_update_prev:
  assumes "0 < p" "p \<le> length buf"
  shows "drop (p - 1) (buf[p - 1 := x]) = x # drop p buf"
proof -
  have "drop (p - 1) (buf[p - 1 := x]) = (buf[p - 1 := x]) ! (p - 1) # drop (Suc (p - 1)) (buf[p - 1 := x])"
    using assms by (subst Cons_nth_drop_Suc) auto
  then show ?thesis using assms by simp
qed

lemma rewrite_old_path:
  fixes nid rest :: string and buf hdr payload :: "u8 list"
  assumes buf: "buf = verb # hdr @ bytes (CHR ''/'' # nid @ CHR ''/'' # rest) @ payload" and n: "n = length buf"
    and slash: "CHR ''/'' \<notin> set nid" and nid: "nid \<noteq> []" and hdr: "hdr \<noteq> []" and i: "i = length hdr + 2"
    and found: "search_sub (take (n - 1) buf) (bytes nid) = i"
  shows "\<exists>off buf'. rewrite_old (CHR ''/'' # nid @ CHR ''/'' # rest) buf n = Some (n + 1 - off, off, buf', nid) \<and>
     off < n \<and> length buf' = n \<and> drop off buf' = verb # cbor_tstr rest @ payload"
proof -
  define h where "h = (if length rest \<le> ZCBOR_VALUE_IN_HEADER then [0x60 OR of_nat (length rest)] else [0x78, of_nat (length rest) :: u8])"
  define start where "start = i + length nid + 1"
  define p where "p = start - length h"
  have len: "length h \<le> 2" "0 < length hdr" "0 < length nid" "length buf = length hdr + length nid + length rest + length payload + 3"
    using hdr nid by (auto simp: h_def buf)
  then have p: "0 < p" "p + length h = start" "start \<le> length buf" "p \<le> length buf" "\<not> start < length h + 1" "i \<noteq> n - 1"
    using i n by (auto simp: p_def start_def)
  have rest: "drop start buf = bytes rest @ payload" by (simp add: buf start_def i)
  have l1: "length (overwrite buf p h) = length buf" using p by (simp add: length_overwrite)
  have v: "overwrite buf p h ! 0 = verb" using p len by (subst nth_overwrite) (auto simp: buf)
  have nl: "length (CHR ''/'' # nid @ CHR ''/'' # rest) - length nid - 2 = length rest" by simp
  have "rewrite_old (CHR ''/'' # nid @ CHR ''/'' # rest) buf n =
      Some (size_minus (n + 1) (p - 1), p - 1, (overwrite buf p h)[p - 1 := verb], nid)"
    using p(5,6) v
    by (simp only: rewrite_old_def tryGetNodeId_path [OF slash] option.case Let_def found nl
        h_def [symmetric] start_def [symmetric] p_def [symmetric] if_False)
  moreover have "drop (p - 1) ((overwrite buf p h)[p - 1 := verb]) = verb # cbor_tstr rest @ payload"
    using p l1 rest by (subst drop_update_prev) (simp_all add: drop_overwrite_at cbor_tstr_def h_def)
  ultimately show ?thesis using p n l1 by (auto simp: size_minus_def)
qed

subsection \<open>Properties\<close>

text \<open>C23. A request to forward that starts with a node id, as a CBOR string of at most 23 bytes or as the letters and
  digits after the text verb, is cut behind the id: the node id and the rest are what they were. The
  binary rewriter does not compare the two lengths: for a request shorter than its node id announces
  the new length wraps around to almost 2^64.\<close>

theorem forward_strips_node_id:
  assumes "isForward c" and "length nid \<le> 23"
  shows "2 + length nid \<le> n \<Longrightarrow>
      binary_rewrite c (verb # cbor_tstr nid @ inner) n =
        Some (n - (2 + length nid), 2 + length nid, verb # cbor_tstr nid @ inner, nid) \<and>
      drop (2 + length nid) (verb # cbor_tstr nid @ inner) = inner \<and>
      (list_all alnum (bytes nid) \<and> (inner = [] \<or> \<not> alnum (hd inner)) \<longrightarrow>
       text_rewrite c (verb # bytes nid @ inner) (1 + length nid + length inner) =
         Some (length inner, 1 + length nid, verb # bytes nid @ inner, nid) \<and>
       drop (1 + length nid) (verb # bytes nid @ inner) = inner) \<and>
      (\<forall>m < 2 + length nid. \<exists>big \<ge> 2 ^ 64 - 25. binary_rewrite c (verb # cbor_tstr nid @ inner) m =
        Some (big, 2 + length nid, verb # cbor_tstr nid @ inner, nid))"
proof (intro conjI impI allI)
  assume n: "2 + length nid \<le> n"
  have b: "binary_rewrite c (verb # cbor_tstr nid @ inner) m =
      Some (size_minus m (2 + length nid), 2 + length nid, verb # cbor_tstr nid @ inner, nid)" for m
    using rewrite_new_strips [of nid verb inner m] assms by (simp add: binary_rewrite_def ZCBOR_VALUE_IN_HEADER_def)
  show "binary_rewrite c (verb # cbor_tstr nid @ inner) n =
        Some (n - (2 + length nid), 2 + length nid, verb # cbor_tstr nid @ inner, nid)"
    using n by (simp add: b size_minus_def)
  show "drop (2 + length nid) (verb # cbor_tstr nid @ inner) = inner"
    using assms(2) by (simp add: cbor_tstr_def ZCBOR_VALUE_IN_HEADER_def)
  show "drop (1 + length nid) (verb # bytes nid @ inner) = inner" by simp
  fix m assume "m < 2 + length nid"
  then show "\<exists>big \<ge> 2 ^ 64 - 25. binary_rewrite c (verb # cbor_tstr nid @ inner) m =
        Some (big, 2 + length nid, verb # cbor_tstr nid @ inner, nid)"
    using assms(2) by (intro exI [of _ "size_minus m (2 + length nid)"]) (simp add: b size_minus_def)
next
  assume a: "list_all alnum (bytes nid) \<and> (inner = [] \<or> \<not> alnum (hd inner))"
  have "takeWhile alnum (bytes nid @ inner) = bytes nid"
    using a by (cases inner) (auto simp: takeWhile_append list_all_iff)
  then show "text_rewrite c (verb # bytes nid @ inner) (1 + length nid + length inner) =
         Some (length inner, 1 + length nid, verb # bytes nid @ inner, nid)"
    using assms(1) by (simp add: text_rewrite_def Let_def size_minus_def)
qed

text \<open>A request that names a node of another device, as the contexts see it.\<close>

definition sample_context :: "proto \<Rightarrow> u8 \<Rightarrow> string option \<Rightarrow> (unit, unit) rctx" where
  "sample_context p t path = \<lparr>cx_proto = p, cx_type = t, cx_id = None, cx_path = path, cx_node = 0, cx_index = None,
     cx_eops = undefined, cx_dops = undefined, cx_enc = (), cx_dec = (), cx_head = []\<rparr>"

theorem forward_strips_node_id_witness:
  "binary_rewrite (sample_context Binary 0x1c None) (0x1c # cbor_tstr ''abc'' @ [1, 0]) 7 =
     Some (2, 5, 0x1c # cbor_tstr ''abc'' @ [1, 0], ''abc'')"
  using forward_strips_node_id [of "sample_context Binary 0x1c None" "''abc''" 7 "0x1c" "[1, 0]"]
  by (simp add: isForward_def is_type_def sample_context_def)

text \<open>A request with the node id in front of the path is rewritten in place to the request for the rest of the path
  with the same verb and payload. The length returned for a request of n bytes is one more than the
  rewritten request has: the receiver sees one byte that is not part of it.\<close>

theorem path_rewrite_one_too_long:
  fixes nid rest :: string and hdr payload :: "u8 list"
  assumes "cx_path c = Some (CHR ''/'' # nid @ CHR ''/'' # rest)" and "\<not> isForward c"
    and "CHR ''/'' \<notin> set nid" and "nid \<noteq> []" and "hdr \<noteq> []"
    and "buf = verb # hdr @ bytes (CHR ''/'' # nid @ CHR ''/'' # rest) @ payload"
    and "search_sub (take (length buf - 1) buf) (bytes nid) = length hdr + 2"
  shows "\<exists>len off buf'. binary_rewrite c buf (length buf) = Some (len, off, buf', nid) \<and>
     drop off buf' = verb # cbor_tstr rest @ payload \<and> len = length (drop off buf') + 1"
proof -
  obtain off buf' where r: "rewrite_old (CHR ''/'' # nid @ CHR ''/'' # rest) buf (length buf) = Some (length buf + 1 - off, off, buf', nid)"
      "off < length buf" "length buf' = length buf" "drop off buf' = verb # cbor_tstr rest @ payload"
    using rewrite_old_path [OF assms(6) refl assms(3-5) refl assms(7)] by blast
  with assms(1,2) show ?thesis by (auto simp: binary_rewrite_def)
qed

theorem path_rewrite_one_too_long_witness:
  "\<exists>len off buf'. binary_rewrite (sample_context Binary 1 (Some ''/ab/Bat'')) (1 # [0x67] @ bytes ''/ab/Bat'' @ [])
       (length (1 # [0x67] @ bytes ''/ab/Bat'' @ [])) = Some (len, off, buf', ''ab'') \<and>
     drop off buf' = 1 # cbor_tstr ''Bat'' @ [] \<and> len = length (drop off buf') + 1"
  by (rule path_rewrite_one_too_long [where hdr = "[0x67]" and rest = "''Bat''"])
    (simp_all add: sample_context_def isForward_def is_type_def bytes_def)

text \<open>Two paths make the rewriters write outside the request: the text rewriter for every path with a node id,
  as it indexes the pointer it was given and not the request, and the binary rewriter for an empty
  node id, where the new header takes the place of the verb and the verb goes in front of the buffer.\<close>

theorem rewrite_out_of_bounds:
  assumes "\<not> isForward c"
  shows "(cx_path c = Some (CHR ''/'' # nid @ CHR ''/'' # rest) \<and> CHR ''/'' \<notin> set nid \<longrightarrow> text_rewrite c buf n = None) \<and>
    (cx_path c = Some (CHR ''/'' # CHR ''/'' # rest) \<and> 2 < n \<and> n \<le> length buf \<longrightarrow> binary_rewrite c buf n = None)"
proof (intro conjI impI)
  assume "cx_path c = Some (CHR ''/'' # nid @ CHR ''/'' # rest) \<and> CHR ''/'' \<notin> set nid"
  then show "text_rewrite c buf n = None" using assms tryGetNodeId_path [of nid rest] by (simp add: text_rewrite_def)
next
  assume a: "cx_path c = Some (CHR ''/'' # CHR ''/'' # rest) \<and> 2 < n \<and> n \<le> length buf"
  then have "take (n - 1) buf \<noteq> []" by auto
  then have "search_sub (take (n - 1) buf) (bytes []) = 0" by (cases "take (n - 1) buf") (simp_all add: bytes_def)
  then show "binary_rewrite c buf n = None" using a assms tryGetNodeId_path [of "[]" rest]
    by (simp add: binary_rewrite_def rewrite_old_def Let_def)
qed

theorem rewrite_out_of_bounds_witness:
  "text_rewrite (sample_context Text 0x3f (Some ''/ab/Bat'')) (bytes ''?/ab/Bat'') 8 = None"
  using rewrite_out_of_bounds [of "sample_context Text 0x3f (Some ''/ab/Bat'')" "''ab''" "''Bat''" "bytes ''?/ab/Bat''" 8]
  by (simp add: sample_context_def isForward_def is_type_def)

text \<open>A text request is split at its first space into the path and the payload, but the decoder is given one byte more than
  the payload: whatever the byte behind the request is.\<close>

theorem text_payload_one_too_long:
  assumes "32 \<notin> set p" and "n = length p + length payload + 2"
  shows "\<exists>c. text_context EO DO mk e (verb # p @ 32 # payload @ stale # after) n = Some c \<and>
     cx_path c = Some (chars p) \<and> cx_type c = verb \<and> cx_dec c = mk (payload @ [stale])"
proof -
  have "takeWhile (\<lambda>c. c \<noteq> 32) (take n (p @ 32 # payload @ stale # after)) = p"
    using assms by (auto simp: takeWhile_tail take_Cons')
  moreover have "length p < length (take n (p @ 32 # payload @ stale # after))" using assms(2) by simp
  ultimately have "memchr (verb # p @ 32 # payload @ stale # after) 1 32 n = Some (Some (Suc (length p)))"
    by (simp add: memchr_def)
  then show ?thesis using assms(2) by (simp add: text_context_def)
qed

theorem text_payload_one_too_long_witness:
  "\<forall>EO DO e. \<exists>c. text_context EO DO id e (0x3d # bytes ''Bat'' @ 32 # bytes ''{'' @ 0x7d # []) 6 = Some c \<and>
     cx_dec c = bytes ''{}''"
proof (intro allI)
  fix EO DO e
  show "\<exists>c. text_context EO DO id e (0x3d # bytes ''Bat'' @ 32 # bytes ''{'' @ 0x7d # []) 6 = Some c \<and>
     cx_dec c = bytes ''{}''"
    using text_payload_one_too_long [of "bytes ''Bat''" 6 "bytes ''{''" EO DO id e "0x3d" "0x7d" "[]"]
    by (auto simp: bytes_def)
qed

end
