(* ===== verification/Server.thy ===== *)
theory Server imports RequestContext begin

text \<open>
  The server: src/ThingSetServer.cpp and include/thingset++/ThingSetServer.hpp. A handler takes the request context and
  the state \<open>'w\<close> of the application, the values of the properties, and returns the length of the
  response with both. The virtual functions of the nodes are the fields of \<open>node_ops\<close>, over the node references of
  the registry; Nodes.thy gives those of the classes of the library. A result None means that the code does
  not return or accesses memory outside an array.
\<close>

subsection \<open>The nodes as the server sees them\<close>

datatype callback_reason = willRead | didRead | willWrite | didWrite

record ('e, 'd, 'w) node_ops =
  no_encode :: "nref \<Rightarrow> 'w \<Rightarrow> 'e encoder_ops \<Rightarrow> 'e \<Rightarrow> (bool \<times> 'e) option"      \<comment> \<open>ThingSetEncodable::encode\<close>
  no_decode :: "nref \<Rightarrow> 'd decoder_ops \<Rightarrow> 'd \<Rightarrow> 'w \<Rightarrow> ('d, 'w) dec_result"      \<comment> \<open>ThingSetDecodable::decode\<close>
  no_invoke :: "nref \<Rightarrow> 'd decoder_ops \<Rightarrow> 'e encoder_ops \<Rightarrow> 'd \<Rightarrow> 'e \<Rightarrow> 'w \<Rightarrow> (bool \<times> 'd \<times> 'e \<times> 'w) option"
                                          \<comment> \<open>ThingSetInvocable::invoke\<close>
  no_callback :: "nref \<Rightarrow> nref \<Rightarrow> callback_reason \<Rightarrow> 'w \<Rightarrow> bool \<times> 'w"        \<comment> \<open>ThingSetParentNode::invokeCallback\<close>
  no_custom :: "nref \<Rightarrow> ('e, 'd) rctx \<Rightarrow> 'w \<Rightarrow> (nat \<times> ('e, 'd) rctx \<times> 'w) option"
                                          \<comment> \<open>ThingSetCustomRequestHandler::handleRequest\<close>
  no_type :: "nref \<Rightarrow> string"               \<comment> \<open>ThingSetNode::getType\<close>

type_synonym ('e, 'd, 'w) response = "(nat \<times> ('e, 'd) rctx \<times> 'w) option"

record ('e, 'd, 'w) server =
  sv_access :: u8                        \<comment> \<open>_access\<close>
  sv_forwarder :: "(('e, 'd) rctx \<Rightarrow> u8 list \<Rightarrow> nat \<Rightarrow> 'w \<Rightarrow> nat \<times> ('e, 'd) rctx \<times> 'w) option"
  sv_nodes :: node_map                   \<comment> \<open>the nodes of the registry\<close>
  sv_registry :: registry
  sv_ops :: "('e, 'd, 'w) node_ops"

definition metadata_ref :: nref where "metadata_ref = 1"

definition node_at :: "('e, 'd, 'w) server \<Rightarrow> nref \<Rightarrow> node" where "node_at S n = sv_nodes S n"

definition casts :: "('e, 'd, 'w) server \<Rightarrow> nref \<Rightarrow> node_type \<Rightarrow> bool" where
  "casts S n t = tryCastTo (nd_kind (node_at S n)) t"

text \<open>The loop \<open>for (ThingSetNode *child : *parent)\<close>.\<close>

definition children_of :: "node_map \<Rightarrow> registry \<Rightarrow> nref \<Rightarrow> nref list option" where
  "children_of N r p = walk (rg_cnext r) (child_begin N r p)"

text \<open>What a handler answers: only the header, or the header and what is encoded.\<close>

definition only_status :: "status_code \<Rightarrow> ('e, 'd) rctx \<Rightarrow> 'w \<Rightarrow> ('e, 'd, 'w) response" where
  "only_status s c w = Some (getHeaderLength c, setStatus s c, w)"

definition encoded :: "('e, 'd) rctx \<Rightarrow> 'w \<Rightarrow> ('e, 'd, 'w) response" where
  "encoded c w = Some (o_length (cx_eops c) (cx_enc c) + getHeaderLength c, c, w)"

text \<open>A call of the encoder whose result is used, or not.\<close>

definition on_enc :: "('e \<Rightarrow> bool \<times> 'e) \<Rightarrow> ('e, 'd) rctx \<Rightarrow> bool \<times> ('e, 'd) rctx" where
  "on_enc f c = (let (r, e) = f (cx_enc c) in (r, c\<lparr>cx_enc := e\<rparr>))"

definition enc_do :: "('e \<Rightarrow> bool \<times> 'e) \<Rightarrow> ('e, 'd) rctx \<Rightarrow> ('e, 'd) rctx" where
  "enc_do f c = snd (on_enc f c)"

subsection \<open>Get\<close>

text \<open>A key and an encodable node, as \<open>encode(std::make_pair(...))\<close> does. The results of the pairs are not used.\<close>

definition encode_node_pair ::
  "node_map \<Rightarrow> bool \<Rightarrow> 'e encoder_ops \<Rightarrow> (nref \<Rightarrow> 'e \<Rightarrow> (bool \<times> 'e) option) \<Rightarrow> nref \<Rightarrow> 'e \<Rightarrow> (bool \<times> 'e) option" where
  "encode_node_pair N ids EO act n e =
    (let (r1, e1) = seq [if ids then o_u16 EO (nd_id (N n)) else o_cstr EO (nd_name (N n)), o_kv_sep EO] e in
     if \<not> r1 then Some (False, e1)
     else Option.bind (act n e1) (\<lambda>(r2, e2). if r2 then Some (o_list_sep EO e2) else Some (False, e2)))"

fun get_children :: "('e, 'd, 'w) server \<Rightarrow> bool \<Rightarrow> 'w \<Rightarrow> 'e encoder_ops \<Rightarrow> nref list \<Rightarrow> 'e \<Rightarrow> 'e option" where
  "get_children S ids w EO [] e = Some e"
| "get_children S ids w EO (n # ns) e =
    (if casts S n nt_encodable
     then Option.bind (encode_node_pair (sv_nodes S) ids EO (\<lambda>n. no_encode (sv_ops S) n w EO) n e)
       (\<lambda>(r, e1). get_children S ids w EO ns e1)
     else get_children S ids w EO ns e)"

definition handleGet :: "('e, 'd, 'w) server \<Rightarrow> ('e, 'd) rctx \<Rightarrow> 'w \<Rightarrow> ('e, 'd, 'w) response" where
  "handleGet S c0 w =
    (let c = enc_do (o_preamble (cx_eops c0)) (setStatus st_content c0) in
     if casts S (cx_node c) nt_encodable
     then Option.bind (no_encode (sv_ops S) (cx_node c) w (cx_eops c) (cx_enc c)) (\<lambda>(r, e).
       if r then encoded (c\<lparr>cx_enc := e\<rparr>) w else only_status st_unsupportedFormat (c\<lparr>cx_enc := e\<rparr>) w)
     else if casts S (cx_node c) nt_hasChildren
     then Option.bind (children_of (sv_nodes S) (sv_registry S) (cx_node c)) (\<lambda>ns.
       let count = length (filter (\<lambda>n. casts S n nt_encodable) ns);
           c1 = enc_do (o_map_start_n (cx_eops c) count) c
       in Option.bind (get_children S (useIds c) w (cx_eops c) ns (cx_enc c1)) (\<lambda>e.
            encoded (enc_do (o_map_end_n (cx_eops c) count) (c1\<lparr>cx_enc := e\<rparr>)) w))
     else only_status st_unsupportedFormat c w)"

subsection \<open>Fetch\<close>

definition MetadataNameId :: u16 where "MetadataNameId = 0x1a"
definition MetadataTypeId :: u16 where "MetadataTypeId = 0x1b"
definition MetadataAccessId :: u16 where "MetadataAccessId = 0x1c"

text \<open>The callback for one element of a metadata request: an id, answered by a map of name, type and access.\<close>

definition metadata_item ::
  "('e, 'd, 'w) server \<Rightarrow> 'e encoder_ops \<Rightarrow> 'd decoder_ops \<Rightarrow> nat \<Rightarrow> 'd \<Rightarrow> 'e \<Rightarrow> ('d, 'e) dec_result" where
  "metadata_item S EO DO i d e =
    (case d_u32 DO d of
       (None, d1) \<Rightarrow> Some (False, d1, e)
     | (Some ident, d1) \<Rightarrow>
         Option.bind (findById (sv_nodes S) (sv_registry S) ident) (\<lambda>f.
           case f of None \<Rightarrow> Some (False, d1, e)
           | Some n \<Rightarrow>
             (let (r, e1) = seq [o_map_start EO, o_u16 EO MetadataNameId, o_cstr EO (nd_name (node_at S n)),
                    o_u16 EO MetadataTypeId, o_cstr EO (no_type (sv_ops S) n),
                    o_u16 EO MetadataAccessId, o_u8 EO (nd_access (node_at S n)), o_map_end EO] e
              in Some (r, d1, e1))))"

definition handleFetch :: "('e, 'd, 'w) server \<Rightarrow> ('e, 'd) rctx \<Rightarrow> 'w \<Rightarrow> ('e, 'd, 'w) response" where
  "handleFetch S c0 w =
    (let c1 = enc_do (o_preamble (cx_eops c0)) (setStatus st_content c0);
         EO = cx_eops c1; DO = cx_dops c1;
         (isnull, d1) = d_null DO (cx_dec c1); c = c1\<lparr>cx_dec := d1\<rparr>
     in if isnull then
          (if casts S (cx_node c) nt_hasChildren
           then Option.bind (children_of (sv_nodes S) (sv_registry S) (cx_node c)) (\<lambda>ns.
             encoded (enc_do (enc_list EO (map (\<lambda>n.
               if useIds c then o_u32 EO (ucast (nd_id (node_at S n))) else o_cstr EO (nd_name (node_at S n))) ns)) c) w)
           else only_status st_badRequest c w)
        else if cx_node c = metadata_ref \<and> d_peek DO (cx_dec c) = et_list then
          (let (r, c2) = on_enc (o_list_start EO) c in
           if r then
             Option.bind (decodeList DO (metadata_item S EO DO) (cx_dec c2) (cx_enc c2)) (\<lambda>(r2, d2, e2).
               let c3 = c2\<lparr>cx_dec := d2, cx_enc := e2\<rparr> in
               if r2 then (let (r4, c4) = on_enc (o_list_end EO) c3 in if r4 then encoded c4 w else only_status st_notFound c4 w)
               else only_status st_notFound c3 w)
           else only_status st_badRequest c2 w)
        else only_status st_badRequest c w)"

subsection \<open>Update\<close>

text \<open>The state the callbacks of the map decoder work on: the header of the response and the application.\<close>

type_synonym 'w upd = "u8 list \<times> 'w"

definition fail_with :: "('e, 'd) rctx \<Rightarrow> status_code \<Rightarrow> 'd \<Rightarrow> 'w \<Rightarrow> ('d, 'w upd) dec_result" where
  "fail_with c s d w = Some (False, d, cx_head (setStatus s c), w)"

definition handleNodeUpdate ::
  "('e, 'd, 'w) server \<Rightarrow> ('e, 'd) rctx \<Rightarrow> nref \<Rightarrow> nref \<Rightarrow> 'd \<Rightarrow> 'w upd \<Rightarrow> ('d, 'w upd) dec_result" where
  "handleNodeUpdate S c parent child d hw =
    (let (h, w) = hw in
     if \<not> may_write (nd_access (node_at S child)) (sv_access S) then fail_with c st_forbidden d w
     else if \<not> casts S child nt_decodable then fail_with c st_badRequest d w
     else let (ok, w1) = no_callback (sv_ops S) parent child willWrite w in
       if \<not> ok then fail_with c st_forbidden d w1
       else Option.bind (no_decode (sv_ops S) child (cx_dops c) d w1) (\<lambda>(r, d2, w2).
         if \<not> r then fail_with c st_badRequest d2 w2
         else Some (True, d2, h, snd (no_callback (sv_ops S) parent child didWrite w2))))"

definition update_member ::
  "('e, 'd, 'w) server \<Rightarrow> ('e, 'd) rctx \<Rightarrow> nref \<Rightarrow> u32 option \<Rightarrow> string option \<Rightarrow> 'd \<Rightarrow> 'w upd \<Rightarrow> ('d, 'w upd) dec_result" where
  "update_member S c parent ident name d hw =
    (case ident of
       Some i \<Rightarrow> Option.bind (findById (sv_nodes S) (sv_registry S) i) (\<lambda>f.
         case f of None \<Rightarrow> fail_with c st_notFound d (snd hw) | Some child \<Rightarrow> handleNodeUpdate S c parent child d hw)
     | None \<Rightarrow> (case name of
         Some n \<Rightarrow> Option.bind (findByName (sv_nodes S) (sv_registry S) parent n) (\<lambda>(found, child, index).
           if found then handleNodeUpdate S c parent child d hw else fail_with c st_notFound d (snd hw))
       | None \<Rightarrow> Some (False, d, hw)))"

definition handleUpdate :: "('e, 'd, 'w) server \<Rightarrow> ('e, 'd) rctx \<Rightarrow> 'w \<Rightarrow> ('e, 'd, 'w) response" where
  "handleUpdate S c0 w =
    (if \<not> casts S (cx_node c0) nt_hasChildren then only_status st_badRequest c0 w
     else let c = enc_do (o_preamble (cx_eops c0)) (setStatus st_changed c0) in
       Option.bind (decodeMap (cx_dops c) (update_member S c (cx_node c)) (cx_dec c) (cx_head c, w)) (\<lambda>(r, d2, h2, w2).
         let c2 = c\<lparr>cx_dec := d2, cx_head := h2\<rparr> in
         if r then encoded (enc_do (o_preamble (cx_eops c2)) c2) w2
         else Some (getHeaderLength c2, c2, w2)))"

subsection \<open>Exec\<close>

definition handleExec :: "('e, 'd, 'w) server \<Rightarrow> ('e, 'd) rctx \<Rightarrow> 'w \<Rightarrow> ('e, 'd, 'w) response" where
  "handleExec S c w =
    (if access_and (nd_access (node_at S (cx_node c))) (sv_access S) = access_none then only_status st_forbidden c w
     else if casts S (cx_node c) nt_function
     then (let c1 = enc_do (o_preamble (cx_eops c)) c in
           Option.bind (no_invoke (sv_ops S) (cx_node c) (cx_dops c) (cx_eops c) (cx_dec c1) (cx_enc c1) w) (\<lambda>(r, d2, e2, w2).
             let c2 = c1\<lparr>cx_dec := d2, cx_enc := e2\<rparr> in
             if r then encoded (setStatus st_changed c2) w2 else only_status st_badRequest c2 w2))
     else only_status st_badRequest c w)"

subsection \<open>Dispatch\<close>

definition dispatch :: "('e, 'd, 'w) server \<Rightarrow> ('e, 'd) rctx \<Rightarrow> 'w \<Rightarrow> ('e, 'd, 'w) response" where
  "dispatch S c w =
    (if isGet c then handleGet S c w
     else if isFetch c then handleFetch S c w
     else if isUpdate c then handleUpdate S c w
     else if isExec c then handleExec S c w
     else only_status st_notImplemented c w)"

definition handle_node :: "('e, 'd, 'w) server \<Rightarrow> ('e, 'd) rctx \<Rightarrow> 'w \<Rightarrow> ('e, 'd, 'w) response" where
  "handle_node S c w =
    (if casts S (cx_node c) nt_requestHandler
     then Option.bind (no_custom (sv_ops S) (cx_node c) c w) (\<lambda>(len, c1, w1).
       if len \<noteq> 0 then Some (len, c1, w1) else dispatch S c1 w1)
     else dispatch S c w)"

definition handleRequest :: "('e, 'd, 'w) server \<Rightarrow> ('e, 'd) rctx \<Rightarrow> u8 list \<Rightarrow> nat \<Rightarrow> 'w \<Rightarrow> ('e, 'd, 'w) response" where
  "handleRequest S c req n w =
    (if \<not> hasValidEndpoint c then only_status st_badRequest c w
     else if isToBeForwarded c then
       (case sv_forwarder S of Some f \<Rightarrow> Some (f c req n w) | None \<Rightarrow> only_status st_notAGateway c w)
     else case cx_id c of
       Some i \<Rightarrow> Option.bind (findById (sv_nodes S) (sv_registry S) (ucast i)) (\<lambda>f.
         case f of None \<Rightarrow> only_status st_notFound c w | Some m \<Rightarrow> handle_node S (c\<lparr>cx_node := m\<rparr>) w)
     | None \<Rightarrow> Option.bind (registry_findByName (sv_nodes S) (sv_registry S) (the (cx_path c))) (\<lambda>(found, m, index).
         if found then handle_node S (c\<lparr>cx_node := m, cx_index := index\<rparr>) w
         else only_status st_notFound c w))"

text \<open>\<open>requestCallback\<close>: the first byte tells the protocol. The text context may read past the request.\<close>

definition requestCallback ::
  "(('e, 'd) rctx \<Rightarrow> u8 list \<Rightarrow> nat \<Rightarrow> 'w \<Rightarrow> ('e, 'd, 'w) response) \<Rightarrow>
   (u8 list \<Rightarrow> nat \<Rightarrow> ('e, 'd) rctx) \<Rightarrow> (u8 list \<Rightarrow> nat \<Rightarrow> ('e, 'd) rctx option) \<Rightarrow>
   u8 list \<Rightarrow> nat \<Rightarrow> 'w \<Rightarrow> (nat \<times> u8 list \<times> ('e, 'd) rctx option \<times> 'w) option" where
  "requestCallback handler mkb mkt req n w =
    (let answer = (\<lambda>c. map_option (\<lambda>(len, c1, w1). (len, cx_head c1, Some c1, w1)) (handler c req n w)) in
     if (binary_request_val rq_get \<le> hd req \<and> hd req \<le> binary_request_val rq_update) \<or> hd req = binary_request_val rq_forward
     then answer (mkb req n)
     else if the (text_request_val rq_exec) \<le> hd req \<and> hd req \<le> the (text_request_val rq_desire)
     then Option.bind (mkt req n) answer
     else Some (1, [status_val st_badRequest], None, w))"

subsection \<open>What a request can change\<close>

text \<open>
  \<open>preserves S I\<close>: every step a request may take towards the application keeps the property I of its state: the
  callbacks, decoding into a node the client may write, executing a node the client may execute, the
  request handlers and the forwarder. Then every request keeps it.
\<close>

definition preserves :: "('e, 'd, 'w) server \<Rightarrow> ('w \<Rightarrow> bool) \<Rightarrow> bool" where
  "preserves S I \<longleftrightarrow>
     (\<forall>p n reason w. I w \<longrightarrow> I (snd (no_callback (sv_ops S) p n reason w))) \<and>
     (\<forall>n DO d w r d' w'. may_write (nd_access (node_at S n)) (sv_access S) \<longrightarrow> I w \<longrightarrow>
        no_decode (sv_ops S) n DO d w = Some (r, d', w') \<longrightarrow> I w') \<and>
     (\<forall>n DO EO d e w r d' e' w'. access_and (nd_access (node_at S n)) (sv_access S) \<noteq> access_none \<longrightarrow> I w \<longrightarrow>
        no_invoke (sv_ops S) n DO EO d e w = Some (r, d', e', w') \<longrightarrow> I w') \<and>
     (\<forall>n c w len c' w'. casts S n nt_requestHandler \<longrightarrow> I w \<longrightarrow>
        no_custom (sv_ops S) n c w = Some (len, c', w') \<longrightarrow> I w') \<and>
     (\<forall>f c req n w. sv_forwarder S = Some f \<longrightarrow> I w \<longrightarrow> I (snd (snd (f c req n w))))"

lemmas preserves_callback = preserves_def [THEN iffD1, THEN conjunct1, rule_format]
lemmas preserves_decode = preserves_def [THEN iffD1, THEN conjunct2, THEN conjunct1, rule_format]
lemmas preserves_invoke = preserves_def [THEN iffD1, THEN conjunct2, THEN conjunct2, THEN conjunct1, rule_format]
lemmas preserves_custom = preserves_def [THEN iffD1, THEN conjunct2, THEN conjunct2, THEN conjunct2, THEN conjunct1, rule_format]
lemmas preserves_forward = preserves_def [THEN iffD1, THEN conjunct2, THEN conjunct2, THEN conjunct2, THEN conjunct2, rule_format]

lemma handleNodeUpdate_preserves:
  assumes p: "preserves S I" and r: "handleNodeUpdate S c q child d (h, w) = Some (r, d', h', w')" and I: "I w"
  shows "I w'"
proof -
  note cb = preserves_callback [OF p]
  show ?thesis
  proof (cases "may_write (nd_access (node_at S child)) (sv_access S)")
    case False
    with r I show ?thesis by (simp add: handleNodeUpdate_def fail_with_def)
  next
    case True
    with r I cb [OF I, of q child willWrite] cb [of _ q child didWrite] preserves_decode [OF p True] show ?thesis
      by (auto simp: handleNodeUpdate_def fail_with_def bind_eq_Some_conv split: prod.splits if_splits)
  qed
qed

lemma update_member_preserves:
  assumes "preserves S I"
  shows "keeps_state (\<lambda>hw. I (snd hw)) (update_member S c q)"
  unfolding keeps_state_def
  by (auto simp: update_member_def fail_with_def bind_eq_Some_conv split: option.splits prod.splits if_splits
      dest: handleNodeUpdate_preserves [OF assms])

lemma dispatch_preserves:
  assumes p: "preserves S I" and r: "dispatch S c w = Some (len, c', w')" and I: "I w"
  shows "I w'"
proof -
  have get: "handleGet S c w = Some (len, c', w') \<Longrightarrow> w' = w"
    by (auto simp: handleGet_def Let_def encoded_def only_status_def bind_eq_Some_conv split: if_splits prod.splits)
  have fetch: "handleFetch S c w = Some (len, c', w') \<Longrightarrow> w' = w"
    by (auto simp: handleFetch_def Let_def encoded_def only_status_def bind_eq_Some_conv split: if_splits prod.splits)
  have upd: "handleUpdate S c w = Some (len, c', w') \<Longrightarrow> I w'"
    using decodeMap_keeps [OF _ update_member_preserves [OF p]] I
    by (fastforce simp: handleUpdate_def Let_def encoded_def only_status_def bind_eq_Some_conv split: if_splits prod.splits)
  have exec: "handleExec S c w = Some (len, c', w') \<Longrightarrow> I w'"
    using preserves_invoke [OF p _ I] I
    by (auto simp: handleExec_def Let_def encoded_def only_status_def bind_eq_Some_conv split: if_splits prod.splits)
  show ?thesis using r get fetch upd exec I
    by (auto simp: dispatch_def only_status_def split: if_splits)
qed

lemma request_preserves:
  assumes p: "preserves S I" and r: "handleRequest S c req n w = Some (len, c', w')" and I: "I w"
  shows "I w'"
proof -
  have custom: "casts S k nt_requestHandler \<Longrightarrow> no_custom (sv_ops S) k c1 w = Some (l, c2, w2) \<Longrightarrow> I w2" for k c1 l c2 w2
    using p I unfolding preserves_def by blast
  have node: "I w'" if h: "handle_node S c1 w = Some (len, c', w')" for c1
  proof (cases "casts S (cx_node c1) nt_requestHandler")
    case False
    with h I dispatch_preserves [OF p] show ?thesis by (simp add: handle_node_def)
  next
    case True
    then obtain l c2 w2 where c: "no_custom (sv_ops S) (cx_node c1) c1 w = Some (l, c2, w2)"
      using h by (auto simp: handle_node_def bind_eq_Some_conv)
    with True h dispatch_preserves [OF p, of c2 w2 len c' w'] custom [OF True c] show ?thesis
      by (simp add: handle_node_def split: if_splits)
  qed
  have forward: "I w'" if f: "sv_forwarder S = Some f" "f c req n w = (len, c', w')" for f
  proof -
    have "I (snd (snd (f c req n w)))" using p f(1) I by (simp add: preserves_def)
    then show ?thesis by (simp add: f(2))
  qed
  show ?thesis using r I
    by (auto simp: handleRequest_def only_status_def bind_eq_Some_conv split: if_splits option.splits prod.splits
        dest: node forward)
qed

text \<open>
  \<open>quiet\<close>: the code of the application that a request may reach leaves the value of node m alone. The locale
  states what the server needs of the nodes: decoding into a node changes no other node. Then a node the
  client may not write keeps its value.
\<close>

definition quiet :: "('e, 'd, 'w) server \<Rightarrow> (nref \<Rightarrow> 'w \<Rightarrow> 'v) \<Rightarrow> nref \<Rightarrow> bool" where
  "quiet S val m \<longleftrightarrow>
     (\<forall>p n reason w. val m (snd (no_callback (sv_ops S) p n reason w)) = val m w) \<and>
     (\<forall>n DO EO d e w r d' e' w'. access_and (nd_access (node_at S n)) (sv_access S) \<noteq> access_none \<longrightarrow>
        no_invoke (sv_ops S) n DO EO d e w = Some (r, d', e', w') \<longrightarrow> val m w' = val m w) \<and>
     (\<forall>n c w len c' w'. casts S n nt_requestHandler \<longrightarrow>
        no_custom (sv_ops S) n c w = Some (len, c', w') \<longrightarrow> val m w' = val m w) \<and>
     (\<forall>f c req n w. sv_forwarder S = Some f \<longrightarrow> val m (snd (snd (f c req n w))) = val m w)"

locale value_server =
  fixes S :: "('e, 'd, 'w) server" and val :: "nref \<Rightarrow> 'w \<Rightarrow> 'v"
  assumes decode_local: "no_decode (sv_ops S) n DO d w = Some (r, d', w') \<Longrightarrow> m \<noteq> n \<Longrightarrow> val m w' = val m w"
begin

lemma protected_preserves:
  assumes q: "quiet S val m" and m: "\<not> may_write (nd_access (node_at S m)) (sv_access S)"
  shows "preserves S (\<lambda>w. val m w = v)"
proof -
  have "no_decode (sv_ops S) n DO d w = Some (r, d', w') \<Longrightarrow> val m w' = val m w"
    if "may_write (nd_access (node_at S n)) (sv_access S)" for n DO d w r d' w'
    using decode_local [of n DO d w r d' w' m] that m by blast
  then show ?thesis using q unfolding preserves_def
    by (intro conjI allI impI) (auto simp: quiet_def)
qed

lemma request_keeps:
  assumes q: "quiet S val m" and m: "\<not> may_write (nd_access (node_at S m)) (sv_access S)"
    and r: "handleRequest S c req n w = Some (len, c', w')"
  shows "val m w' = val m w"
  using request_preserves [OF protected_preserves [OF q m] r, of "val m w"] by simp

end

subsection \<open>Resolving the endpoint\<close>

definition resolves :: "('e, 'd, 'w) server \<Rightarrow> ('e, 'd) rctx \<Rightarrow> nref \<Rightarrow> bool" where
  "resolves S c m \<longleftrightarrow> \<not> isToBeForwarded c \<and>
     (case cx_id c of Some i \<Rightarrow> findById (sv_nodes S) (sv_registry S) (ucast i) = Some (Some m)
      | None \<Rightarrow> \<exists>p i. cx_path c = Some p \<and> registry_findByName (sv_nodes S) (sv_registry S) p = Some (True, m, i))"

lemma resolved_request:
  assumes "resolves S c m"
  shows "\<exists>i. handleRequest S c req n w = handle_node S (c\<lparr>cx_node := m, cx_index := i\<rparr>) w \<and> (cx_id c \<noteq> None \<longrightarrow> i = cx_index c)"
proof (cases "cx_id c")
  case None
  then obtain p i where "cx_path c = Some p" "registry_findByName (sv_nodes S) (sv_registry S) p = Some (True, m, i)"
      "\<not> isToBeForwarded c"
    using assms by (auto simp: resolves_def)
  then show ?thesis using None by (intro exI [of _ i]) (simp add: handleRequest_def hasValidEndpoint_def)
next
  case (Some i)
  then have "findById (sv_nodes S) (sv_registry S) (ucast i) = Some (Some m)" "\<not> isToBeForwarded c"
    using assms by (auto simp: resolves_def)
  then have "handleRequest S c req n w = handle_node S (c\<lparr>cx_node := m, cx_index := cx_index c\<rparr>) w"
    using Some by (simp add: handleRequest_def hasValidEndpoint_def)
  then show ?thesis by blast
qed

lemma context_update_simps [simp]:
  "is_type t (c\<lparr>cx_node := m, cx_index := i\<rparr>) = is_type t c" "isGet (c\<lparr>cx_node := m, cx_index := i\<rparr>) = isGet c"
  "isFetch (c\<lparr>cx_node := m, cx_index := i\<rparr>) = isFetch c" "isUpdate (c\<lparr>cx_node := m, cx_index := i\<rparr>) = isUpdate c"
  "isExec (c\<lparr>cx_node := m, cx_index := i\<rparr>) = isExec c"
  "getHeaderLength (c\<lparr>cx_node := m, cx_index := i\<rparr>) = getHeaderLength c"
  "cx_head (setStatus s (c\<lparr>cx_node := m, cx_index := i\<rparr>)) = cx_head (setStatus s c)"
  by (cases "cx_proto c"; simp add: is_type_def isGet_def isFetch_def isUpdate_def isExec_def getHeaderLength_def setStatus_def)+

lemma types_exclusive:
  "isUpdate c \<Longrightarrow> \<not> isGet c" "isUpdate c \<Longrightarrow> \<not> isFetch c"
  "isExec c \<Longrightarrow> \<not> isGet c" "isExec c \<Longrightarrow> \<not> isFetch c" "isExec c \<Longrightarrow> \<not> isUpdate c"
  "isDelete c \<Longrightarrow> \<not> isGet c" "isDelete c \<Longrightarrow> \<not> isFetch c" "isDelete c \<Longrightarrow> \<not> isUpdate c" "isDelete c \<Longrightarrow> \<not> isExec c"
  by (auto simp: isGet_def isFetch_def isUpdate_def isExec_def isDelete_def is_type_def split: proto.splits)

lemma resolved_dispatch:
  "resolves S c m \<Longrightarrow> \<not> casts S m nt_requestHandler \<Longrightarrow>
   \<exists>i. handleRequest S c req n w = dispatch S (c\<lparr>cx_node := m, cx_index := i\<rparr>) w"
proof -
  assume m: "resolves S c m" "\<not> casts S m nt_requestHandler"
  obtain i where "handleRequest S c req n w = handle_node S (c\<lparr>cx_node := m, cx_index := i\<rparr>) w"
    using resolved_request [OF m(1)] by blast
  with m(2) show ?thesis by (intro exI [of _ i]) (simp add: handle_node_def)
qed

lemma dispatch_simps:
  "isGet c \<Longrightarrow> dispatch S c w = handleGet S c w" "isUpdate c \<Longrightarrow> dispatch S c w = handleUpdate S c w"
  "isExec c \<Longrightarrow> dispatch S c w = handleExec S c w"
  using types_exclusive [of c] by (auto simp: dispatch_def)

text \<open>\<open>answers\<close>: the response consists of a status and n further bytes, and the application is unchanged.\<close>

definition answers :: "('e, 'd) rctx \<Rightarrow> 'w \<Rightarrow> status_code \<Rightarrow> ('e, 'd, 'w) response \<Rightarrow> bool" where
  "answers c w s res \<longleftrightarrow> (\<exists>c'. res = Some (getHeaderLength c, c', w) \<and> cx_head c' = cx_head (setStatus s c))"

lemma answers_only: "getHeaderLength c = getHeaderLength c0 \<Longrightarrow> cx_proto c = cx_proto c0 \<Longrightarrow> answers c0 w s (only_status s c w)"
  by (auto simp: answers_def only_status_def setStatus_def)

text \<open>C20. The error answers of the server, whatever the nodes are: no endpoint is a bad request; a request for
  another device is answered that this is no gateway, unless there is a forwarder; an unknown id or path is
  not found; a delete is not implemented; executing a node whose access flags share none with the server's
  is forbidden, and executing what is no function and updating what has no children are bad requests. The
  response is the status alone and nothing is changed.\<close>

theorem request_errors:
  shows "(\<not> hasValidEndpoint c \<longrightarrow> answers c w st_badRequest (handleRequest S c req n w)) \<and>
    (hasValidEndpoint c \<and> isToBeForwarded c \<and> sv_forwarder S = None \<longrightarrow> answers c w st_notAGateway (handleRequest S c req n w)) \<and>
    (\<not> isToBeForwarded c \<and> cx_id c = Some i \<and> findById (sv_nodes S) (sv_registry S) (ucast i) = Some None \<longrightarrow>
       answers c w st_notFound (handleRequest S c req n w)) \<and>
    (\<not> isToBeForwarded c \<and> cx_id c = None \<and> cx_path c = Some p \<and>
       registry_findByName (sv_nodes S) (sv_registry S) p = Some (False, k, ix) \<longrightarrow>
       answers c w st_notFound (handleRequest S c req n w)) \<and>
    (resolves S c m \<and> \<not> casts S m nt_requestHandler \<longrightarrow>
       (isDelete c \<longrightarrow> answers c w st_notImplemented (handleRequest S c req n w)) \<and>
       (isExec c \<and> access_and (nd_access (node_at S m)) (sv_access S) = access_none \<longrightarrow>
          answers c w st_forbidden (handleRequest S c req n w)) \<and>
       (isExec c \<and> access_and (nd_access (node_at S m)) (sv_access S) \<noteq> access_none \<and> \<not> casts S m nt_function \<longrightarrow>
          answers c w st_badRequest (handleRequest S c req n w)) \<and>
       (isUpdate c \<and> \<not> casts S m nt_hasChildren \<longrightarrow> answers c w st_badRequest (handleRequest S c req n w)))"
proof (intro conjI)
  show "resolves S c m \<and> \<not> casts S m nt_requestHandler \<longrightarrow>
       (isDelete c \<longrightarrow> answers c w st_notImplemented (handleRequest S c req n w)) \<and>
       (isExec c \<and> access_and (nd_access (node_at S m)) (sv_access S) = access_none \<longrightarrow>
          answers c w st_forbidden (handleRequest S c req n w)) \<and>
       (isExec c \<and> access_and (nd_access (node_at S m)) (sv_access S) \<noteq> access_none \<and> \<not> casts S m nt_function \<longrightarrow>
          answers c w st_badRequest (handleRequest S c req n w)) \<and>
       (isUpdate c \<and> \<not> casts S m nt_hasChildren \<longrightarrow> answers c w st_badRequest (handleRequest S c req n w))"
  proof
    assume m: "resolves S c m \<and> \<not> casts S m nt_requestHandler"
    then obtain j where j: "handleRequest S c req n w = dispatch S (c\<lparr>cx_node := m, cx_index := j\<rparr>) w"
      using resolved_dispatch [of S c m] by blast
    have a: "answers c w s (only_status s (c\<lparr>cx_node := m, cx_index := j\<rparr>) w)" for s
      by (rule answers_only) simp_all
    show "(isDelete c \<longrightarrow> answers c w st_notImplemented (handleRequest S c req n w)) \<and>
       (isExec c \<and> access_and (nd_access (node_at S m)) (sv_access S) = access_none \<longrightarrow>
          answers c w st_forbidden (handleRequest S c req n w)) \<and>
       (isExec c \<and> access_and (nd_access (node_at S m)) (sv_access S) \<noteq> access_none \<and> \<not> casts S m nt_function \<longrightarrow>
          answers c w st_badRequest (handleRequest S c req n w)) \<and>
       (isUpdate c \<and> \<not> casts S m nt_hasChildren \<longrightarrow> answers c w st_badRequest (handleRequest S c req n w))"
      using a types_exclusive [of c] unfolding j
      by (intro conjI impI) (simp_all add: dispatch_def handleExec_def handleUpdate_def)
  qed
qed (auto simp: handleRequest_def hasValidEndpoint_def intro: answers_only)

theorem request_errors_witness:
  "\<forall>S w. answers (sample_context Binary 1 None) w st_badRequest (handleRequest S (sample_context Binary 1 None) [1, 0xff] 2 w)"
  by (intro allI mp [OF conjunct1 [OF request_errors]]) (simp add: hasValidEndpoint_def sample_context_def)

end
