(* ===== verification/Nodes.thy ===== *)
theory Nodes imports Server begin

text \<open>
  The node classes of the library as the server uses them: encoding of groups (ThingSetGroup.hpp), values
  (ThingSetValue.hpp, ThingSetProperty.hpp), arrays of records and their request handler
  (ThingSetProperty.hpp) and functions (ThingSetFunction.hpp). The state is the value of every property and
  the argument storage of every function; what the application supplies, the
  functions themselves and the callbacks of the groups, are fields of \<open>classes\<close>.
\<close>

subsection \<open>State and classes\<close>

record app =
  ap_vals :: "nref \<Rightarrow> tsval"            \<comment> \<open>_value\<close>
  ap_args :: "nref \<Rightarrow> tsval list"       \<comment> \<open>_arguments\<close>

record classes =
  cl_type :: "nref \<Rightarrow> ttype"            \<comment> \<open>T\<close>
  cl_const :: "nref \<Rightarrow> bool"            \<comment> \<open>std::is_const_v of T\<close>
  cl_params :: "nref \<Rightarrow> ttype list"     \<comment> \<open>Args\<close>
  cl_function :: "nref \<Rightarrow> tsval list \<Rightarrow> app \<Rightarrow> tsval option \<times> app"   \<comment> \<open>_function, None for void\<close>
  cl_callback :: "nref \<Rightarrow> nref \<Rightarrow> callback_reason \<Rightarrow> app \<Rightarrow> bool \<times> app"  \<comment> \<open>_callback of a group\<close>
  cl_typename :: "nref \<Rightarrow> string"

definition set_val :: "nref \<Rightarrow> tsval \<Rightarrow> app \<Rightarrow> app" where
  "set_val n v w = w\<lparr>ap_vals := (ap_vals w)(n := v)\<rparr>"

subsection \<open>Encoding\<close>

definition include_child :: "node_map \<Rightarrow> bool \<Rightarrow> nref \<Rightarrow> bool" where
  "include_child N outline n \<longleftrightarrow> tryCastTo (nd_kind (N n)) nt_encodable \<and>
     (outline \<longrightarrow> tryCastTo (nd_kind (N n)) nt_group)"

text \<open>The loop over the included children: it stops at the first failure.\<close>

fun encode_children :: "node_map \<Rightarrow> 'e encoder_ops \<Rightarrow> (nref \<Rightarrow> 'e \<Rightarrow> (bool \<times> 'e) option) \<Rightarrow> nref list \<Rightarrow> 'e \<Rightarrow> (bool \<times> 'e) option" where
  "encode_children N EO act [] e = Some (True, e)"
| "encode_children N EO act (n # ns) e =
    Option.bind (encode_node_pair N (o_keys_as_ids EO e) EO act n e) (\<lambda>(r, e1).
      if r then encode_children N EO act ns e1 else Some (False, e1))"

lemma encode_children_mono [partial_function_mono]:
  assumes "\<And>n e. mono_option (\<lambda>f. B f n e)"
  shows "mono_option (\<lambda>f. encode_children N EO (B f) ns e)"
proof (induction ns arbitrary: e)
  case Nil
  then show ?case by (simp add: option.const_mono)
next
  case (Cons n ns)
  have pair: "mono_option (\<lambda>f. encode_node_pair N ids EO (B f) n e)" for ids
    unfolding encode_node_pair_def Let_def split_def
    by (intro Partial_Function.if_mono option.const_mono bind_mono assms)
  show ?case
    unfolding encode_children.simps split_def
    by (intro bind_mono pair Partial_Function.if_mono option.const_mono Cons.IH)
qed

partial_function (option) group_encode ::
  "node_map \<Rightarrow> registry \<Rightarrow> (nref \<Rightarrow> tsval) \<Rightarrow> 'e encoder_ops \<Rightarrow> nref \<Rightarrow> 'e \<Rightarrow> (bool \<times> 'e) option" where
  "group_encode N r vals EO n e =
    (if nd_kind (N n) \<noteq> nk_group then Some (enc_val EO (vals n) e)
     else Option.bind (children_of N r n) (\<lambda>ns.
       if fst (o_map_start_n EO (length (filter (include_child N (o_outline EO e)) ns)) e)
       then Option.bind (encode_children N EO (\<lambda>m e. group_encode N r vals EO m e)
              (filter (include_child N (o_outline EO e)) ns)
              (snd (o_map_start_n EO (length (filter (include_child N (o_outline EO e)) ns)) e)))
            (\<lambda>x. if fst x then Some (o_map_end_n EO (length (filter (include_child N (o_outline EO e)) ns)) (snd x))
                 else Some (False, snd x))
       else Some (False, snd (o_map_start_n EO (length (filter (include_child N (o_outline EO e)) ns)) e))))"

definition node_encode ::
  "node_map \<Rightarrow> registry \<Rightarrow> nref \<Rightarrow> app \<Rightarrow> 'e encoder_ops \<Rightarrow> 'e \<Rightarrow> (bool \<times> 'e) option" where
  "node_encode N r n w EO e = group_encode N r (ap_vals w) EO n e"

subsection \<open>Decoding\<close>

definition value_decode :: "classes \<Rightarrow> nref \<Rightarrow> 'd decoder_ops \<Rightarrow> 'd \<Rightarrow> app \<Rightarrow> ('d, app) dec_result" where
  "value_decode C n DO d w =
    (if cl_const C n then Some (False, d, w)
     else map_option (\<lambda>(r, d', v). (r, d', set_val n v w)) (dec_val DO (cl_type C n) (ap_vals w n) d))"

subsection \<open>Functions\<close>

text \<open>The arguments are decoded into the storage of the function; the result is encoded, null for a void function.\<close>

definition invoke_result :: "'e encoder_ops \<Rightarrow> tsval option \<Rightarrow> 'e \<Rightarrow> bool \<times> 'e" where
  "invoke_result EO res = (case res of Some v \<Rightarrow> enc_val EO v | None \<Rightarrow> o_null EO)"

definition function_invoke ::
  "classes \<Rightarrow> nref \<Rightarrow> 'd decoder_ops \<Rightarrow> 'e encoder_ops \<Rightarrow> 'd \<Rightarrow> 'e \<Rightarrow> app \<Rightarrow> (bool \<times> 'd \<times> 'e \<times> app) option" where
  "function_invoke C n DO EO d e w =
    Option.bind (decodeTuple DO (map (dec_val DO) (cl_params C n)) (ap_args w n) d) (\<lambda>(r, d1, args).
      let w1 = w\<lparr>ap_args := (ap_args w)(n := args)\<rparr> in
      if r then (let (res, w2) = cl_function C n args w1; (r2, e1) = invoke_result EO res e in Some (r2, d1, e1, w2))
      else Some (False, d1, e, w1))"

subsection \<open>Callbacks\<close>

definition node_callback :: "node_map \<Rightarrow> classes \<Rightarrow> nref \<Rightarrow> nref \<Rightarrow> callback_reason \<Rightarrow> app \<Rightarrow> bool \<times> app" where
  "node_callback N C p n reason w =
    (case nd_kind (N p) of nk_group \<Rightarrow> cl_callback C p n reason w | _ \<Rightarrow> (True, w))"

subsection \<open>Arrays of records\<close>

text \<open>
  \<open>handleRequest\<close> of an array of records: the whole array answers its length, an element its value. The
  update of the whole array sets the status and goes on to decode at index SIZE_MAX.
\<close>

definition record_get :: "nref \<Rightarrow> ('e, 'd) rctx \<Rightarrow> app \<Rightarrow> ('e, 'd, app) response" where
  "record_get n c0 w =
    (let c = enc_do (o_preamble (cx_eops c0)) (setStatus st_content c0); vs = elems (ap_vals w n) in
     case cx_index c of
       None \<Rightarrow> encoded (enc_do (o_u64 (cx_eops c) (of_nat (length vs))) c) w
     | Some i \<Rightarrow> if i < length vs then encoded (enc_do (enc_val (cx_eops c) (vs ! i)) c) w else None)"

definition record_update :: "classes \<Rightarrow> nref \<Rightarrow> ('e, 'd) rctx \<Rightarrow> app \<Rightarrow> ('e, 'd, app) response" where
  "record_update C n c0 w =
    (let c = enc_do (o_preamble (cx_eops c0)) (setStatus st_changed c0); vs = elems (ap_vals w n) in
     case cx_index c of
       None \<Rightarrow> None
     | Some i \<Rightarrow>
         if i < length vs
         then Option.bind (dec_val (cx_dops c) (case cl_type C n of TArr k t \<Rightarrow> t | t \<Rightarrow> t) (vs ! i) (cx_dec c)) (\<lambda>(r, d, v).
           Some (getHeaderLength c, c\<lparr>cx_dec := d\<rparr>, set_val n (VArr (vs[i := v])) w))
         else None)"

definition record_request :: "classes \<Rightarrow> nref \<Rightarrow> ('e, 'd) rctx \<Rightarrow> app \<Rightarrow> ('e, 'd, app) response" where
  "record_request C n c w =
    (if isGet c then record_get n c w else if isUpdate c then record_update C n c w else Some (0, c, w))"

definition library_ops :: "node_map \<Rightarrow> registry \<Rightarrow> classes \<Rightarrow> ('e, 'd, app) node_ops" where
  "library_ops N r C = \<lparr>
     no_encode = node_encode N r,
     no_decode = value_decode C,
     no_invoke = function_invoke C,
     no_callback = node_callback N C,
     no_custom = record_request C,
     no_type = cl_typename C\<rparr>"

definition library_server :: "u8 \<Rightarrow> node_map \<Rightarrow> registry \<Rightarrow> classes \<Rightarrow> ('e, 'd, app) server" where
  "library_server access N r C = \<lparr>sv_access = access, sv_forwarder = None, sv_nodes = N, sv_registry = r,
     sv_ops = library_ops N r C\<rparr>"

subsection \<open>Nodes that may not be written\<close>

lemma library_server_simps [simp]:
  "sv_access (library_server a N r C) = a" "sv_nodes (library_server a N r C) = N"
  "sv_registry (library_server a N r C) = r" "sv_ops (library_server a N r C) = library_ops N r C"
  "sv_forwarder (library_server a N r C) = None" "node_at (library_server a N r C) n = N n"
  "casts (library_server a N r C) n t = tryCastTo (nd_kind (N n)) t"
  by (simp_all add: library_server_def node_at_def casts_def)

lemma library_ops_simps [simp]:
  "no_encode (library_ops N r C) = node_encode N r" "no_decode (library_ops N r C) = value_decode C"
  "no_invoke (library_ops N r C) = function_invoke C" "no_callback (library_ops N r C) = node_callback N C"
  "no_custom (library_ops N r C) = record_request C" "no_type (library_ops N r C) = cl_typename C"
  by (simp_all add: library_ops_def)

interpretation library: value_server "library_server a N r C" "\<lambda>m w. ap_vals w m" for a N r C
  by unfold_locales (auto simp: value_decode_def set_val_def split: if_splits)

definition leaves_alone :: "u8 \<Rightarrow> node_map \<Rightarrow> classes \<Rightarrow> nref \<Rightarrow> bool" where
  "leaves_alone a N C m \<longleftrightarrow>
     (\<forall>p n reason w. nd_kind (N p) = nk_group \<longrightarrow> ap_vals (snd (cl_callback C p n reason w)) m = ap_vals w m) \<and>
     (\<forall>n args w. access_and (nd_access (N n)) a \<noteq> access_none \<longrightarrow> ap_vals (snd (cl_function C n args w)) m = ap_vals w m)"

definition is_record_kind :: "node_kind \<Rightarrow> bool" where
  "is_record_kind k = (case k of nk_record n \<Rightarrow> True | _ \<Rightarrow> False)"

lemma handler_is_record: "tryCastTo k nt_requestHandler \<Longrightarrow> is_record_kind k"
  by (cases k) (auto simp: is_record_kind_def)

lemma callback_keeps: "leaves_alone a N C m \<Longrightarrow> ap_vals (snd (node_callback N C p n reason w)) m = ap_vals w m"
  by (auto simp: leaves_alone_def node_callback_def split: node_kind.splits)

lemma invoke_keeps:
  assumes "leaves_alone a N C m" "access_and (nd_access (N n)) a \<noteq> access_none"
    "function_invoke C n DO EO d e w = Some (r, d', e', w')"
  shows "ap_vals w' m = ap_vals w m"
proof -
  have f: "ap_vals w2 m = ap_vals w1 m" if "cl_function C n args w1 = (res, w2)" for args w1 w2 res
  proof -
    have "ap_vals (snd (cl_function C n args w1)) m = ap_vals w1 m" using assms(1,2) by (simp add: leaves_alone_def)
    with that show ?thesis by simp
  qed
  show ?thesis using assms(3)
    by (auto simp: function_invoke_def bind_eq_Some_conv Let_def split: prod.splits if_splits dest: f)
qed

lemma record_keeps:
  assumes "record_request C n c w = Some (len, c', w')" "m \<noteq> n"
  shows "ap_vals w' m = ap_vals w m"
proof -
  have "record_get n c w = Some (len, c', w') \<Longrightarrow> w' = w"
    by (auto simp: record_get_def encoded_def Let_def split: option.splits if_splits)
  moreover have "record_update C n c w = Some (len, c', w') \<Longrightarrow> ap_vals w' m = ap_vals w m"
    using assms(2) by (auto simp: record_update_def Let_def bind_eq_Some_conv set_val_def split: option.splits if_splits)
  ultimately show ?thesis using assms(1) by (auto simp: record_request_def split: if_splits)
qed

lemma library_quiet:
  assumes "leaves_alone a N C m" "\<not> is_record_kind (nd_kind (N m))"
  shows "quiet (library_server a N r C :: ('a, 'b, app) server) (\<lambda>m w. ap_vals w m) m"
proof -
  have "tryCastTo (nd_kind (N n)) nt_requestHandler \<Longrightarrow> m \<noteq> n" for n
    using assms(2) handler_is_record by auto
  then have custom: "tryCastTo (nd_kind (N n)) nt_requestHandler \<Longrightarrow> record_request C n c w = Some (len, c', w') \<Longrightarrow>
      ap_vals w' m = ap_vals w m" for n len w w' and c c' :: "('a, 'b) rctx"
    using record_keeps by blast
  show ?thesis
    unfolding quiet_def
    by (intro conjI allI impI) (simp_all add: callback_keeps [OF assms(1)] invoke_keeps [OF assms(1)] custom)
qed

subsection \<open>Updating properties\<close>

text \<open>
  \<open>accepts\<close>: in state w, the server lets a client that addresses node p, by id or by name, write v to node n. \<open>store\<close>
  is the state after the writes.
\<close>

definition addressed :: "node_map \<Rightarrow> registry \<Rightarrow> bool \<Rightarrow> nref \<Rightarrow> nref \<Rightarrow> bool" where
  "addressed N r ids p n \<longleftrightarrow>
     (if ids then findById N r (ucast (nd_id (N n))) = Some (Some n)
      else \<exists>i. findByName N r p (nd_name (N n)) = Some (True, n, i)) \<and> CHR 0x00 \<notin> set (nd_name (N n))"

definition accepts :: "u8 \<Rightarrow> node_map \<Rightarrow> registry \<Rightarrow> classes \<Rightarrow> bool \<Rightarrow> nref \<Rightarrow> app \<Rightarrow> nref \<times> tsval \<Rightarrow> bool" where
  "accepts a N r C ids p w nv \<longleftrightarrow>
     addressed N r ids p (fst nv) \<and> may_write (nd_access (N (fst nv))) a \<and> nd_kind (N (fst nv)) = nk_property \<and>
     \<not> cl_const C (fst nv) \<and> fits (cl_type C (fst nv)) (ap_vals w (fst nv)) (snd nv)"

definition store :: "(nref \<times> tsval) list \<Rightarrow> app \<Rightarrow> app" where
  "store fs w = fold (\<lambda>nv. set_val (fst nv) (snd nv)) fs w"

definition update_items :: "node_map \<Rightarrow> bool \<Rightarrow> (nref \<times> tsval) list \<Rightarrow> citem list" where
  "update_items N ids fs = concat (map (\<lambda>nv. key_item ids (nd_id (N (fst nv)), nd_name (N (fst nv)), snd nv)) fs)"

lemma update_items_Cons: "update_items N ids ((n, v) # fs) =
    CPrim (key_call ids (nd_id (N n)) (nd_name (N n))) # item_of ids v # update_items N ids fs"
  by (simp add: update_items_def key_item_def)

lemma store_vals:
  "distinct (map fst fs) \<Longrightarrow> ap_vals (store fs w) m = (case map_of fs m of Some v \<Rightarrow> v | None \<Rightarrow> ap_vals w m)"
proof (induction fs arbitrary: w)
  case (Cons nv fs)
  then have "map_of fs (fst nv) = None" by (simp add: map_of_eq_None_iff)
  then show ?case using Cons.IH [of "set_val (fst nv) (snd nv) w"] Cons.prems
    by (cases nv) (auto simp: store_def set_val_def split: option.splits)
qed (simp add: store_def)

lemma update_member_hit:
  fixes c :: "('e, 'd) rctx"
  assumes acc: "accepts a N r C ids p w (n, v)" and cb: "\<And>reason w. node_callback N C p n reason w = (True, w)"
    and dec: "dec_val (cx_dops c) (cl_type C n) (ap_vals w n) d = Some (True, d', v)" and ident: "\<not> ids \<Longrightarrow> ident = None"
  shows "update_member (library_server a N r C) c p (if ids then Some (ucast (nd_id (N n))) else ident)
      (if ids then name else Some (nd_name (N n))) d (h, w) = Some (True, d', h, set_val n v w)"
proof -
  have "handleNodeUpdate (library_server a N r C) c p n d (h, w) = Some (True, d', h, set_val n v w)"
    using acc cb dec by (simp add: handleNodeUpdate_def accepts_def value_decode_def)
  then show ?thesis using acc ident
    by (cases ids) (auto simp: update_member_def accepts_def addressed_def)
qed

lemma update_loop:
  fixes c :: "('e, 'd) rctx"
  assumes R: "zcbor_reads R at" and dops: "cx_dops c = fixed_decoder_ops R opts"
    and cb: "\<And>n reason w. node_callback N C p n reason w = (True, w)"
  shows "at d (update_items N ids fs # st) \<Longrightarrow> list_all (accepts a N r C ids p w) fs \<Longrightarrow> distinct (map fst fs) \<Longrightarrow>
    (\<not> ids \<Longrightarrow> ident = None) \<Longrightarrow>
    \<exists>d'. map_loop (fixed_decoder_ops R opts) (update_member (library_server a N r C) c p) ident name d (h, w) =
      Some (True, d', h, store fs w) \<and> at d' ([] # st)"
proof (induction fs arbitrary: d w ident name)
  case Nil
  then show ?case using decodeKey_end [OF R, of d st opts ident name]
    by (subst map_loop.simps) (auto simp: update_items_def store_def)
next
  case (Cons nv fs)
  obtain n v where nv: "nv = (n, v)" by (cases nv)
  have acc: "accepts a N r C ids p w (n, v)" using Cons.prems(2) by (simp add: nv)
  have at: "at d ((CPrim (key_call ids (nd_id (N n)) (nd_name (N n))) # item_of ids v # update_items N ids fs) # st)"
    using Cons.prems(1) by (simp add: nv update_items_Cons)
  have fit: "fits (cl_type C n) (ap_vals w n) v" using acc by (simp add: accepts_def)
  have nul: "CHR 0x00 \<notin> set (nd_name (N n))" using acc by (simp add: accepts_def addressed_def)
  obtain d1 where d1: "decodeKey (fixed_decoder_ops R opts) ident name d =
      (True, if ids then Some (ucast (nd_id (N n))) else ident, if ids then name else Some (nd_name (N n)), d1)"
      "at d1 ((item_of ids v # update_items N ids fs) # st)"
    using decodeKey_reads [OF R at nul, of opts ident name] by blast
  obtain d2 where d2: "dec_val (cx_dops c) (cl_type C n) (ap_vals w n) d1 = Some (True, d2, v)" "at d2 (update_items N ids fs # st)"
    using reads_asD [OF reads_val [OF R, of ids opts] d1(2) fit] unfolding dops by blast
  have "list_all (accepts a N r C ids p (set_val n v w)) fs"
    using Cons.prems(2,3) by (force simp: list_all_iff accepts_def set_val_def nv)
  from Cons.IH [OF d2(2) this] Cons.prems(3,4) have
    "\<exists>d'. map_loop (fixed_decoder_ops R opts) (update_member (library_server a N r C) c p)
        (if ids then Some (ucast (nd_id (N n))) else ident) (if ids then name else Some (nd_name (N n))) d2 (h, set_val n v w) =
      Some (True, d', h, store fs (set_val n v w)) \<and> at d' ([] # st)" by (simp add: nv)
  then show ?case using d1(1) update_member_hit [OF acc cb d2(1) Cons.prems(4)]
    by (subst map_loop.simps) (simp add: nv store_def)
qed

lemma update_stores:
  fixes c :: "('e, 'd) rctx"
  assumes R: "zcbor_reads R at" and dops: "cx_dops c = fixed_decoder_ops R opts"
    and parent: "tryCastTo (nd_kind (N (cx_node c))) nt_hasChildren"
    and cb: "\<And>n reason w. node_callback N C (cx_node c) n reason w = (True, w)"
    and at: "at (cx_dec c) ((CMap kvs # xs) # st)" and kvs: "flat_pairs kvs = update_items N ids fs"
    and acc: "list_all (accepts a N r C ids (cx_node c) w) fs" and dist: "distinct (map fst fs)"
  shows "\<exists>len c'. handleUpdate (library_server a N r C) c w = Some (len, c', store fs w) \<and>
    cx_head c' = cx_head (setStatus st_changed c) \<and> len = o_length (cx_eops c) (cx_enc c') + getHeaderLength c \<and>
    cx_enc c' = snd (o_preamble (cx_eops c) (snd (o_preamble (cx_eops c) (cx_enc c))))"
proof -
  define c1 where "c1 = enc_do (o_preamble (cx_eops c)) (setStatus st_changed c)"
  have c1: "cx_dops c1 = fixed_decoder_ops R opts" "cx_node c1 = cx_node c" "cx_dec c1 = cx_dec c"
      "cx_head c1 = cx_head (setStatus st_changed c)" "cx_proto c1 = cx_proto c" "cx_eops c1 = cx_eops c"
      "cx_enc c1 = snd (o_preamble (cx_eops c) (cx_enc c))"
    by (simp_all add: c1_def enc_do_def on_enc_def setStatus_def dops getHeaderLength_def case_prod_beta)
  obtain d1 where d1: "zr_map_start R (cx_dec c) = (True, d1)" "at d1 (update_items N ids fs # xs # st)"
    using movesD [OF zcbor_readsD(13) [OF R] at] kvs by auto
  obtain d2 where d2: "map_loop (fixed_decoder_ops R opts) (update_member (library_server a N r C) c1 (cx_node c)) None None d1
      (cx_head c1, w) = Some (True, d2, cx_head c1, store fs w)" "at d2 ([] # xs # st)"
    using update_loop [where c = c1, OF R c1(1) cb d1(2) acc dist] by blast
  obtain d3 where d3: "zr_map_end R d2 = (True, d3)" using movesD [OF zcbor_readsD(15) [OF R] d2(2)] by blast
  have "decodeMap (cx_dops c1) (update_member (library_server a N r C) c1 (cx_node c1)) (cx_dec c1) (cx_head c1, w) =
      Some (True, d3, cx_head c1, store fs w)"
    using d1(1) d2(1) d3 by (simp add: decodeMap_def bops_map c1)
  then show ?thesis using parent
    by (simp add: handleUpdate_def Let_def flip: c1_def) (simp add: c1 encoded_def enc_do_def on_enc_def case_prod_beta getHeaderLength_def)
qed

text \<open>What the three handlers answer for a property, an update and a function, as lemmas on whole requests.\<close>

lemma get_answer:
  fixes c :: "('e, 'd) rctx"
  assumes "resolves (library_server a N r C) c m" and "isGet c" and "nd_kind (N m) = nk_property"
    and "enc_val (cx_eops c) (ap_vals w m) (snd (o_preamble (cx_eops c) (cx_enc c))) = (ok, e)"
  shows "\<exists>len c'. handleRequest (library_server a N r C) c req n w = Some (len, c', w) \<and> cx_enc c' = e \<and>
     (if ok then len = o_length (cx_eops c) e + getHeaderLength c \<and> cx_head c' = cx_head (setStatus st_content c)
      else len = getHeaderLength c \<and> cx_head c' = cx_head (setStatus st_unsupportedFormat c))"
proof -
  obtain j where "handleRequest (library_server a N r C) c req n w = handleGet (library_server a N r C) (c\<lparr>cx_node := m, cx_index := j\<rparr>) w"
    using resolved_dispatch [OF assms(1), of req n w] assms(2,3) by (auto simp: dispatch_simps)
  then show ?thesis using assms(3,4)
    by (simp add: handleGet_def Let_def enc_do_def on_enc_def case_prod_beta node_encode_def group_encode.simps
        setStatus_def getHeaderLength_def encoded_def only_status_def)
qed

lemma update_answer:
  fixes c :: "('e, 'd) rctx"
  assumes "zcbor_reads R at" and "cx_dops c = fixed_decoder_ops R opts" and "isUpdate c"
    and "resolves (library_server a N r C) c p" and "is_parent (N p)" and "\<not> is_record_kind (nd_kind (N p))"
    and "\<And>n reason w. node_callback N C p n reason w = (True, w)"
    and "at (cx_dec c) ((CMap kvs # xs) # st)" and "flat_pairs kvs = update_items N ids fs"
    and "list_all (accepts a N r C ids p w) fs" and "distinct (map fst fs)"
  shows "\<exists>len c'. handleRequest (library_server a N r C) c req n w = Some (len, c', store fs w) \<and>
    cx_head c' = cx_head (setStatus st_changed c) \<and> len = o_length (cx_eops c) (cx_enc c') + getHeaderLength c \<and>
    cx_enc c' = snd (o_preamble (cx_eops c) (snd (o_preamble (cx_eops c) (cx_enc c))))"
proof -
  obtain j where j: "handleRequest (library_server a N r C) c req n w = handleUpdate (library_server a N r C) (c\<lparr>cx_node := p, cx_index := j\<rparr>) w"
    using resolved_dispatch [OF assms(4), of req n w] assms(3,6) handler_is_record [of "nd_kind (N p)"]
    by (auto simp: dispatch_simps)
  have "\<exists>len c'. handleUpdate (library_server a N r C) (c\<lparr>cx_node := p, cx_index := j\<rparr>) w = Some (len, c', store fs w) \<and>
      cx_head c' = cx_head (setStatus st_changed (c\<lparr>cx_node := p, cx_index := j\<rparr>)) \<and>
      len = o_length (cx_eops (c\<lparr>cx_node := p, cx_index := j\<rparr>)) (cx_enc c') + getHeaderLength (c\<lparr>cx_node := p, cx_index := j\<rparr>) \<and>
      cx_enc c' = snd (o_preamble (cx_eops (c\<lparr>cx_node := p, cx_index := j\<rparr>))
        (snd (o_preamble (cx_eops (c\<lparr>cx_node := p, cx_index := j\<rparr>)) (cx_enc (c\<lparr>cx_node := p, cx_index := j\<rparr>)))))"
    using assms(2,5,7-) by (intro update_stores [OF assms(1)]) auto
  then show ?thesis by (simp add: j)
qed

subsection \<open>Sample nodes\<close>

text \<open>A property that may be read and one that may be written, under a group, and a small array of records.\<close>

definition sample_nodes :: node_map where
  "sample_nodes n =
    (if n = 2 then \<lparr>nd_id = 6, nd_parent = 0, nd_name = ''Conf'', nd_kind = nk_group, nd_subsets = 0, nd_access = anyRead\<rparr>
     else if n = 3 then \<lparr>nd_id = 0x61, nd_parent = 6, nd_name = ''sMax'', nd_kind = nk_property, nd_subsets = 0, nd_access = anyReadWrite\<rparr>
     else if n = 4 then \<lparr>nd_id = 0x62, nd_parent = 6, nd_name = ''rMin'', nd_kind = nk_property, nd_subsets = 0, nd_access = anyRead\<rparr>
     else if n = 5 then \<lparr>nd_id = 0x63, nd_parent = 0, nd_name = ''Log'', nd_kind = nk_record 1, nd_subsets = 0, nd_access = anyRead\<rparr>
     else if n = 6 then \<lparr>nd_id = 0x64, nd_parent = 0, nd_name = ''xAdd'', nd_kind = nk_function, nd_subsets = 0, nd_access = anyWrite\<rparr>
     else root_node)"

definition sample_registry :: registry where
  "sample_registry = \<lparr>rg_next = \<lambda>_. None,
     rg_map = (\<lambda>b. if b = 6 then il_empty\<lparr>il_head := Some 2\<rparr> else if b = 1 then il_empty\<lparr>il_head := Some 3\<rparr>
        else if b = 2 then il_empty\<lparr>il_head := Some 4\<rparr> else if b = 3 then il_empty\<lparr>il_head := Some 5\<rparr>
        else if b = 4 then il_empty\<lparr>il_head := Some 6\<rparr> else il_empty),
     rg_cnext = \<lambda>_. None, rg_children = \<lambda>_. il_empty\<rparr>"

definition sample_classes :: classes where
  "sample_classes = \<lparr>cl_type = \<lambda>n. if n = 5 then TArr 1 (TRec [(0x70, ''n'', TPrim KU32)]) else TPrim KU32,
     cl_const = \<lambda>_. False, cl_params = \<lambda>_. [TPrim KU32, TPrim KU32],
     cl_function = \<lambda>n args w. (case args of [Prim (PU32 a), Prim (PU32 b)] \<Rightarrow> (Some (Prim (PU32 (a + b))), w) | _ \<Rightarrow> (None, w)),
     cl_callback = \<lambda>p n reason w. (True, w), cl_typename = \<lambda>_. ''u32''\<rparr>"

definition sample_app :: app where
  "sample_app = \<lparr>ap_vals = \<lambda>n. if n = 5 then VArr [VRec [(0x70, ''n'', Prim (PU32 9))]] else Prim (PU32 7),
     ap_args = \<lambda>_. [Prim (PU32 0), Prim (PU32 0)]\<rparr>"

definition bin_request :: "request_type \<Rightarrow> u16 \<Rightarrow> 'e encoder_ops \<Rightarrow> 'e \<Rightarrow> citem list list \<Rightarrow> ('e, citem list list) rctx" where
  "bin_request t i EO e d = \<lparr>cx_proto = Binary, cx_type = binary_request_val t, cx_id = Some i, cx_path = None, cx_node = 0,
     cx_index = None, cx_eops = EO, cx_dops = fixed_decoder_ops stack_reader 0, cx_enc = e, cx_dec = d, cx_head = []\<rparr>"

abbreviation sample_server :: "('e, 'd, app) server" where
  "sample_server \<equiv> library_server anyReadWrite sample_nodes sample_registry sample_classes"

lemma bin_request_simps [simp]:
  "cx_id (bin_request t i EO e d) = Some i" "cx_dops (bin_request t i EO e d) = fixed_decoder_ops stack_reader 0"
  "cx_dec (bin_request t i EO e d) = d" "cx_proto (bin_request t i EO e d) = Binary" "cx_eops (bin_request t i EO e d) = EO"
  "cx_enc (bin_request t i EO e d) = e" "cx_index (bin_request t i EO e d) = None"
  "isGet (bin_request t i EO e d) = (t = rq_get)" "isUpdate (bin_request t i EO e d) = (t = rq_update)"
  "isFetch (bin_request t i EO e d) = (t = rq_fetch)" "isExec (bin_request t i EO e d) = (t = rq_exec)"
  "isForward (bin_request t i EO e d) = (t = rq_forward)" "isToBeForwarded (bin_request t i EO e d) = (t = rq_forward)"
  by (cases t; simp add: bin_request_def isGet_def isUpdate_def isFetch_def isExec_def isForward_def is_type_def isToBeForwarded_def)+

lemma sample_find:
  "findById sample_nodes sample_registry 6 = Some (Some 2)" "findById sample_nodes sample_registry 0x61 = Some (Some 3)"
  "findById sample_nodes sample_registry 0x62 = Some (Some 4)" "findById sample_nodes sample_registry 0x63 = Some (Some 5)"
  "findById sample_nodes sample_registry 0x64 = Some (Some 6)"
  by (simp_all add: findById_def sample_registry_def sample_nodes_def bucket_def NODE_MAP_LOOKUP_BUCKETS_def find_loop.simps)

lemma sample_kinds [simp]:
  "nd_kind (sample_nodes 2) = nk_group" "nd_kind (sample_nodes 3) = nk_property" "nd_kind (sample_nodes 4) = nk_property"
  "nd_kind (sample_nodes 5) = nk_record 1" "nd_kind (sample_nodes 6) = nk_function"
  by (simp_all add: sample_nodes_def)

lemma sample_access:
  "may_write (nd_access (sample_nodes 3)) anyReadWrite" "\<not> may_write (nd_access (sample_nodes 4)) anyReadWrite"
  "\<not> may_write (nd_access (sample_nodes 5)) anyReadWrite" "access_and (nd_access (sample_nodes 6)) anyReadWrite \<noteq> access_none"
  by (simp_all add: sample_nodes_def may_write_def flag_defs)

lemma sample_callback [simp]: "node_callback N sample_classes p n reason w = (True, w)"
  by (simp add: node_callback_def sample_classes_def split: node_kind.split)

subsection \<open>Properties\<close>


lemma sample_forbidden:
  "\<exists>len c'. handleRequest sample_server (bin_request rq_update 6 EO e [[CMap [(CPrim (Zu32 0x62), CPrim (Zu32 5))]]]) [] 0 sample_app =
     Some (len, c', sample_app)"
proof -
  define c where "c = bin_request rq_update 6 EO e [[CMap [(CPrim (Zu32 0x62), CPrim (Zu32 5))]]]"
  define c1 where "c1 = enc_do (o_preamble EO) (setStatus st_changed (c\<lparr>cx_node := 2, cx_index := None\<rparr>))"
  have c1: "cx_dops c1 = fixed_decoder_ops stack_reader 0" "cx_node c1 = 2" "cx_dec c1 = cx_dec c" "cx_eops c1 = EO"
    by (simp_all add: c1_def enc_do_def on_enc_def setStatus_def case_prod_beta c_def)
  have "resolves sample_server c 2" by (simp add: resolves_def c_def sample_find)
  from resolved_request [OF this, of "[]" 0 sample_app]
  have r: "handleRequest sample_server c [] 0 sample_app = handleUpdate sample_server (c\<lparr>cx_node := 2, cx_index := None\<rparr>) sample_app"
    by (auto simp: handle_node_def dispatch_def c_def)
  have k: "decodeKey (fixed_decoder_ops stack_reader 0) None None [[CPrim (Zu32 0x62), CPrim (Zu32 5)], []] =
      (True, Some 0x62, None, [[CPrim (Zu32 5)], []])"
    by (simp add: decodeKey_def bdec_defs stack_reader_def take_prim_def)
  have u: "update_member sample_server c1 2 (Some 0x62) None [[CPrim (Zu32 5)], []] (h, w) =
      Some (False, [[CPrim (Zu32 5)], []], cx_head (setStatus st_forbidden c1), w)" for h w
    using sample_access(2) by (simp add: update_member_def sample_find handleNodeUpdate_def fail_with_def)
  have d: "decodeMap (cx_dops c1) (update_member sample_server c1 (cx_node c1)) (cx_dec c1) (h, w) =
      Some (False, [[CPrim (Zu32 5)], []], cx_head (setStatus st_forbidden c1), w)" for h w
    unfolding c1 decodeMap_def
    by (simp add: c_def bops_map stack_reader_def flat_pairs_def)
      (subst map_loop.simps, simp add: k u flip: stack_reader_def)
  have e: "cx_eops (c\<lparr>cx_node := 2, cx_index := None\<rparr>) = EO" "casts sample_server (cx_node (c\<lparr>cx_node := 2, cx_index := None\<rparr>)) nt_hasChildren"
    by (simp_all add: c_def)
  show ?thesis
    unfolding c_def [symmetric] r handleUpdate_def Let_def e(1) c1_def [symmetric] d using e(2) by simp
qed

lemma sample_function_state [simp]: "snd (cl_function sample_classes n args w) = w"
  by (simp add: sample_classes_def split: list.split tsval.split prim.split)

lemma sample_quiet: "leaves_alone a N sample_classes m"
  by (simp add: leaves_alone_def) (simp add: sample_classes_def)


text \<open>C4. An update stores what it carries: when the payload is a map from ids, or from names, of writable properties
  below or beside the node addressed to values of their types, each once, and no callback objects, every property
  has its new value afterwards, all others keep theirs, and the answer is the status changed. When
  the payload is no map, nothing is stored and the answer is the status changed all the same.\<close>

theorem update_outcome:
  fixes c :: "('e, 'd) rctx"
  assumes "zcbor_reads R at" and "cx_dops c = fixed_decoder_ops R opts" and "isUpdate c"
    and "resolves (library_server a N r C) c p" and "is_parent (N p)" and "\<not> is_record_kind (nd_kind (N p))"
    and "\<And>n reason w. node_callback N C p n reason w = (True, w)"
  shows "(at (cx_dec c) ((CMap kvs # xs) # st) \<and> flat_pairs kvs = update_items N ids fs \<and>
      list_all (accepts a N r C ids p w) fs \<and> distinct (map fst fs) \<longrightarrow>
      (\<exists>len c' w'. handleRequest (library_server a N r C) c req n w = Some (len, c', w') \<and>
        cx_head c' = cx_head (setStatus st_changed c) \<and>
        (\<forall>m. ap_vals w' m = (case map_of fs m of Some v \<Rightarrow> v | None \<Rightarrow> ap_vals w m)))) \<and>
    (fst (zr_map_start R (cx_dec c)) = False \<longrightarrow>
      (\<exists>c'. handleRequest (library_server a N r C) c req n w = Some (getHeaderLength c, c', w) \<and>
        cx_head c' = cx_head (setStatus st_changed c)))"
proof -
  obtain j where j: "handleRequest (library_server a N r C) c req n w = handleUpdate (library_server a N r C) (c\<lparr>cx_node := p, cx_index := j\<rparr>) w"
    using resolved_dispatch [OF assms(4), of req n w] assms(3,6) handler_is_record [of "nd_kind (N p)"]
    by (auto simp: dispatch_simps)
  define c1 where "c1 = c\<lparr>cx_node := p, cx_index := j\<rparr>"
  have c1: "cx_dops c1 = fixed_decoder_ops R opts" "cx_node c1 = p" "cx_dec c1 = cx_dec c"
      "cx_head (setStatus s c1) = cx_head (setStatus s c)" "getHeaderLength c1 = getHeaderLength c" for s
    by (simp_all add: c1_def assms(2))
  have store: "distinct (map fst fs) \<Longrightarrow> ap_vals (store fs w) m = (case map_of fs m of Some v \<Rightarrow> v | None \<Rightarrow> ap_vals w m)" for m w
    by (rule store_vals)
  show ?thesis
  proof (intro conjI impI)
    assume a: "at (cx_dec c) ((CMap kvs # xs) # st) \<and> flat_pairs kvs = update_items N ids fs \<and>
      list_all (accepts a N r C ids p w) fs \<and> distinct (map fst fs)"
    then show "\<exists>len c' w'. handleRequest (library_server a N r C) c req n w = Some (len, c', w') \<and>
        cx_head c' = cx_head (setStatus st_changed c) \<and>
        (\<forall>m. ap_vals w' m = (case map_of fs m of Some v \<Rightarrow> v | None \<Rightarrow> ap_vals w m))"
      using update_answer [OF assms, of kvs xs st ids fs w req n] store by auto
  next
    assume "fst (zr_map_start R (cx_dec c)) = False"
    then obtain d1 where "d_map_start (cx_dops c1) (cx_dec c1) = (False, d1)" by (cases "zr_map_start R (cx_dec c)") (auto simp: bops_map c1)
    then show "\<exists>c'. handleRequest (library_server a N r C) c req n w = Some (getHeaderLength c, c', w) \<and>
        cx_head c' = cx_head (setStatus st_changed c)"
      using assms(5) c1(2,4,5) unfolding j c1_def [symmetric]
      by (simp add: handleUpdate_def Let_def decodeMap_def enc_do_def on_enc_def case_prod_beta setStatus_def getHeaderLength_def)
  qed
qed

theorem update_outcome_witness:
  "\<forall>(EO :: 'e encoder_ops) e. \<exists>len c' w'. handleRequest sample_server
      (bin_request rq_update 6 EO e [[CMap [(CPrim (Zu32 0x61), CPrim (Zu32 5))]]]) [] 0 sample_app = Some (len, c', w') \<and>
    cx_head c' = [0x84] \<and> ap_vals w' 3 = Prim (PU32 5)"
proof (intro allI)
  fix EO :: "'e encoder_ops" and e :: 'e
  let ?c = "bin_request rq_update 6 EO e [[CMap [(CPrim (Zu32 0x61), CPrim (Zu32 5))]]]"
  have items: "flat_pairs [(CPrim (Zu32 0x61), CPrim (Zu32 5))] = update_items sample_nodes True [(3, Prim (PU32 5))]"
    by (simp add: flat_pairs_def update_items_def key_item_def key_call_def sample_nodes_def)
  have acc: "accepts anyReadWrite sample_nodes sample_registry sample_classes True 2 sample_app (3, Prim (PU32 5))"
    using sample_access(1) sample_find(2)
    by (simp add: accepts_def addressed_def) (simp add: sample_nodes_def sample_classes_def prim_fits_def)
  have res: "resolves sample_server ?c 2" by (simp add: resolves_def sample_find)
  obtain len c' w' where r: "handleRequest sample_server ?c [] 0 sample_app = Some (len, c', w')"
      "cx_head c' = cx_head (setStatus st_changed ?c)"
      "\<And>m. ap_vals w' m = (case map_of [(3, Prim (PU32 5))] m of Some v \<Rightarrow> v | None \<Rightarrow> ap_vals sample_app m)"
    using conjunct1 [OF update_outcome [OF stack_reader_reads _ _ res, where n = 0 and req = "[]" and w = sample_app and opts = 0 and ids = True
      and kvs = "[(CPrim (Zu32 0x61), CPrim (Zu32 5))]" and fs = "[(3, Prim (PU32 5))]" and xs = "[]" and st = "[]"]] items acc
    by (auto simp: is_record_kind_def)
  then show "\<exists>len c' w'. handleRequest sample_server ?c [] 0 sample_app = Some (len, c', w') \<and>
    cx_head c' = [0x84] \<and> ap_vals w' 3 = Prim (PU32 5)"
    by (intro exI [of _ len] exI [of _ c'] exI [of _ w']) (simp add: setStatus_def binary_status_def)
qed

text \<open>C24. Reading a property: the answer is the status content and the value in the encoding of the protocol, or the status
  unsupported format when it does not fit. No access flag of the node or of the server is consulted:
  the read flags protect nothing.\<close>

theorem get_ignores_access:
  fixes c :: "('e, 'd) rctx"
  assumes "resolves (library_server a N r C) c m" and "isGet c" and "nd_kind (N m) = nk_property"
    and "enc_val (cx_eops c) (ap_vals w m) (snd (o_preamble (cx_eops c) (cx_enc c))) = (ok, e)"
  shows "\<exists>len c'. handleRequest (library_server a N r C) c req n w = Some (len, c', w) \<and> cx_enc c' = e \<and>
     (if ok then len = o_length (cx_eops c) e + getHeaderLength c \<and> cx_head c' = cx_head (setStatus st_content c)
      else len = getHeaderLength c \<and> cx_head c' = cx_head (setStatus st_unsupportedFormat c))"
  using get_answer [OF assms] .

text \<open>An encoder that keeps the list of the calls made to zcbor.\<close>

definition log_ops :: "zcall list encoder_ops" where
  "log_ops = binary_ops base_ensureState (\<lambda>c e. (True, e @ [c])) False True length"

lemma log_ops_calls: "o_preamble log_ops e = (True, e @ [Znil])" "enc_val log_ops (Prim p) e = (True, e @ [prim_call p])"
  by (simp_all add: log_ops_def binary_ops_def guarded_def base_ensureState_def) (cases p; simp add: guarded_def base_ensureState_def)

theorem get_ignores_access_witness:
  "\<exists>c'. handleRequest (library_server 0 sample_nodes sample_registry sample_classes) (bin_request rq_get 0x62 log_ops [] [[]]) [] 0 sample_app =
     Some (3, c', sample_app) \<and> cx_head c' = [0x85] \<and> cx_enc c' = [Znil, Zu32 7]"
proof -
  let ?c = "bin_request rq_get 0x62 log_ops [] [[]]" and ?S = "library_server 0 sample_nodes sample_registry sample_classes"
  have res: "resolves ?S ?c 4" by (simp add: resolves_def sample_find)
  have len: "o_length log_ops e = length e" for e by (simp add: log_ops_def binary_ops_def)
  have enc: "enc_val (cx_eops ?c) (ap_vals sample_app 4) (snd (o_preamble (cx_eops ?c) (cx_enc ?c))) = (True, [Znil, Zu32 7])"
    by (simp add: log_ops_calls sample_app_def del: enc_val.simps)
  show ?thesis
    using get_ignores_access [OF res _ _ enc, of "[]" 0]
    by (auto simp: setStatus_def getHeaderLength_def binary_status_def len)
qed

text \<open>C22. An array of records handles its requests itself and consults no access flag: an update that names an index in
  range decodes into that element and answers the status changed, even for a read-only array; an
  update that names no index, such as every update by id, decodes to index SIZE_MAX, far outside the array.\<close>

theorem record_update_unguarded:
  fixes c :: "('e, 'd) rctx"
  assumes "resolves (library_server a N r C) c m" and "isUpdate c" and "nd_kind (N m) = nk_record k"
  shows "(cx_id c \<noteq> None \<and> cx_index c = None \<longrightarrow> handleRequest (library_server a N r C) c req n w = None) \<and>
    (\<forall>p i vs. cx_id c = None \<and> cx_path c = Some p \<and> registry_findByName N r p = Some (True, m, Some i) \<and>
        cl_type C m = TArr k t \<and> ap_vals w m = VArr vs \<and> i < length vs \<and>
        dec_val (cx_dops c) t (vs ! i) (cx_dec c) = Some (ok, d', v) \<longrightarrow>
      (\<exists>c' w'. handleRequest (library_server a N r C) c req n w = Some (getHeaderLength c, c', w') \<and>
        cx_head c' = cx_head (setStatus st_changed c) \<and> ap_vals w' m = VArr (vs[i := v])))"
proof -
  have node: "handle_node (library_server a N r C) (c\<lparr>cx_node := m, cx_index := j\<rparr>) w =
      (case record_update C m (c\<lparr>cx_node := m, cx_index := j\<rparr>) w of None \<Rightarrow> None
       | Some (len, c1, w1) \<Rightarrow> if len \<noteq> 0 then Some (len, c1, w1) else dispatch (library_server a N r C) c1 w1)" for j
    using assms(2,3) types_exclusive(1) [of c]
    by (simp add: handle_node_def record_request_def split: option.split)
  have head: "getHeaderLength c \<noteq> 0" by (simp add: getHeaderLength_def split: proto.split)
  show ?thesis
  proof (intro conjI impI allI)
    assume a: "cx_id c \<noteq> None \<and> cx_index c = None"
    then have "handleRequest (library_server a N r C) c req n w =
        handle_node (library_server a N r C) (c\<lparr>cx_node := m, cx_index := None\<rparr>) w"
      using resolved_request [OF assms(1), of req n w] by auto
    then show "handleRequest (library_server a N r C) c req n w = None"
      by (simp add: node record_update_def Let_def enc_do_def on_enc_def case_prod_beta setStatus_def)
  next
    fix p i vs
    assume a: "cx_id c = None \<and> cx_path c = Some p \<and> registry_findByName N r p = Some (True, m, Some i) \<and>
        cl_type C m = TArr k t \<and> ap_vals w m = VArr vs \<and> i < length vs \<and>
        dec_val (cx_dops c) t (vs ! i) (cx_dec c) = Some (ok, d', v)"
    have "\<not> isToBeForwarded c" using assms(1) by (simp add: resolves_def)
    then have h: "handleRequest (library_server a N r C) c req n w =
        handle_node (library_server a N r C) (c\<lparr>cx_node := m, cx_index := Some i\<rparr>) w"
      using a by (simp add: handleRequest_def hasValidEndpoint_def)
    show "\<exists>c' w'. handleRequest (library_server a N r C) c req n w = Some (getHeaderLength c, c', w') \<and>
        cx_head c' = cx_head (setStatus st_changed c) \<and> ap_vals w' m = VArr (vs[i := v])"
      unfolding h node using a head
      by (simp add: record_update_def Let_def enc_do_def on_enc_def case_prod_beta setStatus_def getHeaderLength_def set_val_def)
  qed
qed

theorem record_update_unguarded_witness:
  "handleRequest sample_server (bin_request rq_update 0x63 log_ops [] [[CMap []]]) [] 0 sample_app = None"
proof -
  have res: "resolves sample_server (bin_request rq_update 0x63 log_ops [] [[CMap []]]) 5"
    by (simp add: resolves_def sample_find)
  show ?thesis by (rule mp [OF conjunct1 [OF record_update_unguarded [OF res, of 1]]]) simp_all
qed

subsection \<open>Types\<close>

text \<open>
  Every value has the type of its property, every argument the type of its parameter, and arrays of records are
  arrays. The application is to keep the types of the values it sets.
\<close>

definition well_typed :: "classes \<Rightarrow> app \<Rightarrow> bool" where
  "well_typed C w \<longleftrightarrow> (\<forall>n. has_type (cl_type C n) (ap_vals w n)) \<and> (\<forall>n. list_all2 has_type (cl_params C n) (ap_args w n))"

definition typed_app :: "node_map \<Rightarrow> classes \<Rightarrow> bool" where
  "typed_app N C \<longleftrightarrow>
     (\<forall>p n reason w. well_typed C w \<longrightarrow> well_typed C (snd (cl_callback C p n reason w))) \<and>
     (\<forall>n args w. well_typed C w \<longrightarrow> well_typed C (snd (cl_function C n args w))) \<and>
     (\<forall>n k. nd_kind (N n) = nk_record k \<longrightarrow> (\<exists>j t. cl_type C n = TArr j t))"

lemma set_val_typed: "well_typed C w \<Longrightarrow> has_type (cl_type C n) v \<Longrightarrow> well_typed C (set_val n v w)"
  by (simp add: well_typed_def set_val_def)

lemma tuple_items_typed:
  "list_all2 has_type ts vs \<Longrightarrow> dec_tuple_items (map (dec_val DO) ts) vs r d = Some (r', d', vs') \<Longrightarrow> list_all2 has_type ts vs'"
proof (induction ts vs arbitrary: r d r' d' vs' rule: list_all2_induct)
  case (Cons t ts v vs)
  then obtain r1 d1 v1 r2 d2 vs2 where a: "dec_val DO t v d = Some (r1, d1, v1)"
    "dec_tuple_items (map (dec_val DO) ts) vs (r \<and> r1) d1 = Some (r2, d2, vs2)" "vs' = v1 # vs2"
    by (auto simp: bind_eq_Some_conv)
  then show ?case using keeps_typeD [OF dec_val_typed Cons.hyps(1) a(1)] Cons.IH [OF a(2)] by simp
qed simp

lemma decodeTuple_typed:
  "list_all2 has_type ts vs \<Longrightarrow> decodeTuple DO (map (dec_val DO) ts) vs d = Some (r', d', vs') \<Longrightarrow> list_all2 has_type ts vs'"
  by (auto simp: decodeTuple_def Let_def split_def split: if_splits dest: tuple_items_typed)

lemma invoke_typed:
  assumes t: "typed_app N C" and w: "well_typed C w" and r: "function_invoke C n DO EO d e w = Some (r, d', e', w')"
  shows "well_typed C w'"
proof -
  obtain r1 d1 args where a: "decodeTuple DO (map (dec_val DO) (cl_params C n)) (ap_args w n) d = Some (r1, d1, args)"
    using r by (auto simp: function_invoke_def bind_eq_Some_conv)
  have "list_all2 has_type (cl_params C n) args" using decodeTuple_typed [OF _ a] w by (simp add: well_typed_def)
  then have w1: "well_typed C (w\<lparr>ap_args := (ap_args w)(n := args)\<rparr>)" using w by (simp add: well_typed_def)
  have "well_typed C (snd (cl_function C n args (w\<lparr>ap_args := (ap_args w)(n := args)\<rparr>)))"
    using t w1 unfolding typed_app_def by blast
  then show ?thesis using r a w1
    by (auto simp: function_invoke_def Let_def split: prod.splits if_splits)
qed

lemma record_typed:
  assumes t: "cl_type C n = TArr j t" and w: "well_typed C w" and r: "record_request C n c w = Some (len, c', w')"
  shows "well_typed C w'"
proof -
  have get: "record_get n c w = Some (len, c', w') \<Longrightarrow> w' = w"
    by (auto simp: record_get_def encoded_def Let_def split: option.splits if_splits)
  have "has_type (TArr j t) (ap_vals w n)" using w t unfolding well_typed_def by metis
  then obtain vs where vs: "ap_vals w n = VArr vs" "length vs = j" "list_all (has_type t) vs" by (auto split: tsval.splits)
  have upd: "well_typed C w'" if u: "record_update C n c w = Some (len, c', w')"
  proof -
    obtain i r1 d1 v d0 where i: "i < length vs" "dec_val (cx_dops c) t (vs ! i) d0 = Some (r1, d1, v)"
        "w' = set_val n (VArr (vs[i := v])) w"
      using u by (auto simp: record_update_def Let_def bind_eq_Some_conv vs t enc_do_def on_enc_def case_prod_beta setStatus_def
          split: option.splits if_splits)
    have "has_type t v" using keeps_typeD [OF dec_val_typed _ i(2)] vs(3) i(1) by (simp add: list_all_length)
    then have "list_all (has_type t) (vs[i := v])" using vs(3) set_update_subset_insert [of vs i v] by (auto simp: list_all_iff)
    then show ?thesis unfolding i(3) by (intro set_val_typed w) (simp add: t vs(2))
  qed
  show ?thesis using r get upd w by (auto simp: record_request_def split: if_splits)
qed

lemma typed_preserves:
  assumes t: "typed_app N C"
  shows "preserves (library_server a N r C) (well_typed C)"
proof -
  have cb: "well_typed C w \<Longrightarrow> well_typed C (snd (node_callback N C p n reason w))" for p n reason w
    using t by (auto simp: typed_app_def node_callback_def split: node_kind.split)
  have dec: "well_typed C w'" if w: "well_typed C w" and v: "value_decode C n DO d w = Some (r, d', w')"
    for n r w w' and DO :: "'b decoder_ops" and d d'
  proof (cases "cl_const C n")
    case True
    with w v show ?thesis by (simp add: value_decode_def)
  next
    case False
    then obtain x where x: "dec_val DO (cl_type C n) (ap_vals w n) d = Some (r, d', x)" "w' = set_val n x w"
      using v by (auto simp: value_decode_def)
    have "has_type (cl_type C n) (ap_vals w n)" using w by (simp add: well_typed_def)
    from keeps_typeD [OF dec_val_typed this x(1)] show ?thesis unfolding x(2) by (rule set_val_typed [OF w])
  qed
  have cust: "tryCastTo (nd_kind (N n)) nt_requestHandler \<Longrightarrow> well_typed C w \<Longrightarrow> record_request C n c w = Some (len, c', w') \<Longrightarrow>
      well_typed C w'" for n len w w' and c c' :: "('a, 'b) rctx"
  proof -
    assume k: "tryCastTo (nd_kind (N n)) nt_requestHandler" and w: "well_typed C w"
      and q: "record_request C n c w = Some (len, c', w')"
    obtain k where "nd_kind (N n) = nk_record k"
      using handler_is_record [OF k] by (auto simp: is_record_kind_def split: node_kind.splits)
    then obtain j u where "cl_type C n = TArr j u" using t by (auto simp: typed_app_def)
    from record_typed [OF this w q] show "well_typed C w'" .
  qed
  show ?thesis unfolding preserves_def
    by (intro conjI allI impI) (auto intro: cb dec cust invoke_typed [OF t])
qed



subsection \<open>Execution\<close>

fun args_fit :: "ttype list \<Rightarrow> tsval list \<Rightarrow> tsval list \<Rightarrow> bool" where
  "args_fit [] [] [] = True"
| "args_fit (t # ts) (x # xs) (v # vs) = (fits t x v \<and> args_fit ts xs vs)"
| "args_fit ts xs vs = False"

lemma tuple_reads:
  "zcbor_reads R at \<Longrightarrow> at d (map (item_of ids) vs # st) \<Longrightarrow> args_fit ts olds vs \<Longrightarrow>
   \<exists>d'. dec_tuple_items (map (dec_val (fixed_decoder_ops R opts)) ts) olds True d = Some (True, d', vs) \<and> at d' ([] # st)"
proof (induction ts olds vs arbitrary: d rule: args_fit.induct)
  case (2 t ts x xs v vs)
  then have fit: "fits t x v" and at: "at d ((item_of ids v # map (item_of ids) vs) # st)" by auto
  obtain d1 where d1: "dec_val (fixed_decoder_ops R opts) t x d = Some (True, d1, v)" "at d1 (map (item_of ids) vs # st)"
    using reads_asD [OF reads_val [OF 2(2), of ids opts] at fit] by blast
  obtain d2 where "dec_tuple_items (map (dec_val (fixed_decoder_ops R opts)) ts) xs True d1 = Some (True, d2, vs)" "at d2 ([] # st)"
    using 2(1) [OF 2(2) d1(2)] 2(4) by auto
  with d1(1) show ?case by simp
qed auto

lemma exec_answer:
  fixes c :: "('e, 'd) rctx"
  assumes "zcbor_reads R at" and "cx_dops c = fixed_decoder_ops R opts"
    and "resolves (library_server a N r C) c m" and "isExec c" and "nd_kind (N m) = nk_function"
    and "access_and (nd_access (N m)) a \<noteq> access_none"
    and "at (cx_dec c) ((CList (map (item_of ids) args) # xs) # st)" and "args_fit (cl_params C m) (ap_args w m) args"
    and "cl_function C m args (w\<lparr>ap_args := (ap_args w)(m := args)\<rparr>) = (res, w2)"
    and "invoke_result (cx_eops c) res (snd (o_preamble (cx_eops c) (cx_enc c))) = (ok, e)"
  shows "\<exists>len c'. handleRequest (library_server a N r C) c req n w = Some (len, c', w2) \<and> cx_enc c' = e \<and>
    (if ok then len = o_length (cx_eops c) e + getHeaderLength c \<and> cx_head c' = cx_head (setStatus st_changed c)
     else len = getHeaderLength c \<and> cx_head c' = cx_head (setStatus st_badRequest c))"
proof -
  obtain j where j: "handleRequest (library_server a N r C) c req n w = handleExec (library_server a N r C) (c\<lparr>cx_node := m, cx_index := j\<rparr>) w"
    using resolved_dispatch [OF assms(3), of req n w] assms(4,5) by (auto simp: dispatch_simps)
  obtain d1 where d1: "zr_list_start R (cx_dec c) = (True, d1)" "at d1 (map (item_of ids) args # xs # st)"
    using movesD [OF zcbor_readsD(12) [OF assms(1)] assms(7)] by blast
  obtain d2 where d2: "dec_tuple_items (map (dec_val (fixed_decoder_ops R opts)) (cl_params C m)) (ap_args w m) True d1 = Some (True, d2, args)"
      "at d2 ([] # xs # st)" using tuple_reads [OF assms(1) d1(2) assms(8)] by blast
  obtain d3 where d3: "zr_list_end R d2 = (True, d3)" using movesD [OF zcbor_readsD(14) [OF assms(1)] d2(2)] by blast
  have "decodeTuple (cx_dops c) (map (dec_val (cx_dops c)) (cl_params C m)) (ap_args w m) (cx_dec c) = Some (True, d3, args)"
    using d1(1) d2(1) d3 by (simp add: decodeTuple_def assms(2) bops_map) (simp add: bdec_defs)
  then have "function_invoke C m (cx_dops c) (cx_eops c) (cx_dec c) (snd (o_preamble (cx_eops c) (cx_enc c))) w = Some (ok, d3, e, w2)"
    using assms(9,10) by (simp add: function_invoke_def)
  then show ?thesis using assms(5,6) unfolding j
    by (simp add: handleExec_def Let_def enc_do_def on_enc_def case_prod_beta setStatus_def getHeaderLength_def encoded_def only_status_def)
qed

text \<open>C10. Executing a function: when the payload is the list of its arguments and some role may use the function, it is called
  exactly with these arguments, what it does to the application is the effect of the request, and the
  answer is the status changed with the encoded result, or null for a void function; if the result does
  not fit, the answer is a bad request, although the function has run.\<close>

theorem exec_calls_function:
  fixes c :: "('e, 'd) rctx"
  assumes "zcbor_reads R at" and "cx_dops c = fixed_decoder_ops R opts"
    and "resolves (library_server a N r C) c m" and "isExec c" and "nd_kind (N m) = nk_function"
    and "access_and (nd_access (N m)) a \<noteq> access_none"
    and "at (cx_dec c) ((CList (map (item_of ids) args) # xs) # st)" and "args_fit (cl_params C m) (ap_args w m) args"
    and "cl_function C m args (w\<lparr>ap_args := (ap_args w)(m := args)\<rparr>) = (res, w2)"
    and "invoke_result (cx_eops c) res (snd (o_preamble (cx_eops c) (cx_enc c))) = (ok, e)"
  shows "\<exists>len c'. handleRequest (library_server a N r C) c req n w = Some (len, c', w2) \<and> cx_enc c' = e \<and>
    (if ok then len = o_length (cx_eops c) e + getHeaderLength c \<and> cx_head c' = cx_head (setStatus st_changed c)
     else len = getHeaderLength c \<and> cx_head c' = cx_head (setStatus st_badRequest c))"
  using exec_answer [OF assms] .

theorem exec_calls_function_witness:
  "\<exists>c'. handleRequest sample_server (bin_request rq_exec 0x64 log_ops [] [[CList [CPrim (Zu32 3), CPrim (Zu32 4)]]]) [] 0 sample_app =
     Some (3, c', sample_app\<lparr>ap_args := (ap_args sample_app)(6 := [Prim (PU32 3), Prim (PU32 4)])\<rparr>) \<and>
     cx_head c' = [0x84] \<and> cx_enc c' = [Znil, Zu32 7]"
proof -
  let ?c = "bin_request rq_exec 0x64 log_ops [] [[CList [CPrim (Zu32 3), CPrim (Zu32 4)]]]"
  let ?w = "sample_app\<lparr>ap_args := (ap_args sample_app)(6 := [Prim (PU32 3), Prim (PU32 4)])\<rparr>"
  have res: "resolves sample_server ?c 6" by (simp add: resolves_def sample_find)
  have enc: "invoke_result (cx_eops ?c) (Some (Prim (PU32 7))) (snd (o_preamble (cx_eops ?c) (cx_enc ?c))) = (True, [Znil, Zu32 7])"
    by (simp add: invoke_result_def log_ops_calls del: enc_val.simps)
  have len: "o_length log_ops e = length e" for e by (simp add: log_ops_def binary_ops_def)
  have items: "cx_dec ?c = ((CList (map (item_of True) [Prim (PU32 3), Prim (PU32 4)]) # []) # [])"
    by simp
  have call: "cl_function sample_classes 6 [Prim (PU32 3), Prim (PU32 4)] ?w = (Some (Prim (PU32 7)), ?w)"
    by (simp add: sample_classes_def)
  have fit: "args_fit (cl_params sample_classes 6) (ap_args sample_app 6) [Prim (PU32 3), Prim (PU32 4)]"
    by (simp add: sample_classes_def sample_app_def prim_fits_def)
  show ?thesis
    using exec_calls_function [OF stack_reader_reads _ res _ _ sample_access(4) items fit call enc, of 0 "[]" 0]
    by (auto simp: setStatus_def getHeaderLength_def binary_status_def len)
qed

end
