(* ===== verification/Client.thy ===== *)
theory Client imports Nodes begin

text \<open>
  The client: src/ThingSetClient.cpp and include/thingset++/ThingSetClient.hpp, over the interface of
  include/thingset++/ThingSetClientTransport.hpp, a parameter with a state of its own. A call writes the request into
  the client's buffer, hands it to the transport, reads the response into the other buffer and decodes what
  follows the status and the null. A result None means that the decoder accesses memory outside an array.
\<close>

subsection \<open>Transport and client\<close>

record 's transport =
  tp_connect :: "'s \<Rightarrow> bool \<times> 's"
  tp_read :: "u8 list \<Rightarrow> nat \<Rightarrow> 's \<Rightarrow> int \<times> u8 list \<times> 's"   \<comment> \<open>the number of bytes read and the buffer after it\<close>
  tp_write :: "u8 list \<Rightarrow> 's \<Rightarrow> bool \<times> 's"

record 's client =
  cn_rx :: "u8 list"      \<comment> \<open>_rxBuffer\<close>
  cn_tx :: "u8 list"      \<comment> \<open>_txBuffer\<close>
  cn_tp :: 's             \<comment> \<open>the transport's state\<close>

definition cborNull :: u8 where "cborNull = 0xF6"
definition responseHeaderSize :: nat where "responseHeaderSize = 2"

definition client_connect :: "'s transport \<Rightarrow> 's client \<Rightarrow> bool \<times> 's client" where
  "client_connect T c = (let (r, s) = tp_connect T (cn_tp c) in (r, c\<lparr>cn_tp := s\<rparr>))"

text \<open>\<open>read\<close>: the status, and the part of the buffer that holds the result (None where the pointer is not set).\<close>

definition client_read :: "'s transport \<Rightarrow> 's client \<Rightarrow> (u8 \<times> u8 list option) \<times> 's client" where
  "client_read T c =
    (let (received, rx, s) = tp_read T (cn_rx c) (length (cn_rx c)) (cn_tp c); c1 = c\<lparr>cn_rx := rx, cn_tp := s\<rparr> in
     (if received \<le> 0 then (status_val st_gatewayTimeout, None)
      else if \<not> result_success (rx ! 0) then (rx ! 0, None)
      else if nat received < responseHeaderSize \<or> rx ! 1 \<noteq> cborNull then (status_val st_internalServerError, None)
      else (rx ! 0, Some (take (nat received - responseHeaderSize) (drop responseHeaderSize rx))), c1))"

subsection \<open>Requests\<close>

text \<open>\<open>doRequestCore\<close>: the id is a primitive of its type, an integer or a path.\<close>

definition doRequestCore :: "'z zcbor \<Rightarrow> 's transport \<Rightarrow> prim \<Rightarrow> request_type \<Rightarrow> 'z fixed_encoder action \<Rightarrow> 's client \<Rightarrow>
    (u8 \<times> u8 list option) \<times> 's client" where
  "doRequestCore Z T ident t encode c =
    (let tx = (cn_tx c)[0 := binary_request_val t];
         (r, e) = seq [enc_prim (fixed_ops Z) ident, encode] (fe_make Z tx 1 (length tx - 1) 1 opt_encodeKeysAsIds);
         c1 = c\<lparr>cn_tx := fe_buf e\<rparr>
     in if \<not> r then ((status_val st_requestIncomplete, None), c1)
        else let (ok, s) = tp_write T (take (1 + fe_length Z e) (fe_buf e)) (cn_tp c1); c2 = c1\<lparr>cn_tp := s\<rparr>
          in if \<not> ok then ((status_val st_requestIncomplete, None), c2) else client_read T c2)"

text \<open>\<open>doRequest\<close> without and with a result; \<open>mk n\<close> is the constructor of a decoder for n elements.\<close>

definition doRequest :: "'z zcbor \<Rightarrow> 's transport \<Rightarrow> prim \<Rightarrow> request_type \<Rightarrow> 'z fixed_encoder action \<Rightarrow> 's client \<Rightarrow> u8 \<times> 's client" where
  "doRequest Z T ident t encode c = (let ((code, response), c1) = doRequestCore Z T ident t encode c in (code, c1))"

definition doRequest_value :: "'z zcbor \<Rightarrow> 'd zreader \<Rightarrow> (nat \<Rightarrow> u8 list \<Rightarrow> 'd) \<Rightarrow> 's transport \<Rightarrow> prim \<Rightarrow> request_type \<Rightarrow>
    'z fixed_encoder action \<Rightarrow> ttype \<Rightarrow> tsval \<Rightarrow> 's client \<Rightarrow> (u8 \<times> tsval \<times> 's client) option" where
  "doRequest_value Z R mk T ident t encode ty old c =
    (let ((code, response), c1) = doRequestCore Z T ident t encode c in
     if result_success code
     then map_option (\<lambda>(r, d, v). (if r then code else status_val st_internalServerError, v, c1))
            (dec_val (fixed_decoder_ops R 0) ty old (mk 1 (the response)))
     else Some (code, old, c1))"

definition exec_encode :: "'z zcbor \<Rightarrow> tsval list \<Rightarrow> 'z fixed_encoder action" where
  "exec_encode Z args = encodeList (fixed_ops Z) (map (enc_val (fixed_ops Z)) args)"

definition client_exec_value where
  "client_exec_value Z R mk T i args ty old = doRequest_value Z R mk T (PU16 i) rq_exec (exec_encode Z args) ty old"

definition client_exec where
  "client_exec Z T i args = doRequest Z T (PU16 i) rq_exec (exec_encode Z args)"

definition client_get where
  "client_get Z R mk T i ty old = doRequest_value Z R mk T (PU16 i) rq_get (\<lambda>e. (True, e)) ty old"

definition client_get_path where
  "client_get_path Z R mk T p ty old = doRequest_value Z R mk T (PStr p) rq_get (\<lambda>e. (True, e)) ty old"

definition client_fetch where
  "client_fetch Z R mk T ident ty old = doRequest_value Z R mk T ident rq_fetch (o_null (fixed_ops Z)) ty old"

text \<open>An update is a map with one pair; by id it is addressed to the root, the integer 0.\<close>

definition update_encode :: "'z zcbor \<Rightarrow> prim \<Rightarrow> tsval \<Rightarrow> 'z fixed_encoder action" where
  "update_encode Z key v = seq [o_map_start (fixed_ops Z), enc_prim (fixed_ops Z) key, enc_val (fixed_ops Z) v, o_map_end (fixed_ops Z)]"

definition client_update where
  "client_update Z T i v = doRequest Z T (PI32 0) rq_update (update_encode Z (PU16 i) v)"

text \<open>By name: \<open>find_last_of('/')\<close> splits the path; without a slash the parent is the root.\<close>

definition last_slash :: "string \<Rightarrow> nat option" where
  "last_slash s = (if CHR ''/'' \<in> set s then Some (length s - Suc (length (takeWhile (\<lambda>c. c \<noteq> CHR ''/'') (rev s)))) else None)"

definition split_path :: "string \<Rightarrow> string \<times> string" where
  "split_path s = (case last_slash s of Some i \<Rightarrow> (take i s, drop (Suc i) s) | None \<Rightarrow> ([], s))"

definition client_update_path where
  "client_update_path Z T p v =
    (let (parent, key) = split_path p in doRequest Z T (PStr parent) rq_update (update_encode Z (PStr key) v))"

lemma split_path: "CHR ''/'' \<notin> set key \<Longrightarrow> split_path (parent @ CHR ''/'' # key) = (parent, key)"
  "CHR ''/'' \<notin> set key \<Longrightarrow> split_path key = ([], key)"
proof -
  assume k: "CHR ''/'' \<notin> set key"
  then have t: "takeWhile (\<lambda>c. c \<noteq> CHR ''/'') (rev (parent @ CHR ''/'' # key)) = rev key"
    by (auto simp: takeWhile_append2 takeWhile_tail)
  show "split_path (parent @ CHR ''/'' # key) = (parent, key)"
    using k unfolding split_path_def last_slash_def t by simp
  show "split_path key = ([], key)" using k by (simp add: split_path_def last_slash_def)
qed

subsection \<open>Stale responses\<close>

text \<open>A transport that writes into the buffer what it received, and tells how much, whatever was in the buffer.\<close>

definition overwrites :: "'s transport \<Rightarrow> bool" where
  "overwrites T \<longleftrightarrow> (\<forall>s k. \<exists>n msg s'. length msg = nat n \<and> length msg \<le> k \<and>
     (\<forall>rx. length rx = k \<longrightarrow> tp_read T rx k s = (n, msg @ drop (length msg) rx, s')))"

lemma read_ignores_stale:
  assumes "overwrites T" "length rx = length (cn_rx c)"
  shows "fst (client_read T (c\<lparr>cn_rx := rx\<rparr>)) = fst (client_read T c) \<and>
    cn_tp (snd (client_read T (c\<lparr>cn_rx := rx\<rparr>))) = cn_tp (snd (client_read T c)) \<and>
    cn_tx (snd (client_read T (c\<lparr>cn_rx := rx\<rparr>))) = cn_tx (snd (client_read T c))"
proof -
  obtain n msg s' where r: "length msg = nat n" "length msg \<le> length (cn_rx c)"
      "\<And>rx. length rx = length (cn_rx c) \<Longrightarrow> tp_read T rx (length (cn_rx c)) (cn_tp c) = (n, msg @ drop (length msg) rx, s')"
    using assms(1) unfolding overwrites_def by metis
  show ?thesis using r(1) assms(2)
    by (auto simp: client_read_def r(3) Let_def responseHeaderSize_def nth_append)
qed

lemma core_ignores_stale:
  assumes "overwrites T" "length rx = length (cn_rx c)"
  shows "fst (doRequestCore Z T ident t encode (c\<lparr>cn_rx := rx\<rparr>)) = fst (doRequestCore Z T ident t encode c) \<and>
    cn_tp (snd (doRequestCore Z T ident t encode (c\<lparr>cn_rx := rx\<rparr>))) = cn_tp (snd (doRequestCore Z T ident t encode c)) \<and>
    cn_tx (snd (doRequestCore Z T ident t encode (c\<lparr>cn_rx := rx\<rparr>))) = cn_tx (snd (doRequestCore Z T ident t encode c))"
proof -
  have comm: "c\<lparr>cn_rx := rx, cn_tx := tx, cn_tp := s\<rparr> = c\<lparr>cn_tx := tx, cn_tp := s, cn_rx := rx\<rparr>" for tx s by simp
  have "length rx = length (cn_rx (c\<lparr>cn_tx := tx, cn_tp := s\<rparr>))" for tx s using assms(2) by simp
  note r = read_ignores_stale [OF assms(1) this, folded comm]
  show ?thesis by (simp add: doRequestCore_def Let_def case_prod_beta r del: seq.simps)
qed

text \<open>
  C35. A response is never completed from an earlier one: with a transport that writes what it received and tells
  how much, the status and the decoded value of a request do not depend on what the receive buffer held
  before, for any bytes the peer sends, truncated ones included.
\<close>
theorem client_ignores_stale:
  assumes "overwrites T" and "length rx = length (cn_rx c)"
  shows "map_option (\<lambda>(code, v, c'). (code, v, cn_tp c')) (doRequest_value Z R mk T ident t encode ty old (c\<lparr>cn_rx := rx\<rparr>)) =
    map_option (\<lambda>(code, v, c'). (code, v, cn_tp c')) (doRequest_value Z R mk T ident t encode ty old c)"
proof -
  obtain code rsp c1 c2 where c: "doRequestCore Z T ident t encode c = ((code, rsp), c1)"
      "doRequestCore Z T ident t encode (c\<lparr>cn_rx := rx\<rparr>) = ((code, rsp), c2)" "cn_tp c2 = cn_tp c1"
    using core_ignores_stale [OF assms, of Z ident t encode]
    by (cases "doRequestCore Z T ident t encode c"; cases "doRequestCore Z T ident t encode (c\<lparr>cn_rx := rx\<rparr>)") auto
  then show ?thesis
    by (cases "dec_val (fixed_decoder_ops R 0) ty old (mk 1 (the rsp))") (simp_all add: doRequest_value_def case_prod_beta)
qed

text \<open>A peer that answers a single byte, while the buffer still holds the response before.\<close>

definition short_transport :: "unit transport" where
  "short_transport = \<lparr>tp_connect = Pair True,
     tp_read = \<lambda>rx k s. if k = 0 then (0, rx, s) else (1, 0x85 # drop 1 rx, s),
     tp_write = \<lambda>req. Pair True\<rparr>"

lemma short_overwrites: "overwrites short_transport"
  unfolding overwrites_def
proof (intro allI)
  fix s k
  show "\<exists>n msg s'. length msg = nat n \<and> length msg \<le> k \<and>
     (\<forall>rx. length rx = k \<longrightarrow> tp_read short_transport rx k s = (n, msg @ drop (length msg) rx, s'))"
  proof (cases "k = 0")
    case True
    then show ?thesis by (intro exI [of _ 0] exI [of _ "[]"] exI [of _ s]) (simp add: short_transport_def)
  next
    case False
    then show ?thesis by (intro exI [of _ 1] exI [of _ "[0x85]"] exI [of _ s]) (simp add: short_transport_def)
  qed
qed

theorem client_ignores_stale_witness:
  "\<forall>(Z :: 'z zcbor) mk. map_option (\<lambda>(code, v, c'). (code, v, cn_tp c'))
     (doRequest_value Z stack_reader mk short_transport (PU16 5) rq_get (\<lambda>e. (True, e)) (TPrim KU32) (Prim (PU32 0))
       \<lparr>cn_rx = [0x85, 0xF6, 7], cn_tx = [0, 0, 0], cn_tp = ()\<rparr>) =
   map_option (\<lambda>(code, v, c'). (code, v, cn_tp c'))
     (doRequest_value Z stack_reader mk short_transport (PU16 5) rq_get (\<lambda>e. (True, e)) (TPrim KU32) (Prim (PU32 0))
       \<lparr>cn_rx = [0, 0, 0], cn_tx = [0, 0, 0], cn_tp = ()\<rparr>)"
proof (intro allI)
  fix Z :: "'z zcbor" and mk :: "nat \<Rightarrow> u8 list \<Rightarrow> citem list list"
  let ?c = "\<lparr>cn_rx = [0, 0, 0], cn_tx = [0, 0, 0], cn_tp = ()\<rparr>"
  show "map_option (\<lambda>(code, v, c'). (code, v, cn_tp c'))
     (doRequest_value Z stack_reader mk short_transport (PU16 5) rq_get (\<lambda>e. (True, e)) (TPrim KU32) (Prim (PU32 0))
       \<lparr>cn_rx = [0x85, 0xF6, 7], cn_tx = [0, 0, 0], cn_tp = ()\<rparr>) =
   map_option (\<lambda>(code, v, c'). (code, v, cn_tp c'))
     (doRequest_value Z stack_reader mk short_transport (PU16 5) rq_get (\<lambda>e. (True, e)) (TPrim KU32) (Prim (PU32 0)) ?c)"
    using client_ignores_stale [OF short_overwrites, of "[0x85, 0xF6, 7]" ?c Z stack_reader mk "PU16 5" rq_get
      "\<lambda>e. (True, e)" "TPrim KU32" "Prim (PU32 0)"] by simp
qed

end
