(* ===== verification/ClientServer.thy ===== *)
theory ClientServer imports Client begin

text \<open>
  The client of Client.thy and the server of Server.thy and Nodes.thy, connected. \<open>serve\<close> is what a transport does with
  a request: the context over its bytes, the callback, and the response in front of which the status stands;
  \<open>loopback\<close> is a transport that carries the request there and the response back. \<open>zcbor_codec\<close> states the
  documented behaviour of the CBOR library that the results rest on: what the encoding functions write for a sequence of
  items is its encoding, and the decoder over an encoding is before its items.
\<close>

subsection \<open>What sequences of calls write\<close>

fun item_call :: "zcall \<Rightarrow> bool" where
  "item_call (Zlist_start n) = False"
| "item_call (Zlist_end n) = False"
| "item_call (Zmap_start n) = False"
| "item_call (Zmap_end n) = False"
| "item_call Zbackup_end = False"
| "item_call c = True"

text \<open>The number given at the start of a list or map may exceed that of its elements.\<close>

inductive writes :: "zcall list \<Rightarrow> citem list \<Rightarrow> bool" where
  writes_Nil: "writes [] []"
| writes_prim: "item_call c \<Longrightarrow> writes cs xs \<Longrightarrow> writes (c # cs) (CPrim c # xs)"
| writes_list: "writes cs ys \<Longrightarrow> length ys \<le> n \<Longrightarrow> writes ds xs \<Longrightarrow> writes (Zlist_start n # cs @ Zlist_end n # ds) (CList ys # xs)"
| writes_map: "writes cs (flat_pairs kvs) \<Longrightarrow> length kvs \<le> n \<Longrightarrow> writes ds xs \<Longrightarrow>
    writes (Zmap_start n # cs @ Zmap_end n # ds) (CMap kvs # xs)"

lemma prim_item_call [simp]: "item_call (prim_call p)"
  by (cases p) simp_all

lemma writes_append: "writes cs xs \<Longrightarrow> writes ds ys \<Longrightarrow> writes (cs @ ds) (xs @ ys)"
proof (induction rule: writes.induct)
  case (writes_list cs zs n es xs)
  then have "writes (Zlist_start n # cs @ Zlist_end n # (es @ ds)) (CList zs # (xs @ ys))" by (intro writes.writes_list) auto
  then show ?case by simp
next
  case (writes_map cs kvs n es xs)
  then have "writes (Zmap_start n # cs @ Zmap_end n # (es @ ds)) (CMap kvs # (xs @ ys))" by (intro writes.writes_map) auto
  then show ?case by simp
qed (auto intro: writes.intros)

lemma writes_concat: "(\<And>x. x \<in> set xs \<Longrightarrow> writes (f x) (g x)) \<Longrightarrow> writes (concat (map f xs)) (concat (map g xs))"
  by (induction xs) (auto intro: writes_append writes_Nil)

lemma writes_value: "writes (calls_of False ids v) [item_of ids v]"
proof (induction v)
  case (Prim p)
  then show ?case by (auto intro: writes.intros)
next
  case (VArr xs)
  have "writes (concat (map (calls_of False ids) xs)) (concat (map (\<lambda>x. [item_of ids x]) xs))"
    by (rule writes_concat) (use VArr in auto)
  from writes_list [OF this _ writes_Nil, of "length xs"] show ?case by (simp add: list_calls_def concat_map_singleton)
next
  case (VList xs)
  have "writes (concat (map (calls_of False ids) xs)) (concat (map (\<lambda>x. [item_of ids x]) xs))"
    by (rule writes_concat) (use VList in auto)
  from writes_list [OF this _ writes_Nil, of "length xs"] show ?case by (simp add: list_calls_def concat_map_singleton)
next
  case (VMap kvs)
  have "writes (concat (map (\<lambda>x. calls_of False ids (fst x) @ calls_of False ids (snd x)) kvs))
      (concat (map (\<lambda>x. [item_of ids (fst x)] @ [item_of ids (snd x)]) kvs))"
    by (rule writes_concat, rule writes_append) (use VMap in \<open>auto simp: fsts.simps snds.simps\<close>)
  then have "writes (concat (map (\<lambda>x. calls_of False ids (fst x) @ calls_of False ids (snd x)) kvs))
      (flat_pairs (map (\<lambda>x. (item_of ids (fst x), item_of ids (snd x))) kvs))"
    by (simp add: flat_pairs_def comp_def)
  from writes_map [OF this _ writes_Nil, of "length kvs"] show ?case by (simp add: map_calls_def case_prod_beta')
next
  case (VRec fs)
  have "writes (concat (map (\<lambda>f. key_call ids (fst f) (fst (snd f)) # calls_of False ids (snd (snd f))) fs))
      (concat (map (\<lambda>f. [CPrim (key_call ids (fst f) (fst (snd f))), item_of ids (snd (snd f))]) fs))"
  proof (rule writes_concat)
    fix f assume "f \<in> set fs"
    then have "writes (calls_of False ids (snd (snd f))) [item_of ids (snd (snd f))]" by (rule VRec) (auto simp: snds.simps)
    then show "writes (key_call ids (fst f) (fst (snd f)) # calls_of False ids (snd (snd f)))
        [CPrim (key_call ids (fst f) (fst (snd f))), item_of ids (snd (snd f))]"
      by (intro writes_prim) (simp_all add: key_call_def)
  qed
  then have "writes (concat (map (\<lambda>f. key_call ids (fst f) (fst (snd f)) # calls_of False ids (snd (snd f))) fs))
      (flat_pairs (map (\<lambda>f. (CPrim (key_call ids (fst f) (fst (snd f))), item_of ids (snd (snd f)))) fs))"
    by (simp add: flat_pairs_def comp_def)
  from writes_map [OF this _ writes_Nil, of "length fs"] show ?case by (simp add: map_calls_def case_prod_beta')
qed

subsection \<open>What zcbor documents\<close>

text \<open>
  The string function fails on an integer and leaves it; a nonnegative signed integer reads as an unsigned one.
  \<open>B\<close> is the encoding of a sequence of items. A decoder may be created for more elements than the bytes hold;
  of reading one of those, here Zbackup_end, nothing is documented.
\<close>

definition int_reads :: "'d zreader \<Rightarrow> ('d \<Rightarrow> citem list list \<Rightarrow> bool) \<Rightarrow> bool" where
  "int_reads R at \<longleftrightarrow>
     (\<forall>v xs st. moves at (zr_tstr R) ((CPrim (Zu32 v) # xs) # st) None ((CPrim (Zu32 v) # xs) # st)) \<and>
     (\<forall>v xs st. moves at (zr_tstr R) ((CPrim (Zi32 v) # xs) # st) None ((CPrim (Zi32 v) # xs) # st)) \<and>
     (\<forall>v xs st. 0 \<le> sint v \<longrightarrow> moves at (zr_u32 R) ((CPrim (Zi32 v) # xs) # st) (Some v) (xs # st))"

definition decodable :: "('d \<Rightarrow> citem list list \<Rightarrow> bool) \<Rightarrow> (nat \<Rightarrow> u8 list \<Rightarrow> 'd) \<Rightarrow> (citem list \<Rightarrow> u8 list) \<Rightarrow> citem list \<Rightarrow> bool" where
  "decodable at mk B xs \<longleftrightarrow> (\<forall>n. length xs \<le> n \<longrightarrow> at (mk n (B xs)) [xs @ replicate (n - length xs) (CPrim Zbackup_end)])"

definition zcbor_codec :: "'z zcbor \<Rightarrow> 'd zreader \<Rightarrow> ('d \<Rightarrow> citem list list \<Rightarrow> bool) \<Rightarrow> (nat \<Rightarrow> u8 list \<Rightarrow> 'd) \<Rightarrow>
    (citem list \<Rightarrow> u8 list) \<Rightarrow> bool" where
  "zcbor_codec Z R at mk B \<longleftrightarrow> zcbor_reads R at \<and> int_reads R at \<and>
     B [] = [] \<and> (\<forall>xs. B (CPrim Znil # xs) = cborNull # B xs) \<and>
     (\<forall>buf k opts cs xs e. buf \<noteq> [] \<longrightarrow> writes cs xs \<longrightarrow> runs (fe_call Z) cs (fe_make Z buf 1 (length buf - 1) k opts) = (True, e) \<longrightarrow>
        fe_length Z e = length (B xs) \<and> length (fe_buf e) = length buf \<and> take (1 + length (B xs)) (fe_buf e) = hd buf # B xs \<and>
        (\<forall>ys zs. xs = ys @ zs \<longrightarrow> decodable at mk B zs))"

lemma zcbor_codecD:
  assumes "zcbor_codec Z R at mk B"
  shows "zcbor_reads R at" "int_reads R at" "B (CPrim Znil # xs) = cborNull # B xs" "B [] = []"
  using assms unfolding zcbor_codec_def by blast+

lemma codec_writes:
  assumes "zcbor_codec Z R at mk B" "writes cs xs" "buf \<noteq> []"
    and "runs (fe_call Z) cs (fe_make Z buf 1 (length buf - 1) k opts) = (True, e)"
  shows "fe_length Z e = length (B xs)" "length (fe_buf e) = length buf" "take (1 + length (B xs)) (fe_buf e) = hd buf # B xs"
    "xs = ys @ zs \<Longrightarrow> decodable at mk B zs"
  using assms unfolding zcbor_codec_def by blast+

lemma runs_keep_opts: "runs (fe_call Z) cs e = (True, e') \<Longrightarrow> fe_keysAsIds e' = fe_keysAsIds e"
proof (induction cs arbitrary: e)
  case (Cons c cs)
  then obtain e1 where "fe_call Z c e = (True, e1)" "runs (fe_call Z) cs e1 = (True, e')" by (auto elim: runs_ConsE)
  then show ?case using Cons.IH fe_call_opts [of Z c e] by simp
qed simp

subsection \<open>Connecting the two\<close>

definition serve :: "('z fixed_encoder, 'd, 'w) server \<Rightarrow> 'z zcbor \<Rightarrow> 'd zreader \<Rightarrow> (nat \<Rightarrow> u8 list \<Rightarrow> 'd) \<Rightarrow>
    (u8 list \<Rightarrow> nat \<Rightarrow> ('z fixed_encoder, 'd) rctx option) \<Rightarrow> u8 list \<Rightarrow> u8 list \<Rightarrow> 'w \<Rightarrow> (u8 list \<times> 'w) option" where
  "serve S Z R mk mkt rsp req w =
    map_option (\<lambda>(len, head, c, w'). (take len (head @ (case c of Some c1 \<Rightarrow> drop 1 (fe_buf (cx_enc c1)) | None \<Rightarrow> [])), w'))
      (requestCallback (handleRequest S)
        (binary_context (fixed_ops Z) (fixed_decoder_ops R 0) (mk 2) (fe_make Z rsp 1 (length rsp - 1) 1 opt_encodeKeysAsIds))
        mkt req (length req) w)"

definition loopback :: "(u8 list \<Rightarrow> 'w \<Rightarrow> (u8 list \<times> 'w) option) \<Rightarrow> ('w \<times> u8 list) transport" where
  "loopback f = \<lparr>tp_connect = Pair True,
     tp_read = \<lambda>rx k (w, q). (int (length (take k q)), take k q @ drop (length (take k q)) rx, (w, [])),
     tp_write = \<lambda>req (w, q). (case f req w of Some (r, w') \<Rightarrow> (True, (w', r)) | None \<Rightarrow> (False, (w, q)))\<rparr>"

lemma loopback_overwrites: "overwrites (loopback (f :: u8 list \<Rightarrow> 'w \<Rightarrow> (u8 list \<times> 'w) option))"
  unfolding overwrites_def
proof (intro allI)
  fix s :: "'w \<times> u8 list" and k
  show "\<exists>n msg s'. length msg = nat n \<and> length msg \<le> k \<and>
     (\<forall>rx. length rx = k \<longrightarrow> tp_read (loopback f) rx k s = (n, msg @ drop (length msg) rx, s'))"
    by (intro exI [of _ "int (length (take k (snd s)))"] exI [of _ "take k (snd s)"] exI [of _ "(fst s, [])"])
      (simp add: loopback_def case_prod_beta)
qed

text \<open>The exchange, for any server: a request whose calls fit the buffer reaches it, and its response the client.\<close>

lemma exchange:
  assumes Z: "zcbor_codec Z R at mk B" and w: "writes cs xs" and tx: "cn_tx c \<noteq> []"
    and run: "runs (fe_call Z) cs (fe_make Z ((cn_tx c)[0 := binary_request_val t]) 1 (length (cn_tx c) - 1) 1 opt_encodeKeysAsIds) = (True, e)"
    and enc: "seq [enc_prim (fixed_ops Z) ident, encode]
      (fe_make Z ((cn_tx c)[0 := binary_request_val t]) 1 (length (cn_tx c) - 1) 1 opt_encodeKeysAsIds) = (True, e)"
    and srv: "f (binary_request_val t # B xs) (fst (cn_tp c)) = Some (s # cborNull # payload, w')"
    and ok: "result_success s" and rx: "length payload + 2 \<le> length (cn_rx c)"
  shows "\<exists>c'. doRequestCore Z (loopback f) ident t encode c = ((s, Some payload), c') \<and> cn_tp c' = (w', []) \<and>
    length (cn_tx c') = length (cn_tx c) \<and> length (cn_rx c') = length (cn_rx c)"
proof -
  have ne: "(cn_tx c)[0 := binary_request_val t] \<noteq> []" using tx by simp
  have hd: "hd ((cn_tx c)[0 := binary_request_val t]) = binary_request_val t" using tx by (cases "cn_tx c") simp_all
  have "take (1 + fe_length Z e) (fe_buf e) = binary_request_val t # B xs"
    "length (fe_buf e) = length (cn_tx c)"
    using codec_writes [OF Z w ne, of 1 opt_encodeKeysAsIds e] run by (simp_all add: hd)
  moreover have "tp_write (loopback f) (binary_request_val t # B xs) (cn_tp c) = (True, (w', s # cborNull # payload))"
    using srv by (cases "cn_tp c") (simp add: loopback_def)
  moreover have "fst (client_read (loopback f) (c\<lparr>cn_tx := fe_buf e, cn_tp := (w', s # cborNull # payload)\<rparr>)) = (s, Some payload)"
    "cn_tp (snd (client_read (loopback f) (c\<lparr>cn_tx := fe_buf e, cn_tp := (w', s # cborNull # payload)\<rparr>))) = (w', [])"
    "cn_tx (snd (client_read (loopback f) (c\<lparr>cn_tx := fe_buf e, cn_tp := (w', s # cborNull # payload)\<rparr>))) = fe_buf e"
    "length (cn_rx (snd (client_read (loopback f) (c\<lparr>cn_tx := fe_buf e, cn_tp := (w', s # cborNull # payload)\<rparr>)))) = length (cn_rx c)"
    using ok rx by (simp_all add: client_read_def loopback_def responseHeaderSize_def nat_diff_distrib)
  ultimately show ?thesis using enc
    by (cases "client_read (loopback f) (c\<lparr>cn_tx := fe_buf e, cn_tp := (w', s # cborNull # payload)\<rparr>)")
      (simp add: doRequestCore_def Let_def del: seq.simps)
qed

subsection \<open>The server's side\<close>

text \<open>An integer id on the wire, unsigned or as the signed zero that addresses the root.\<close>

definition id_call :: "zcall \<Rightarrow> u16 \<Rightarrow> bool" where
  "id_call c i \<longleftrightarrow> c = Zu32 (ucast i) \<or> c = Zi32 (ucast i)"

lemma id_positive: "0 \<le> sint (ucast (i :: u16) :: u32)"
proof -
  have "\<not> bit (ucast i :: u32) 31" by (auto simp: bit_simps dest: bit_imp_le_length)
  then show ?thesis by (simp add: sint_uint signed_take_bit_eq_if_positive bit_uint_iff)
qed

lemma id_read:
  assumes "zcbor_reads R at" "int_reads R at" "id_call c i" "at d ((CPrim c # xs) # st)"
  shows "\<exists>d1 d2. zr_tstr R d = (None, d1) \<and> zr_u32 R d1 = (Some (ucast i), d2) \<and> at d2 (xs # st)"
proof -
  have t: "moves at (zr_tstr R) ((CPrim c # xs) # st) None ((CPrim c # xs) # st)"
    and u: "moves at (zr_u32 R) ((CPrim c # xs) # st) (Some (ucast i)) (xs # st)"
    using assms(2,3) zcbor_readsD(1) [OF assms(1)] id_positive [of i] by (auto simp: int_reads_def id_call_def)
  show ?thesis using movesD [OF t assms(4)] movesD [OF u] by blast
qed

definition server_context :: "'z zcbor \<Rightarrow> 'd zreader \<Rightarrow> (nat \<Rightarrow> u8 list \<Rightarrow> 'd) \<Rightarrow> u8 list \<Rightarrow> u8 list \<Rightarrow> ('z fixed_encoder, 'd) rctx" where
  "server_context Z R mk rsp req = binary_context (fixed_ops Z) (fixed_decoder_ops R 0) (mk 2)
     (fe_make Z rsp 1 (length rsp - 1) 1 opt_encodeKeysAsIds) req (length req)"

lemma server_context:
  assumes Z: "zcbor_codec Z R at mk B" and dec: "decodable at mk B (CPrim c # xs)"
    and i: "id_call c i" "i \<noteq> 0xFFFF" and xs: "length xs \<le> 1" and ctx: "ctx = server_context Z R mk rsp (binary_request_val t # B (CPrim c # xs))"
  shows "cx_id ctx = Some i" "cx_path ctx = None" "cx_proto ctx = Binary" "cx_eops ctx = fixed_ops Z"
    "cx_dops ctx = fixed_decoder_ops R 0" "cx_enc ctx = fe_make Z rsp 1 (length rsp - 1) 1 opt_encodeKeysAsIds"
    "is_type t' ctx = (t' = t)" "at (cx_dec ctx) [xs @ replicate (1 - length xs) (CPrim Zbackup_end)]"
proof -
  have "at (mk 2 (B (CPrim c # xs))) ((CPrim c # xs @ replicate (1 - length xs) (CPrim Zbackup_end)) # [])"
    using dec [unfolded decodable_def, rule_format, of 2] xs by simp
  from id_read [OF zcbor_codecD(1,2) [OF Z] i(1) this] obtain d1 d2 where d:
    "zr_tstr R (mk 2 (B (CPrim c # xs))) = (None, d1)" "zr_u32 R d1 = (Some (ucast i), d2)"
    "at d2 [xs @ replicate (1 - length xs) (CPrim Zbackup_end)]" by blast
  have "(ucast i :: u32) < 0xFFFF" using i(2) u16_below [of i] by blast
  then have "ctx = \<lparr>cx_proto = Binary, cx_type = binary_request_val t, cx_id = Some i, cx_path = None, cx_node = 0, cx_index = None,
      cx_eops = fixed_ops Z, cx_dops = fixed_decoder_ops R 0, cx_enc = fe_make Z rsp 1 (length rsp - 1) 1 opt_encodeKeysAsIds,
      cx_dec = d2, cx_head = []\<rparr>"
    using d by (simp add: ctx server_context_def binary_context_def bdec_defs narrow_back)
  then show "cx_id ctx = Some i" "cx_path ctx = None" "cx_proto ctx = Binary" "cx_eops ctx = fixed_ops Z"
    "cx_dops ctx = fixed_decoder_ops R 0" "cx_enc ctx = fe_make Z rsp 1 (length rsp - 1) 1 opt_encodeKeysAsIds"
    "is_type t' ctx = (t' = t)" "at (cx_dec ctx) [xs @ replicate (1 - length xs) (CPrim Zbackup_end)]"
    using d(3) by (auto simp: is_type_def)
qed

lemma serve_binary:
  assumes "binary_request_val rq_get \<le> binary_request_val t" "binary_request_val t \<le> binary_request_val rq_update"
    and "handleRequest S (server_context Z R mk rsp (binary_request_val t # bs)) (binary_request_val t # bs) (Suc (length bs)) w =
      Some (len, c, w')"
  shows "serve S Z R mk mkt rsp (binary_request_val t # bs) w = Some (take len (cx_head c @ drop 1 (fe_buf (cx_enc c))), w')"
  using assms by (simp add: serve_def requestCallback_def server_context_def)

text \<open>A response: the status, the null of the preamble, and what was encoded behind it.\<close>

lemma response_bytes:
  assumes Z: "zcbor_codec Z R at mk B" and w: "writes cs xs" and rsp: "rsp \<noteq> []"
    and run: "runs (fe_call Z) (Znil # cs) (fe_make Z rsp 1 (length rsp - 1) 1 opt_encodeKeysAsIds) = (True, e)"
  shows "take (fe_length Z e + 1) ([s] @ drop 1 (fe_buf e)) = s # cborNull # B xs"
proof -
  have w': "writes (Znil # cs) (CPrim Znil # xs)" by (rule writes_prim) (simp_all add: w)
  have "take (1 + length (B (CPrim Znil # xs))) (fe_buf e) = hd rsp # B (CPrim Znil # xs)"
    "fe_length Z e = length (B (CPrim Znil # xs))"
    using codec_writes [OF Z w' rsp run] by blast+
  then have "take (length (B (CPrim Znil # xs))) (drop 1 (fe_buf e)) = B (CPrim Znil # xs)"
    by (metis drop_take diff_add_inverse drop_Suc_Cons drop_0 One_nat_def)
  then show ?thesis using \<open>fe_length Z e = _\<close> by (simp add: zcbor_codecD(3) [OF Z])
qed

lemma serve_get:
  fixes i :: u16
  assumes Z: "zcbor_codec Z R at mk B" and i: "i \<noteq> 0xFFFF" and dec: "decodable at mk B [CPrim (Zu32 (ucast i))]"
    and rsp: "rsp \<noteq> []"
    and m: "findById N r (ucast i) = Some (Some m)" "nd_kind (N m) = nk_property"
    and run: "runs (fe_call Z) (Znil # calls_of False True (ap_vals w m)) (fe_make Z rsp 1 (length rsp - 1) 1 opt_encodeKeysAsIds) = (True, e)"
  shows "serve (library_server a N r C) Z R mk mkt rsp (binary_request_val rq_get # B [CPrim (Zu32 (ucast i))]) w =
    Some (status_val st_content # cborNull # B [item_of True (ap_vals w m)], w)"
proof -
  let ?req = "binary_request_val rq_get # B [CPrim (Zu32 (ucast i))]"
  define ctx where "ctx = server_context Z R mk rsp ?req"
  have "id_call (Zu32 (ucast i)) i" by (simp add: id_call_def)
  note c = server_context [where xs = "[]", OF Z dec this i _ ctx_def, simplified]
  obtain e0 where e0: "fe_call Z Znil (cx_enc ctx) = (True, e0)" "runs (fe_call Z) (calls_of False True (ap_vals w m)) e0 = (True, e)"
    using run by (auto simp: c elim: runs_ConsE)
  have "fe_keysAsIds e0" using fe_call_opts [of Z Znil "cx_enc ctx"] e0(1)
    by (simp add: c fe_keysAsIds_def fe_make_def opt_encodeKeysAsIds_def)
  then have v: "enc_val (cx_eops ctx) (ap_vals w m) (snd (o_preamble (cx_eops ctx) (cx_enc ctx))) = (True, e)"
    using fixed_encodes [OF _ e0(2)] e0(1) by (simp add: c fixed_ops_calls)
  have res: "resolves (library_server a N r C) ctx m" using m(1) by (simp add: resolves_def isToBeForwarded_def isForward_def c)
  obtain len c' where h: "handleRequest (library_server a N r C) ctx ?req (Suc (length (B [CPrim (Zu32 (ucast i))]))) w = Some (len, c', w)"
      "cx_enc c' = e" "len = o_length (cx_eops ctx) e + getHeaderLength ctx" "cx_head c' = cx_head (setStatus st_content ctx)"
    using get_answer [OF res _ m(2) v, of ?req "Suc (length (B [CPrim (Zu32 (ucast i))]))"] by (auto simp: isGet_def c)
  have "cx_head c' = [status_val st_content]" "len = fe_length Z e + 1"
    using h(3,4) by (simp_all add: setStatus_def binary_status_def getHeaderLength_def fixed_ops_calls c)
  then show ?thesis
    using serve_binary [OF _ _ h(1) [unfolded ctx_def]] response_bytes [OF Z writes_value rsp run] h(2) by simp
qed

lemma serve_update:
  fixes i :: u16
  assumes Z: "zcbor_codec Z R at mk B" and dec: "decodable at mk B [CPrim (Zi32 0), CMap [(CPrim (Zu32 (ucast (nd_id (N m)))), item_of True v)]]"
    and rsp: "rsp \<noteq> []"
    and root: "findById N r 0 = Some (Some p)" "is_parent (N p)" "\<not> is_record_kind (nd_kind (N p))"
    and cb: "\<And>n reason w. node_callback N C p n reason w = (True, w)"
    and acc: "accepts a N r C True p w (m, v)"
    and run: "runs (fe_call Z) [Znil, Znil] (fe_make Z rsp 1 (length rsp - 1) 1 opt_encodeKeysAsIds) = (True, e)"
  shows "serve (library_server a N r C) Z R mk mkt rsp
      (binary_request_val rq_update # B [CPrim (Zi32 0), CMap [(CPrim (Zu32 (ucast (nd_id (N m)))), item_of True v)]]) w =
    Some (status_val st_changed # cborNull # B [CPrim Znil], set_val m v w)"
proof -
  let ?map = "CMap [(CPrim (Zu32 (ucast (nd_id (N m)))), item_of True v)]"
  let ?req = "binary_request_val rq_update # B [CPrim (Zi32 0), ?map]"
  define ctx where "ctx = server_context Z R mk rsp ?req"
  have "id_call (Zi32 0) 0" by (simp add: id_call_def)
  note c = server_context [where xs = "[?map]", OF Z dec this _ _ ctx_def, simplified]
  have res: "resolves (library_server a N r C) ctx p" using root(1) by (simp add: resolves_def isToBeForwarded_def isForward_def c)
  have items: "flat_pairs [(CPrim (Zu32 (ucast (nd_id (N m)))), item_of True v)] = update_items N True [(m, v)]"
    by (simp add: flat_pairs_def update_items_def key_item_def key_call_def)
  have e: "snd (o_preamble (cx_eops ctx) (snd (o_preamble (cx_eops ctx) (cx_enc ctx)))) = e"
    using run by (auto simp: c fixed_ops_calls elim!: runs_ConsE)
  obtain len c' where h: "handleRequest (library_server a N r C) ctx ?req (Suc (length (B [CPrim (Zi32 0), ?map]))) w =
        Some (len, c', store [(m, v)] w)" "cx_enc c' = e" "len = o_length (cx_eops ctx) e + getHeaderLength ctx"
      "cx_head c' = cx_head (setStatus st_changed ctx)"
    using update_answer [OF zcbor_codecD(1) [OF Z] c(5) _ res root(2,3) cb _ items, of "[]" "[]" w ?req "Suc (length (B [CPrim (Zi32 0), ?map]))"]
      acc e by (auto simp: isUpdate_def c)
  have "cx_head c' = [status_val st_changed]" "len = fe_length Z e + 1"
    using h(3,4) by (simp_all add: setStatus_def binary_status_def getHeaderLength_def fixed_ops_calls c)
  moreover have "writes [Znil] [CPrim Znil]" by (rule writes_prim) (simp_all add: writes_Nil)
  ultimately show ?thesis
    using serve_binary [OF _ _ h(1) [unfolded ctx_def]] response_bytes [OF Z _ rsp run] h(2) by (simp add: store_def)
qed

definition result_calls :: "tsval option \<Rightarrow> zcall list" where
  "result_calls res = (case res of Some v \<Rightarrow> calls_of False True v | None \<Rightarrow> [Znil])"

definition result_item :: "tsval option \<Rightarrow> citem" where
  "result_item res = (case res of Some v \<Rightarrow> item_of True v | None \<Rightarrow> CPrim Znil)"

lemma writes_result: "writes (result_calls res) [result_item res]"
  by (cases res) (auto simp: result_calls_def result_item_def writes_value intro: writes.intros)

lemma serve_exec:
  fixes i :: u16
  assumes Z: "zcbor_codec Z R at mk B" and i: "i \<noteq> 0xFFFF" and dec: "decodable at mk B [CPrim (Zu32 (ucast i)), CList (map (item_of True) args)]"
    and rsp: "rsp \<noteq> []"
    and m: "findById N r (ucast i) = Some (Some m)" "nd_kind (N m) = nk_function" "access_and (nd_access (N m)) a \<noteq> access_none"
    and fit: "args_fit (cl_params C m) (ap_args w m) args"
    and call: "cl_function C m args (w\<lparr>ap_args := (ap_args w)(m := args)\<rparr>) = (res, w2)"
    and run: "runs (fe_call Z) (Znil # result_calls res) (fe_make Z rsp 1 (length rsp - 1) 1 opt_encodeKeysAsIds) = (True, e)"
  shows "serve (library_server a N r C) Z R mk mkt rsp
      (binary_request_val rq_exec # B [CPrim (Zu32 (ucast i)), CList (map (item_of True) args)]) w =
    Some (status_val st_changed # cborNull # B [result_item res], w2)"
proof -
  let ?req = "binary_request_val rq_exec # B [CPrim (Zu32 (ucast i)), CList (map (item_of True) args)]"
  define ctx where "ctx = server_context Z R mk rsp ?req"
  have "id_call (Zu32 (ucast i)) i" by (simp add: id_call_def)
  note c = server_context [where xs = "[CList (map (item_of True) args)]", OF Z dec this i _ ctx_def, simplified]
  obtain e0 where e0: "fe_call Z Znil (cx_enc ctx) = (True, e0)" "runs (fe_call Z) (result_calls res) e0 = (True, e)"
    using run by (auto simp: c elim: runs_ConsE)
  have "fe_keysAsIds e0" using fe_call_opts [of Z Znil "cx_enc ctx"] e0(1)
    by (simp add: c fe_keysAsIds_def fe_make_def opt_encodeKeysAsIds_def)
  then have v: "invoke_result (cx_eops ctx) res (snd (o_preamble (cx_eops ctx) (cx_enc ctx))) = (True, e)"
    using e0 fixed_encodes [of e0 Z] by (cases res) (simp_all add: invoke_result_def result_calls_def c fixed_ops_calls)
  have res: "resolves (library_server a N r C) ctx m" using m(1) by (simp add: resolves_def isToBeForwarded_def isForward_def c)
  obtain len c' where h: "handleRequest (library_server a N r C) ctx ?req
        (Suc (length (B [CPrim (Zu32 (ucast i)), CList (map (item_of True) args)]))) w = Some (len, c', w2)"
      "cx_enc c' = e" "len = o_length (cx_eops ctx) e + getHeaderLength ctx" "cx_head c' = cx_head (setStatus st_changed ctx)"
    using exec_answer [OF zcbor_codecD(1) [OF Z] c(5) res _ m(2,3) _ fit call v, of True "[]" "[]" ?req
        "Suc (length (B [CPrim (Zu32 (ucast i)), CList (map (item_of True) args)]))"]
    by (auto simp: isExec_def c)
  have "cx_head c' = [status_val st_changed]" "len = fe_length Z e + 1"
    using h(3,4) by (simp_all add: setStatus_def binary_status_def getHeaderLength_def fixed_ops_calls c)
  then show ?thesis
    using serve_binary [OF _ _ h(1) [unfolded ctx_def]] response_bytes [OF Z writes_result rsp run] h(2) by simp
qed

subsection \<open>The client's side\<close>

text \<open>A buffer of n bytes is large enough for the calls, behind its first byte.\<close>

definition room :: "'z zcbor \<Rightarrow> nat \<Rightarrow> zcall list \<Rightarrow> bool" where
  "room Z n cs \<longleftrightarrow> 0 < n \<and> (\<forall>buf. length buf = n \<longrightarrow> fst (runs (fe_call Z) cs (fe_make Z buf 1 (n - 1) 1 opt_encodeKeysAsIds)))"

lemma roomE:
  assumes "room Z n cs" "length buf = n"
  obtains e where "runs (fe_call Z) cs (fe_make Z buf 1 (length buf - 1) 1 opt_encodeKeysAsIds) = (True, e)" "buf \<noteq> []"
  using assms unfolding room_def by (cases "runs (fe_call Z) cs (fe_make Z buf 1 (length buf - 1) 1 opt_encodeKeysAsIds)") fastforce

lemma make_keys: "fe_keysAsIds (fe_make Z buf p n k opt_encodeKeysAsIds)"
  by (simp add: fe_keysAsIds_def fe_make_def opt_encodeKeysAsIds_def)

lemma seq_pair: "f e = (True, e1) \<Longrightarrow> g e1 = (True, e2) \<Longrightarrow> seq [f, g] e = (True, e2)"
  by simp

lemma does_fixed_value: "fe_keysAsIds e \<Longrightarrow> runs (fe_call Z) (calls_of False True v @ cs) e = (True, e') \<Longrightarrow>
    \<exists>e1. enc_val (fixed_ops Z) v e = (True, e1) \<and> fe_keysAsIds e1 \<and> runs (fe_call Z) cs e1 = (True, e')"
  using fixed_encodes runs_keep_opts by (metis runs_appendE)

lemma update_encodes:
  assumes "fe_keysAsIds e" and "runs (fe_call Z) (Zmap_start UINT8_MAX # prim_call key # calls_of False True v @ [Zmap_end UINT8_MAX]) e = (True, e')"
  shows "update_encode Z key v e = (True, e')"
proof -
  obtain e1 e2 where e: "fe_call Z (Zmap_start UINT8_MAX) e = (True, e1)" "fe_call Z (prim_call key) e1 = (True, e2)"
      "runs (fe_call Z) (calls_of False True v @ [Zmap_end UINT8_MAX]) e2 = (True, e')"
    using assms(2) by (auto elim!: runs_ConsE)
  have "fe_keysAsIds e2" using e(1,2) assms(1) fe_call_opts by (metis snd_conv)
  from does_fixed_value [OF this e(3)] e(1,2) show ?thesis
    by (auto simp: update_encode_def fixed_ops_calls fixed_prim)
qed

lemma shift_encodes:
  "fe_keysAsIds e \<Longrightarrow> runs (fe_call Z) (concat (map (calls_of False True) args) @ cs) e = (True, e') \<Longrightarrow>
   \<exists>e1. encodeAndShift (fixed_ops Z) (map (enc_val (fixed_ops Z)) args) e = (True, e1) \<and> runs (fe_call Z) cs e1 = (True, e')"
proof (induction args arbitrary: e)
  case (Cons v args)
  from Cons.prems(2) obtain e1 where e1: "enc_val (fixed_ops Z) v e = (True, e1)" "fe_keysAsIds e1"
      "runs (fe_call Z) (concat (map (calls_of False True) args) @ cs) e1 = (True, e')"
    using does_fixed_value [OF Cons.prems(1), of Z v "concat (map (calls_of False True) args) @ cs" e'] by auto
  from Cons.IH [OF e1(2,3)] e1(1) show ?case by (auto simp: fixed_ops_calls)
qed simp

lemma exec_encodes:
  assumes "fe_keysAsIds e"
    and "runs (fe_call Z) (Zlist_start (length args) # concat (map (calls_of False True) args) @ [Zlist_end (length args)]) e = (True, e')"
  shows "exec_encode Z args e = (True, e')"
proof -
  obtain e1 where e: "fe_call Z (Zlist_start (length args)) e = (True, e1)"
      "runs (fe_call Z) (concat (map (calls_of False True) args) @ [Zlist_end (length args)]) e1 = (True, e')"
    using assms(2) by (auto elim!: runs_ConsE)
  have "fe_keysAsIds e1" using e(1) assms(1) fe_call_opts by (metis snd_conv)
  from shift_encodes [OF this e(2)] e(1) show ?thesis
    by (auto simp: exec_encode_def encodeList_def fixed_ops_calls)
qed

definition get_calls :: "u16 \<Rightarrow> zcall list" where "get_calls i = [Zu32 (ucast i)]"

definition update_calls :: "u16 \<Rightarrow> tsval \<Rightarrow> zcall list" where
  "update_calls i v = Zi32 0 # Zmap_start UINT8_MAX # Zu32 (ucast i) # calls_of False True v @ [Zmap_end UINT8_MAX]"

definition exec_calls :: "u16 \<Rightarrow> tsval list \<Rightarrow> zcall list" where
  "exec_calls i args = Zu32 (ucast i) # Zlist_start (length args) # concat (map (calls_of False True) args) @ [Zlist_end (length args)]"

lemma writes_requests:
  "writes (get_calls i) [CPrim (Zu32 (ucast i))]"
  "writes (update_calls i v) [CPrim (Zi32 0), CMap [(CPrim (Zu32 (ucast i)), item_of True v)]]"
  "writes (exec_calls i args) [CPrim (Zu32 (ucast i)), CList (map (item_of True) args)]"
proof -
  show "writes (get_calls i) [CPrim (Zu32 (ucast i))]" by (auto simp: get_calls_def intro: writes.intros)
  have "writes (Zu32 (ucast i) # calls_of False True v) (flat_pairs [(CPrim (Zu32 (ucast i)), item_of True v)])"
    by (simp add: flat_pairs_def writes_prim writes_value)
  from writes_map [OF this _ writes_Nil, of UINT8_MAX]
  show "writes (update_calls i v) [CPrim (Zi32 0), CMap [(CPrim (Zu32 (ucast i)), item_of True v)]]"
    by (auto simp: update_calls_def UINT8_MAX_def intro: writes_prim)
  have "writes (concat (map (calls_of False True) args)) (concat (map (\<lambda>v. [item_of True v]) args))"
    by (rule writes_concat) (rule writes_value)
  from writes_list [OF this _ writes_Nil, of "length args"]
  show "writes (exec_calls i args) [CPrim (Zu32 (ucast i)), CList (map (item_of True) args)]"
    by (auto simp: exec_calls_def concat_map_singleton intro: writes_prim)
qed

subsection \<open>End to end\<close>

text \<open>A client connected to a server of the library, its application state, and the sizes of its buffers.\<close>

definition connected :: "('w \<times> u8 list) client \<Rightarrow> 'w \<Rightarrow> nat \<Rightarrow> nat \<Rightarrow> bool" where
  "connected c w n k \<longleftrightarrow> fst (cn_tp c) = w \<and> length (cn_tx c) = n \<and> length (cn_rx c) = k"

abbreviation link_to :: "u8 \<Rightarrow> node_map \<Rightarrow> registry \<Rightarrow> classes \<Rightarrow> 'z zcbor \<Rightarrow> 'd zreader \<Rightarrow> (nat \<Rightarrow> u8 list \<Rightarrow> 'd) \<Rightarrow>
    (u8 list \<Rightarrow> nat \<Rightarrow> ('z fixed_encoder, 'd) rctx option) \<Rightarrow> u8 list \<Rightarrow> (app \<times> u8 list) transport" where
  "link_to a N r C Z R mk mkt rsp \<equiv> loopback (serve (library_server a N r C) Z R mk mkt rsp)"

lemma call_keys: "fe_call Z c e = (r, e1) \<Longrightarrow> fe_keysAsIds e1 = fe_keysAsIds e"
  by (metis fe_call_opts snd_conv)

lemma fixed_ids: "o_u16 (fixed_ops Z) i = fe_call Z (Zu32 (ucast i))" "o_i32 (fixed_ops Z) v = fe_call Z (Zi32 v)"
  using fixed_prim [of Z "PU16 i"] fixed_prim [of Z "PI32 v"] by simp_all

lemma client_gets:
  assumes Z: "zcbor_codec Z R at mk B" and c: "connected c w n k"
    and room: "room Z n (get_calls i)" "room Z (length rsp) (Znil # calls_of False True (ap_vals w m))"
      "length (B [item_of True (ap_vals w m)]) + 2 \<le> k"
    and m: "i \<noteq> 0xFFFF" "findById N r (ucast i) = Some (Some m)" "nd_kind (N m) = nk_property"
    and fit: "fits ty old (ap_vals w m)"
  shows "\<exists>c'. client_get Z R mk (link_to a N r C Z R mk mkt rsp) i ty old c = Some (status_val st_content, ap_vals w m, c') \<and>
    connected c' w n k"
proof -
  let ?tx = "(cn_tx c)[0 := binary_request_val rq_get]"
  have tx: "length ?tx = n" "length (cn_tx c) = n" "fst (cn_tp c) = w" "length (cn_rx c) = k"
    using c by (simp_all add: connected_def)
  obtain e where e: "runs (fe_call Z) (get_calls i) (fe_make Z ?tx 1 (length ?tx - 1) 1 opt_encodeKeysAsIds) = (True, e)" "?tx \<noteq> []"
    using roomE [OF room(1) tx(1)] by blast
  obtain e2 where e2: "runs (fe_call Z) (Znil # calls_of False True (ap_vals w m)) (fe_make Z rsp 1 (length rsp - 1) 1 opt_encodeKeysAsIds) = (True, e2)" "rsp \<noteq> []"
    using roomE [OF room(2) refl] by blast
  have dec: "decodable at mk B [CPrim (Zu32 (ucast i))]" using codec_writes(4) [OF Z writes_requests(1) e(2,1), of "[]"] by simp
  have rdec: "decodable at mk B [item_of True (ap_vals w m)]"
    using codec_writes(4) [OF Z _ e2(2,1), of "[CPrim Znil, item_of True (ap_vals w m)]" "[CPrim Znil]"]
    by (simp add: writes_prim writes_value)
  have enc: "seq [enc_prim (fixed_ops Z) (PU16 i), \<lambda>e. (True, e)] (fe_make Z ?tx 1 (length (cn_tx c) - 1) 1 opt_encodeKeysAsIds) = (True, e)"
    using e(1) by (simp add: fixed_ids get_calls_def)
  have srv: "serve (library_server a N r C) Z R mk mkt rsp (binary_request_val rq_get # B [CPrim (Zu32 (ucast i))]) (fst (cn_tp c)) =
      Some (status_val st_content # cborNull # B [item_of True (ap_vals w m)], w)"
    unfolding tx by (rule serve_get [OF Z m(1) dec e2(2) m(2,3) e2(1)])
  have run: "runs (fe_call Z) (get_calls i) (fe_make Z ?tx 1 (length (cn_tx c) - 1) 1 opt_encodeKeysAsIds) = (True, e)"
    using e(1) by simp
  obtain c' where c': "doRequestCore Z (link_to a N r C Z R mk mkt rsp) (PU16 i) rq_get (\<lambda>e. (True, e)) c =
      ((status_val st_content, Some (B [item_of True (ap_vals w m)])), c')" "cn_tp c' = (w, [])"
      "length (cn_tx c') = length (cn_tx c)" "length (cn_rx c') = length (cn_rx c)"
    using exchange [where f = "serve (library_server a N r C) Z R mk mkt rsp", OF Z writes_requests(1) _ run enc srv] e(2) room(3)
    unfolding tx by (auto simp: result_success_def)
  have "at (mk 1 (B [item_of True (ap_vals w m)])) ((item_of True (ap_vals w m) # []) # [])"
    using rdec [unfolded decodable_def, rule_format, of 1] by simp
  then obtain d where "dec_val (fixed_decoder_ops R 0) ty old (mk 1 (B [item_of True (ap_vals w m)])) = Some (True, d, ap_vals w m)"
    using reads_asD [OF reads_val [OF zcbor_codecD(1) [OF Z]] _ fit] by blast
  then show ?thesis using c' c tx by (simp add: client_get_def doRequest_value_def result_success_def connected_def)
qed

lemma client_updates:
  assumes Z: "zcbor_codec Z R at mk B" and c: "connected c w n k"
    and room: "room Z n (update_calls (nd_id (N m)) v)" "room Z (length rsp) [Znil, Znil]" "3 \<le> k"
    and m: "findById N r 0 = Some (Some p)" "is_parent (N p)" "\<not> is_record_kind (nd_kind (N p))"
    and cb: "\<And>n reason w. node_callback N C p n reason w = (True, w)"
    and acc: "accepts a N r C True p w (m, v)"
  shows "\<exists>c'. client_update Z (link_to a N r C Z R mk mkt rsp) (nd_id (N m)) v c = (status_val st_changed, c') \<and>
    connected c' (set_val m v w) n k"
proof -
  let ?tx = "(cn_tx c)[0 := binary_request_val rq_update]" and ?i = "nd_id (N m)"
  have tx: "length ?tx = n" "length (cn_tx c) = n" "fst (cn_tp c) = w" "length (cn_rx c) = k"
    using c by (simp_all add: connected_def)
  obtain e where e: "runs (fe_call Z) (update_calls ?i v) (fe_make Z ?tx 1 (length ?tx - 1) 1 opt_encodeKeysAsIds) = (True, e)" "?tx \<noteq> []"
    using roomE [OF room(1) tx(1)] by blast
  obtain e2 where e2: "runs (fe_call Z) [Znil, Znil] (fe_make Z rsp 1 (length rsp - 1) 1 opt_encodeKeysAsIds) = (True, e2)" "rsp \<noteq> []"
    using roomE [OF room(2) refl] by blast
  have dec: "decodable at mk B [CPrim (Zi32 0), CMap [(CPrim (Zu32 (ucast ?i)), item_of True v)]]"
    using codec_writes(4) [OF Z writes_requests(2) e(2,1), of "[]"] by simp
  obtain e1 where e1: "fe_call Z (Zi32 0) (fe_make Z ?tx 1 (length ?tx - 1) 1 opt_encodeKeysAsIds) = (True, e1)"
      "runs (fe_call Z) (Zmap_start UINT8_MAX # prim_call (PU16 ?i) # calls_of False True v @ [Zmap_end UINT8_MAX]) e1 = (True, e)"
    using e(1) by (auto simp: update_calls_def elim!: runs_ConsE [where c = "Zi32 0"])
  have "fe_keysAsIds e1" unfolding call_keys [OF e1(1)] by (rule make_keys)
  from update_encodes [OF this e1(2)] e1(1)
  have enc: "seq [enc_prim (fixed_ops Z) (PI32 0), update_encode Z (PU16 ?i) v]
      (fe_make Z ?tx 1 (length (cn_tx c) - 1) 1 opt_encodeKeysAsIds) = (True, e)"
    by (simp add: fixed_ids)
  have srv: "serve (library_server a N r C) Z R mk mkt rsp (binary_request_val rq_update #
        B [CPrim (Zi32 0), CMap [(CPrim (Zu32 (ucast ?i)), item_of True v)]]) (fst (cn_tp c)) =
      Some (status_val st_changed # cborNull # B [CPrim Znil], set_val m v w)"
    unfolding tx by (rule serve_update [OF Z dec e2(2) m cb acc e2(1)])
  have run: "runs (fe_call Z) (update_calls ?i v) (fe_make Z ?tx 1 (length (cn_tx c) - 1) 1 opt_encodeKeysAsIds) = (True, e)"
    using e(1) by simp
  obtain c' where "doRequestCore Z (link_to a N r C Z R mk mkt rsp) (PI32 0) rq_update (update_encode Z (PU16 ?i) v) c =
      ((status_val st_changed, Some (B [CPrim Znil])), c')" "cn_tp c' = (set_val m v w, [])"
      "length (cn_tx c') = length (cn_tx c)" "length (cn_rx c') = length (cn_rx c)"
    using exchange [where f = "serve (library_server a N r C) Z R mk mkt rsp", OF Z writes_requests(2) _ run enc srv] e(2) room(3)
    unfolding tx by (auto simp: result_success_def zcbor_codecD(3,4) [OF Z])
  then show ?thesis using tx by (simp add: connected_def client_update_def doRequest_def)
qed

lemma client_executes:
  assumes Z: "zcbor_codec Z R at mk B" and c: "connected c w n k"
    and room: "room Z n (exec_calls i args)" "room Z (length rsp) (Znil # result_calls (Some res))" "length (B [item_of True res]) + 2 \<le> k"
    and m: "i \<noteq> 0xFFFF" "findById N r (ucast i) = Some (Some m)" "nd_kind (N m) = nk_function" "access_and (nd_access (N m)) a \<noteq> access_none"
    and fit: "args_fit (cl_params C m) (ap_args w m) args"
    and call: "cl_function C m args (w\<lparr>ap_args := (ap_args w)(m := args)\<rparr>) = (Some res, w2)"
    and rfit: "fits ty old res"
  shows "\<exists>c'. client_exec_value Z R mk (link_to a N r C Z R mk mkt rsp) i args ty old c = Some (status_val st_changed, res, c') \<and>
    connected c' w2 n k"
proof -
  let ?tx = "(cn_tx c)[0 := binary_request_val rq_exec]"
  have tx: "length ?tx = n" "length (cn_tx c) = n" "fst (cn_tp c) = w" "length (cn_rx c) = k"
    using c by (simp_all add: connected_def)
  obtain e where e: "runs (fe_call Z) (exec_calls i args) (fe_make Z ?tx 1 (length ?tx - 1) 1 opt_encodeKeysAsIds) = (True, e)" "?tx \<noteq> []"
    using roomE [OF room(1) tx(1)] by blast
  obtain e2 where e2: "runs (fe_call Z) (Znil # result_calls (Some res)) (fe_make Z rsp 1 (length rsp - 1) 1 opt_encodeKeysAsIds) = (True, e2)" "rsp \<noteq> []"
    using roomE [OF room(2) refl] by blast
  have dec: "decodable at mk B [CPrim (Zu32 (ucast i)), CList (map (item_of True) args)]"
    using codec_writes(4) [OF Z writes_requests(3) e(2,1), of "[]"] by simp
  have rdec: "decodable at mk B [item_of True res]"
    using codec_writes(4) [OF Z writes_prim [OF _ writes_result [of "Some res"]] e2(2,1), of "[CPrim Znil]"]
    by (simp add: result_item_def)
  obtain e1 where e1: "fe_call Z (Zu32 (ucast i)) (fe_make Z ?tx 1 (length ?tx - 1) 1 opt_encodeKeysAsIds) = (True, e1)"
      "runs (fe_call Z) (Zlist_start (length args) # concat (map (calls_of False True) args) @ [Zlist_end (length args)]) e1 = (True, e)"
    using e(1) by (auto simp: exec_calls_def elim!: runs_ConsE [where c = "Zu32 (ucast i)"])
  have "fe_keysAsIds e1" unfolding call_keys [OF e1(1)] by (rule make_keys)
  from exec_encodes [OF this e1(2)] e1(1)
  have enc: "seq [enc_prim (fixed_ops Z) (PU16 i), exec_encode Z args] (fe_make Z ?tx 1 (length (cn_tx c) - 1) 1 opt_encodeKeysAsIds) = (True, e)"
    by (simp add: fixed_ids)
  have srv: "serve (library_server a N r C) Z R mk mkt rsp (binary_request_val rq_exec #
        B [CPrim (Zu32 (ucast i)), CList (map (item_of True) args)]) (fst (cn_tp c)) =
      Some (status_val st_changed # cborNull # B [result_item (Some res)], w2)"
    unfolding tx by (rule serve_exec [OF Z m(1) dec e2(2) m(2-4) fit call e2(1)])
  have run: "runs (fe_call Z) (exec_calls i args) (fe_make Z ?tx 1 (length (cn_tx c) - 1) 1 opt_encodeKeysAsIds) = (True, e)"
    using e(1) by simp
  obtain c' where c': "doRequestCore Z (link_to a N r C Z R mk mkt rsp) (PU16 i) rq_exec (exec_encode Z args) c =
      ((status_val st_changed, Some (B [item_of True res])), c')" "cn_tp c' = (w2, [])"
      "length (cn_tx c') = length (cn_tx c)" "length (cn_rx c') = length (cn_rx c)"
    using exchange [where f = "serve (library_server a N r C) Z R mk mkt rsp", OF Z writes_requests(3) _ run enc srv] e(2) room(3)
    unfolding tx by (auto simp: result_success_def result_item_def)
  have "at (mk 1 (B [item_of True res])) ((item_of True res # []) # [])"
    using rdec [unfolded decodable_def, rule_format, of 1] by simp
  then obtain d where "dec_val (fixed_decoder_ops R 0) ty old (mk 1 (B [item_of True res])) = Some (True, d, res)"
    using reads_asD [OF reads_val [OF zcbor_codecD(1) [OF Z]] _ rfit] by blast
  then show ?thesis using c' c tx by (simp add: client_exec_value_def doRequest_value_def result_success_def connected_def)
qed

subsection \<open>A small codec\<close>

text \<open>
  Null, integers of one byte, and lists and maps of indefinite length, encoded as in CBOR except for the signed integers;
  every other call fails. The decoder parses the bytes into the stack of items of \<open>stack_reader\<close>.
\<close>

fun toy_bytes :: "zcall \<Rightarrow> u8 list option" where
  "toy_bytes Znil = Some [0xF6]"
| "toy_bytes (Zu32 v) = (if v < 256 then Some [0x18, ucast v] else None)"
| "toy_bytes (Zi32 v) = (if v < 256 then Some [0x38, ucast v] else None)"
| "toy_bytes (Zlist_start n) = Some [0x9F]"
| "toy_bytes (Zmap_start n) = Some [0xBF]"
| "toy_bytes (Zlist_end n) = Some [0xFF]"
| "toy_bytes (Zmap_end n) = Some [0xFF]"
| "toy_bytes c = None"

definition toy :: "nat zcbor" where
  "toy = \<lparr>z_call = \<lambda>c (buf, p). (case toy_bytes c of
       Some bs \<Rightarrow> if p + length bs \<le> length buf then (True, overwrite buf p bs, p + length bs) else (False, buf, p)
     | None \<Rightarrow> (False, buf, p)),
     z_payload = id, z_new = \<lambda>p n k. p, z_update = \<lambda>p n z. p\<rparr>"

definition toy_enc :: "zcall list \<Rightarrow> u8 list" where
  "toy_enc cs = concat (map (\<lambda>c. case toy_bytes c of Some bs \<Rightarrow> bs | None \<Rightarrow> []) cs)"

fun toy_items :: "citem \<Rightarrow> u8 list" where
  "toy_items (CPrim c) = (case toy_bytes c of Some bs \<Rightarrow> bs | None \<Rightarrow> [])"
| "toy_items (CList xs) = 0x9F # concat (map toy_items xs) @ [0xFF]"
| "toy_items (CMap kvs) = 0xBF # concat (map (\<lambda>(k, v). toy_items k @ toy_items v) kvs) @ [0xFF]"

definition toy_B :: "citem list \<Rightarrow> u8 list" where "toy_B xs = concat (map toy_items xs)"

fun pair_up :: "citem list \<Rightarrow> (citem \<times> citem) list" where
  "pair_up (k # v # xs) = (k, v) # pair_up xs"
| "pair_up xs = []"

fun toy_parse :: "u8 list \<Rightarrow> citem list \<Rightarrow> (bool \<times> citem list) list \<Rightarrow> citem list" where
  "toy_parse [] cur st = rev cur"
| "toy_parse (b # bs) cur st =
    (if b = 0xF6 then toy_parse bs (CPrim Znil # cur) st
     else if b = 0x18 then (case bs of v # r \<Rightarrow> toy_parse r (CPrim (Zu32 (ucast v)) # cur) st | [] \<Rightarrow> rev cur)
     else if b = 0x38 then (case bs of v # r \<Rightarrow> toy_parse r (CPrim (Zi32 (ucast v)) # cur) st | [] \<Rightarrow> rev cur)
     else if b = 0x9F then toy_parse bs [] ((False, cur) # st)
     else if b = 0xBF then toy_parse bs [] ((True, cur) # st)
     else (case st of (m, outer) # st' \<Rightarrow> toy_parse bs ((if m then CMap (pair_up (rev cur)) else CList (rev cur)) # outer) st'
           | [] \<Rightarrow> rev cur))"

definition toy_mk :: "nat \<Rightarrow> u8 list \<Rightarrow> citem list list" where
  "toy_mk n bs = (let xs = toy_parse bs [] [] in [xs @ replicate (n - length xs) (CPrim Zbackup_end)])"

definition toy_reader :: "citem list list zreader" where
  "toy_reader = stack_reader\<lparr>zr_u32 := take_prim (\<lambda>c. case c of Zu32 v \<Rightarrow> Some v
     | Zi32 v \<Rightarrow> if 0 \<le> sint v then Some v else None | _ \<Rightarrow> None)\<rparr>"

lemma pair_up_flat: "pair_up (flat_pairs kvs) = kvs"
  by (induction kvs) (auto simp: flat_pairs_def)

lemma byte_back: "v < 256 \<Longrightarrow> ucast (ucast (v :: u32) :: u8) = v"
proof -
  assume "v < 256"
  then have m: "v AND mask 8 = v" using less_mask_eq [of v 8] by simp
  show "ucast (ucast v :: u8) = v"
  proof (rule bit_word_eqI)
    fix i assume "i < LENGTH(32)"
    have "bit (v AND mask 8) i = bit v i" by (simp only: m)
    then show "bit (ucast (ucast v :: u8) :: u32) i = bit v i" using \<open>i < LENGTH(32)\<close>
      by (auto simp: bit_simps)
  qed
qed

lemma toy_parse_writes:
  "writes cs xs \<Longrightarrow> list_all (\<lambda>c. toy_bytes c \<noteq> None) cs \<Longrightarrow> toy_parse (toy_enc cs @ bs) cur st = toy_parse bs (rev xs @ cur) st"
proof (induction arbitrary: bs cur st rule: writes.induct)
  case writes_Nil
  then show ?case by (simp add: toy_enc_def)
next
  case (writes_prim c cs xs)
  then show ?case by (cases c) (auto simp: toy_enc_def byte_back split: if_splits)
next
  case (writes_list cs ys n ds xs)
  then show ?case by (simp add: toy_enc_def)
next
  case (writes_map cs kvs n ds xs)
  then show ?case by (simp add: toy_enc_def pair_up_flat)
qed

lemma toy_enc_items: "writes cs xs \<Longrightarrow> toy_enc cs = toy_B xs"
proof (induction rule: writes.induct)
  case (writes_map cs kvs n ds xs)
  moreover have "toy_B (flat_pairs kvs) = concat (map (\<lambda>(k, v). toy_items k @ toy_items v) kvs)"
    by (induction kvs) (auto simp: toy_B_def flat_pairs_def)
  ultimately show ?case by (simp add: toy_enc_def toy_B_def)
qed (simp_all add: toy_enc_def toy_B_def)

inductive_cases writes_ConsE: "writes cs (x # xs)"

lemma writes_suffix: "writes cs (ys @ zs) \<Longrightarrow> \<exists>as ds. cs = as @ ds \<and> writes ds zs"
proof (induction ys arbitrary: cs)
  case (Cons y ys)
  from Cons.prems obtain as ds where "cs = as @ ds" "writes ds (ys @ zs)"
    by (auto elim!: writes_ConsE) (metis append_Cons append.assoc append_Nil)+
  with Cons.IH show ?case by (metis append.assoc)
qed force

lemma overwrite_overwrite:
  "p + length xs \<le> length buf \<Longrightarrow> overwrite (overwrite buf p xs) (p + length xs) ys = overwrite buf p (xs @ ys)"
  by (simp add: overwrite_def) (simp add: add.commute add.left_commute)

lemma toy_runs:
  "runs (fe_call toy) cs e = (True, e') \<Longrightarrow> list_all (\<lambda>c. toy_bytes c \<noteq> None) cs \<and>
   fe_start e' = fe_start e \<and> fe_z e' = fe_z e + length (toy_enc cs) \<and> fe_z e' \<le> max (fe_z e) (length (fe_buf e)) \<and>
   fe_buf e' = overwrite (fe_buf e) (fe_z e) (toy_enc cs)"
proof (induction cs arbitrary: e)
  case Nil
  then show ?case by (simp add: toy_enc_def)
next
  case (Cons c cs)
  then obtain e1 where e1: "fe_call toy c e = (True, e1)" "runs (fe_call toy) cs e1 = (True, e')" by (auto elim: runs_ConsE)
  from e1(1) obtain bs where bs: "toy_bytes c = Some bs" "fe_z e + length bs \<le> length (fe_buf e)"
      "e1 = e\<lparr>fe_buf := overwrite (fe_buf e) (fe_z e) bs, fe_z := fe_z e + length bs\<rparr>"
    by (auto simp: fe_call_def toy_def split: option.splits if_splits)
  define es where "es = toy_enc cs"
  have "toy_enc (c # cs) = bs @ es" using bs(1) by (simp add: toy_enc_def es_def)
  then show ?case using Cons.IH [OF e1(2)] bs
    by (simp add: flip: es_def) (simp add: length_overwrite overwrite_overwrite)
qed

lemma toy_codec: "zcbor_codec toy toy_reader (=) toy_mk toy_B"
  unfolding zcbor_codec_def
proof (intro conjI allI impI)
  show "zcbor_reads toy_reader (=)"
    by (simp add: zcbor_reads_def moves_def toy_reader_def stack_reader_def take_prim_def)
  show "int_reads toy_reader (=)"
    by (simp add: int_reads_def moves_def toy_reader_def stack_reader_def take_prim_def)
  show "toy_B [] = []" "\<And>xs. toy_B (CPrim Znil # xs) = cborNull # toy_B xs"
    by (simp_all add: toy_B_def cborNull_def)
next
  fix buf :: "u8 list" and k opts cs xs e
  assume buf: "buf \<noteq> []" and w: "writes cs xs"
    and r: "runs (fe_call toy) cs (fe_make toy buf 1 (length buf - 1) k opts) = (True, e)"
  have s: "fe_start e = 1" "fe_z e = 1 + length (toy_B xs)" "fe_z e \<le> max 1 (length buf)"
      "fe_buf e = overwrite buf 1 (toy_B xs)" "list_all (\<lambda>c. toy_bytes c \<noteq> None) cs"
    using toy_runs [OF r] by (simp_all add: fe_make_def toy_enc_items [OF w], simp_all add: toy_def)
  have len: "1 + length (toy_B xs) \<le> length buf" using s(2,3) buf by (cases buf) auto
  show "fe_length toy e = length (toy_B xs)" using s(1,2) by (simp add: fe_length_def toy_def)
  show "length (fe_buf e) = length buf" using len by (simp add: s(4) length_overwrite)
  show "take (1 + length (toy_B xs)) (fe_buf e) = hd buf # toy_B xs"
    using len buf by (cases buf) (simp_all add: s(4) overwrite_def)
  fix ys zs assume "xs = ys @ zs"
  then obtain as ds where d: "cs = as @ ds" "writes ds zs" using writes_suffix w by blast
  then have "toy_parse (toy_enc ds @ []) [] [] = zs" using toy_parse_writes [OF d(2), of "[]" "[]" "[]"] s(5) by simp
  then show "decodable (=) toy_mk toy_B zs" using toy_enc_items [OF d(2)] by (simp add: decodable_def toy_mk_def)
qed

text \<open>How much room a sequence of calls of the small codec takes.\<close>

lemma toy_room:
  "list_all (\<lambda>c. toy_bytes c \<noteq> None) cs \<Longrightarrow> fe_z e + length (toy_enc cs) \<le> length (fe_buf e) \<Longrightarrow> fst (runs (fe_call toy) cs e)"
proof (induction cs arbitrary: e)
  case (Cons c cs)
  then obtain bs where bs: "toy_bytes c = Some bs" by auto
  define es where "es = toy_enc cs"
  have es: "toy_enc (c # cs) = bs @ es" using bs by (simp add: toy_enc_def es_def)
  let ?e = "e\<lparr>fe_buf := overwrite (fe_buf e) (fe_z e) bs, fe_z := fe_z e + length bs\<rparr>"
  have "fe_call toy c e = (True, ?e)" using Cons.prems(2) bs by (simp add: es) (simp add: fe_call_def toy_def)
  moreover have "fst (runs (fe_call toy) cs ?e)"
    using Cons.prems by (intro Cons.IH) (simp_all add: es length_overwrite flip: es_def)
  ultimately show ?case by (simp add: runs_Cons)
qed simp

lemma toy_roomI: "list_all (\<lambda>c. toy_bytes c \<noteq> None) cs \<Longrightarrow> 1 + length (toy_enc cs) \<le> n \<Longrightarrow> room toy n cs"
  unfolding room_def by (auto intro!: toy_room simp: fe_make_def, simp add: toy_def)

subsection \<open>Properties\<close>

text \<open>
  C3. What a client writes it reads back: over a CBOR library with the documented behaviour, a property the server accepts
  updates of, addressed by its id, is updated to the value the client passes, the client is told the status changed,
  the rest of the application keeps its values, and a get of the same id returns the status content and
  the value, decoded into the client's variable. The buffers of both sides have room for the requests and responses.
\<close>
theorem client_reads_back:
  assumes "zcbor_codec Z R at mk B" and "connected c w n k"
    and "room Z n (update_calls (nd_id (N m)) v)" and "room Z n (get_calls (nd_id (N m)))"
    and "room Z (length rsp) [Znil, Znil]" and "room Z (length rsp) (Znil # calls_of False True v)"
    and "length (B [item_of True v]) + 2 \<le> k" and "3 \<le> k"
    and "findById N r 0 = Some (Some p)" and "is_parent (N p)" and "\<not> is_record_kind (nd_kind (N p))"
    and "\<And>n reason w. node_callback N C p n reason w = (True, w)"
    and "accepts a N r C True p w (m, v)" and "nd_id (N m) \<noteq> 0xFFFF" and "fits ty old v"
  shows "\<exists>c' c''. client_update Z (link_to a N r C Z R mk mkt rsp) (nd_id (N m)) v c = (status_val st_changed, c') \<and>
    client_get Z R mk (link_to a N r C Z R mk mkt rsp) (nd_id (N m)) ty old c' = Some (status_val st_content, v, c'') \<and>
    connected c'' (set_val m v w) n k"
proof -
  let ?w = "set_val m v w"
  obtain c' where c': "client_update Z (link_to a N r C Z R mk mkt rsp) (nd_id (N m)) v c = (status_val st_changed, c')"
      "connected c' ?w n k"
    using client_updates [OF assms(1-3,5,8-13)] by blast
  have v: "ap_vals ?w m = v" by (simp add: set_val_def)
  have m: "findById N r (ucast (nd_id (N m))) = Some (Some m)" "nd_kind (N m) = nk_property"
    using assms(13) by (simp_all add: accepts_def addressed_def)
  show ?thesis
    using client_gets [OF assms(1) c'(2) assms(4), where rsp = rsp and m = m and N = N and r = r] assms(6,7,14,15) m c'(1) unfolding v by blast
qed

definition root_registry :: registry where
  "root_registry = sample_registry\<lparr>rg_map := (rg_map sample_registry)(0 := il_empty\<lparr>il_head := Some 0\<rparr>)\<rparr>"

definition demo_client :: "(app \<times> u8 list) client" where
  "demo_client = \<lparr>cn_rx = replicate 8 0, cn_tx = replicate 16 0, cn_tp = (sample_app, [])\<rparr>"

lemma root_find:
  "findById sample_nodes root_registry 0 = Some (Some 0)" "findById sample_nodes root_registry 0x61 = Some (Some 3)"
  "findById sample_nodes root_registry 0x64 = Some (Some 6)"
  by (simp_all add: findById_def root_registry_def sample_registry_def sample_nodes_def root_node_def bucket_def
      NODE_MAP_LOOKUP_BUCKETS_def find_loop.simps)

theorem client_reads_back_witness:
  "\<exists>c' c''. client_update toy (link_to anyReadWrite sample_nodes root_registry sample_classes toy toy_reader toy_mk (\<lambda>_ _. None) (replicate 8 0))
      0x61 (Prim (PU32 5)) demo_client = (0x84, c') \<and>
    client_get toy toy_reader toy_mk
      (link_to anyReadWrite sample_nodes root_registry sample_classes toy toy_reader toy_mk (\<lambda>_ _. None) (replicate 8 0))
      0x61 (TPrim KU32) (Prim (PU32 0)) c' = Some (0x85, Prim (PU32 5), c'') \<and>
    connected c'' (set_val 3 (Prim (PU32 5)) sample_app) 16 8"
proof -
  have i: "nd_id (sample_nodes 3) = 0x61" by (simp add: sample_nodes_def)
  have room: "room toy 16 (update_calls 0x61 (Prim (PU32 5)))" "room toy 16 (get_calls 0x61)" "room toy 8 [Znil, Znil]"
      "room toy 8 (Znil # calls_of False True (Prim (PU32 5)))"
    by (rule toy_roomI; simp add: update_calls_def get_calls_def toy_enc_def)+
  have root: "is_parent (sample_nodes 0)" "\<not> is_record_kind (nd_kind (sample_nodes 0))"
    by (simp_all add: sample_nodes_def root_node_def is_record_kind_def)
  have acc: "accepts anyReadWrite sample_nodes root_registry sample_classes True 0 sample_app (3, Prim (PU32 5))"
    using sample_access(1) root_find(2)
    by (simp add: accepts_def addressed_def i) (simp add: sample_nodes_def sample_classes_def prim_fits_def sample_app_def)
  have conn: "connected demo_client sample_app 16 8" by (simp add: connected_def demo_client_def)
  show ?thesis
    using client_reads_back [OF toy_codec conn, where N = sample_nodes and m = 3 and v = "Prim (PU32 5)" and rsp = "replicate 8 0"
        and r = root_registry and p = 0 and C = sample_classes and a = anyReadWrite and ty = "TPrim KU32" and old = "Prim (PU32 0)"
        and mkt = "\<lambda>_ _. None"] room root acc root_find(1)
    by (simp add: i toy_B_def prim_fits_def)
qed

text \<open>
  C34. A function the server lets the client execute is called with exactly the arguments the client passes, what it
  does to the application is the effect of the request, and its result is decoded into the client's variable,
  with the status changed.
\<close>
theorem client_exec_returns:
  assumes "zcbor_codec Z R at mk B" and "connected c w n k"
    and "room Z n (exec_calls i args)" and "room Z (length rsp) (Znil # result_calls (Some res))"
    and "length (B [item_of True res]) + 2 \<le> k"
    and "i \<noteq> 0xFFFF" and "findById N r (ucast i) = Some (Some m)" and "nd_kind (N m) = nk_function"
    and "access_and (nd_access (N m)) a \<noteq> access_none"
    and "args_fit (cl_params C m) (ap_args w m) args"
    and "cl_function C m args (w\<lparr>ap_args := (ap_args w)(m := args)\<rparr>) = (Some res, w2)" and "fits ty old res"
  shows "\<exists>c'. client_exec_value Z R mk (link_to a N r C Z R mk mkt rsp) i args ty old c = Some (status_val st_changed, res, c') \<and>
    connected c' w2 n k"
  by (rule client_executes [OF assms])

theorem client_exec_returns_witness:
  "\<exists>c'. client_exec_value toy toy_reader toy_mk
      (link_to anyReadWrite sample_nodes root_registry sample_classes toy toy_reader toy_mk (\<lambda>_ _. None) (replicate 8 0))
      0x64 [Prim (PU32 3), Prim (PU32 4)] (TPrim KU32) (Prim (PU32 0)) demo_client = Some (0x84, Prim (PU32 7), c') \<and>
    connected c' (sample_app\<lparr>ap_args := (ap_args sample_app)(6 := [Prim (PU32 3), Prim (PU32 4)])\<rparr>) 16 8"
proof -
  let ?w = "sample_app\<lparr>ap_args := (ap_args sample_app)(6 := [Prim (PU32 3), Prim (PU32 4)])\<rparr>"
  have room: "room toy 16 (exec_calls 0x64 [Prim (PU32 3), Prim (PU32 4)])" "room toy 8 (Znil # result_calls (Some (Prim (PU32 7))))"
    by (rule toy_roomI; simp add: exec_calls_def result_calls_def toy_enc_def)+
  have conn: "connected demo_client sample_app 16 8" by (simp add: connected_def demo_client_def)
  have call: "cl_function sample_classes 6 [Prim (PU32 3), Prim (PU32 4)] ?w = (Some (Prim (PU32 7)), ?w)"
    by (simp add: sample_classes_def)
  have fit: "args_fit (cl_params sample_classes 6) (ap_args sample_app 6) [Prim (PU32 3), Prim (PU32 4)]"
    by (simp add: sample_classes_def sample_app_def prim_fits_def)
  show ?thesis
    using client_exec_returns [OF toy_codec conn, where i = "0x64" and args = "[Prim (PU32 3), Prim (PU32 4)]" and rsp = "replicate 8 0"
        and res = "Prim (PU32 7)" and N = sample_nodes and r = root_registry and m = 6 and a = anyReadWrite and C = sample_classes
        and ty = "TPrim KU32" and old = "Prim (PU32 0)" and mkt = "\<lambda>_ _. None"]
      room call fit root_find(3) sample_access(4)
    by (simp add: toy_B_def prim_fits_def)
qed

end
