(* ===== verification/IsoTp.thy ===== *)
theory IsoTp imports CanId begin

text \<open>
  The segmentation protocol of src/can/zephyr/isotp (isotp_fast.c and its headers), in the configuration the
  library selects: fixed or normal addressing, no extended or custom addressing, whole messages
  dispatched at once. A send context cuts a message into a first frame and consecutive frames, paced by the
  flow control frames of the receiver; a receive context puts them together in a chain of buffers.
  Both are state machines driven by frames, timers, completion callbacks and the work queue.

  What Zephyr answers to a call is the record env; its DLC table, its address masks and the limits
  set by Kconfig are the record config. A context records whether its work item is submitted and which
  timer runs. The callbacks an operation makes and the frames it sends are its list of effects.
  None stands for an access outside a frame or a buffer.
\<close>

type_synonym addr = "29 word"

record config =
  c_fd :: bool
  to_dlc :: "nat \<Rightarrow> nat"
  of_dlc :: "nat \<Rightarrow> nat"
  max_packets :: nat
  wftmax :: nat
  fixed_sa_mask :: u32
  fixed_sa_pos :: nat
  fixed_ta_mask :: u32
  fixed_ta_pos :: nat
  fixed_prio_mask :: u32
  fixed_rx_mask :: u32

definition CAN_MAX_DLEN :: "config \<Rightarrow> nat" where
  "CAN_MAX_DLEN c = (if c_fd c then 64 else 8)"

definition ISOTP_FAST_SF_LEN_BYTE :: "config \<Rightarrow> nat" where
  "ISOTP_FAST_SF_LEN_BYTE c = (if c_fd c then 2 else 1)"

definition ISOTP_FF_DL_MIN :: "config \<Rightarrow> nat" where
  "ISOTP_FF_DL_MIN c = (if c_fd c then 15 else 8)"

definition ISOTP_FAST_MAX_LEN :: nat where "ISOTP_FAST_MAX_LEN = 4095"
definition ISOTP_4BIT_SF_MAX_CAN_DL :: nat where "ISOTP_4BIT_SF_MAX_CAN_DL = 8"

definition ISOTP_PCI_TYPE_MASK :: u8 where "ISOTP_PCI_TYPE_MASK = 0xF0"
definition ISOTP_PCI_TYPE_SF :: u8 where "ISOTP_PCI_TYPE_SF = push_bit 4 0x00"
definition ISOTP_PCI_TYPE_FF :: u8 where "ISOTP_PCI_TYPE_FF = push_bit 4 0x01"
definition ISOTP_PCI_TYPE_CF :: u8 where "ISOTP_PCI_TYPE_CF = push_bit 4 0x02"
definition ISOTP_PCI_TYPE_FC :: u8 where "ISOTP_PCI_TYPE_FC = push_bit 4 0x03"
definition ISOTP_PCI_SF_DL_MASK :: u8 where "ISOTP_PCI_SF_DL_MASK = 0x0F"
definition ISOTP_PCI_FF_DL_UPPER_MASK :: u8 where "ISOTP_PCI_FF_DL_UPPER_MASK = 0x0F"
definition ISOTP_PCI_FS_MASK :: u8 where "ISOTP_PCI_FS_MASK = 0x0F"
definition ISOTP_PCI_SN_MASK :: u8 where "ISOTP_PCI_SN_MASK = 0x0F"
definition ISOTP_PCI_FS_CTS :: u8 where "ISOTP_PCI_FS_CTS = 0x0"
definition ISOTP_PCI_FS_WAIT :: u8 where "ISOTP_PCI_FS_WAIT = 0x1"
definition ISOTP_PCI_FS_OVFLW :: u8 where "ISOTP_PCI_FS_OVFLW = 0x2"
definition ISOTP_STMIN_MAX :: u8 where "ISOTP_STMIN_MAX = 0xFA"
definition ISOTP_STMIN_MS_MAX :: u8 where "ISOTP_STMIN_MS_MAX = 0x7F"
definition ISOTP_STMIN_US_BEGIN :: u8 where "ISOTP_STMIN_US_BEGIN = 0xF1"
definition ISOTP_WFT_FIRST :: u8 where "ISOTP_WFT_FIRST = 0xFF"

lemmas pci_defs = ISOTP_PCI_TYPE_MASK_def ISOTP_PCI_TYPE_SF_def ISOTP_PCI_TYPE_FF_def ISOTP_PCI_TYPE_CF_def
  ISOTP_PCI_TYPE_FC_def ISOTP_PCI_SF_DL_MASK_def ISOTP_PCI_FF_DL_UPPER_MASK_def ISOTP_PCI_FS_MASK_def
  ISOTP_PCI_SN_MASK_def ISOTP_PCI_FS_CTS_def ISOTP_PCI_FS_WAIT_def ISOTP_PCI_FS_OVFLW_def

text \<open>The result codes of Zephyr's isotp.h; an errno of the driver is passed on as it is.\<close>

datatype isotp_result = N_OK | N_TIMEOUT_A | N_TIMEOUT_BS | N_TIMEOUT_CR | N_WRONG_SN | N_INVALID_FS
  | N_UNEXP_PDU | N_WFT_OVRN | N_BUFFER_OVERFLW | N_ERROR | NO_FREE_FILTER | NO_NET_BUF_LEFT | NO_CTX_LEFT
  | ESRCH | Errno int

datatype tx_state = TX_STATE_RESET | TX_SEND_SF | TX_SEND_FF | TX_WAIT_FC | TX_SEND_CF | TX_WAIT_ST
  | TX_WAIT_BACKLOG | TX_WAIT_FIN | TX_ERR

datatype rx_state = RX_WAIT_FF_SF | RX_PROCESS_SF | RX_PROCESS_FF | RX_TRY_ALLOC | RX_SEND_FC | RX_WAIT_CF
  | RX_SEND_WAIT | RX_ERR | RX_RECYCLE | RX_UNBOUND

datatype timeout = T_BS | T_CR | T_ALLOC | T_MS nat | T_US nat

datatype addressing_mode = MODE_NORMAL | MODE_FIXED

record can_frame =
  f_id :: addr
  f_fdf :: bool
  f_dlc :: nat
  f_data :: "u8 list"

record opts =
  o_bs :: u8
  o_stmin :: u8
  o_fdf :: bool
  o_mode :: addressing_mode
  o_rx_mask :: u32

text \<open>
  A send context (struct isotp_fast_send_ctx): s_data is the source buffer from the pointer on, s_loop says that
  the work handler waits for the semaphore, s_frees how often the context was given back to its slab.
\<close>

record send_ctx =
  s_addr :: addr
  s_data :: "u8 list"
  s_rem :: "12 word"
  s_state :: tx_state
  s_error :: isotp_result
  s_wft :: u8
  s_bs :: u8
  s_sn :: "4 word"
  s_backlog :: u8
  s_stmin :: u8
  s_pending :: int
  s_sem :: nat
  s_loop :: bool
  s_work :: bool
  s_timer :: "timeout option"
  s_frees :: nat

text \<open>A receive context (struct isotp_fast_recv_ctx): r_frags is the buffer chain, its last element the current fragment.\<close>

record recv_ctx =
  r_addr :: addr
  r_frags :: "u8 list list"
  r_rem :: "12 word"
  r_state :: rx_state
  r_error :: isotp_result
  r_wft :: u8
  r_bs :: u8
  r_sn :: "4 word"
  r_pending :: int
  r_work :: bool
  r_timer :: "timeout option"
  r_frees :: nat

record iso_ctx =
  send_list :: "send_ctx list"
  recv_list :: "recv_ctx list"
  i_opts :: opts
  i_rx_addr :: addr
  i_tx_addr :: addr
  i_filter :: int
  i_dev :: bool
  i_err_cb :: bool

datatype effect = Can_send can_frame | Recv_cb "u8 list" addr | Recv_error_cb isotp_result addr
  | Sent_cb isotp_result addr

text \<open>
  What Zephyr answers in one call: can_send's result, the uninitialised stack memory of a frame, whether a slab
  block and a buffer are free, and what the block of a new context holds from before.
\<close>

record env =
  e_send :: int
  e_junk :: "u8 list"
  e_slab :: bool
  e_buf :: bool
  e_send_block :: send_ctx
  e_recv_block :: recv_ctx

definition isotp_fast_get_tx_addr_fixed :: "config \<Rightarrow> addr \<Rightarrow> addr" where
  "isotp_fast_get_tx_addr_fixed c a =
     (let ext = (ucast a :: u32);
          sa_new = (ucast (drop_bit (fixed_ta_pos c) (ext AND fixed_ta_mask c)) :: u8);
          ta_new = (ucast (drop_bit (fixed_sa_pos c) (ext AND fixed_sa_mask c)) :: u8)
      in ucast ((ext AND fixed_prio_mask c) OR (ext AND 0xFF0000)
           OR push_bit (fixed_sa_pos c) (ucast sa_new) OR push_bit (fixed_ta_pos c) (ucast ta_new)))"

definition isotp_fast_get_reply_addr :: "config \<Rightarrow> iso_ctx \<Rightarrow> addr \<Rightarrow> addr" where
  "isotp_fast_get_reply_addr c x a = (case o_mode (i_opts x) of
     MODE_NORMAL \<Rightarrow> i_tx_addr x
   | MODE_FIXED \<Rightarrow> isotp_fast_get_tx_addr_fixed c a)"

definition prepare_frame :: "iso_ctx \<Rightarrow> addr \<Rightarrow> u8 list \<Rightarrow> can_frame" where
  "prepare_frame x a junk = \<lparr>f_id = a, f_fdf = o_fdf (i_opts x), f_dlc = 0, f_data = junk\<rparr>"

definition stmin_to_timeout :: "u8 \<Rightarrow> timeout" where
  "stmin_to_timeout st =
     (if st > ISOTP_STMIN_MAX \<or> (st > ISOTP_STMIN_MS_MAX \<and> st < ISOTP_STMIN_US_BEGIN)
      then T_MS (unat ISOTP_STMIN_MS_MAX)
      else if st \<ge> ISOTP_STMIN_US_BEGIN
      then T_US ((unat st + 1 - unat ISOTP_STMIN_US_BEGIN) * 100)
      else T_MS (unat st))"

definition prepare_filter :: "config \<Rightarrow> addr \<Rightarrow> opts \<Rightarrow> u32 \<times> u32" where
  "prepare_filter c a opt =
     (ucast a, if o_rx_mask opt \<noteq> 0 then o_rx_mask opt
        else (case o_mode opt of MODE_NORMAL \<Rightarrow> 0x1FFFFFFF | MODE_FIXED \<Rightarrow> fixed_rx_mask c))"

subsection \<open>Contexts: lookup, creation, release\<close>

definition new_send_ctx :: "iso_ctx \<Rightarrow> addr \<Rightarrow> send_ctx \<Rightarrow> send_ctx" where
  "new_send_ctx x a block = block\<lparr>s_addr := a, s_bs := o_bs (i_opts x), s_stmin := o_stmin (i_opts x),
     s_state := TX_SEND_FF, s_error := N_OK, s_pending := 0, s_sem := 0, s_work := False, s_timer := None,
     s_loop := False, s_frees := 0\<rparr>"

definition get_send_ctx :: "env \<Rightarrow> addr \<Rightarrow> bool \<Rightarrow> iso_ctx \<Rightarrow> iso_ctx \<times> (isotp_result + send_ctx)" where
  "get_send_ctx e a create x = (case find (\<lambda>s. s_addr s = a) (send_list x) of
     Some s \<Rightarrow> (x, Inr s)
   | None \<Rightarrow> if create then
       (if \<not> e_slab e then (x, Inl NO_CTX_LEFT)
        else let s = new_send_ctx x a (e_send_block e) in (x\<lparr>send_list := send_list x @ [s]\<rparr>, Inr s))
       else (x, Inl ESRCH))"

definition free_send_ctx :: "send_ctx \<Rightarrow> send_ctx" where
  "free_send_ctx s = s\<lparr>s_timer := None, s_frees := s_frees s + 1\<rparr>"

definition free_recv_ctx :: "recv_ctx \<Rightarrow> recv_ctx" where
  "free_recv_ctx r = r\<lparr>r_timer := None, r_frees := r_frees r + 1\<rparr>"

text \<open>Write a context back to its list; a context that was freed has left it.\<close>

definition put_send :: "send_ctx \<Rightarrow> iso_ctx \<Rightarrow> iso_ctx" where
  "put_send s x = x\<lparr>send_list := (if s_frees s > 0 then filter (\<lambda>q. s_addr q \<noteq> s_addr s) (send_list x)
     else map (\<lambda>q. if s_addr q = s_addr s then s else q) (send_list x))\<rparr>"

definition put_recv :: "recv_ctx \<Rightarrow> iso_ctx \<Rightarrow> iso_ctx" where
  "put_recv r x = x\<lparr>recv_list := (if r_frees r > 0 then filter (\<lambda>q. r_addr q \<noteq> r_addr r) (recv_list x)
     else map (\<lambda>q. if r_addr q = r_addr r then r else q) (recv_list x))\<rparr>"

definition new_recv_ctx :: "addr \<Rightarrow> recv_ctx \<Rightarrow> recv_ctx" where
  "new_recv_ctx a block = block\<lparr>r_frags := [[]], r_state := RX_WAIT_FF_SF, r_addr := a, r_error := N_OK,
     r_pending := 0, r_work := False, r_timer := None, r_frees := 0\<rparr>"

definition get_recv_ctx :: "env \<Rightarrow> addr \<Rightarrow> bool \<Rightarrow> iso_ctx \<Rightarrow> iso_ctx \<times> (isotp_result + recv_ctx)" where
  "get_recv_ctx e a create x = (case find (\<lambda>r. r_addr r = a) (recv_list x) of
     Some r \<Rightarrow> if \<not> e_buf e then (put_recv (free_recv_ctx r) x, Inl NO_NET_BUF_LEFT)
       else (let r1 = r\<lparr>r_frags := r_frags r @ [[]]\<rparr> in (put_recv r1 x, Inr r1))
   | None \<Rightarrow> if create then
       (if \<not> e_slab e then (x, Inl NO_CTX_LEFT)
        else if \<not> e_buf e then (x, Inl NO_NET_BUF_LEFT)
        else let r = new_recv_ctx a (e_recv_block e) in (x\<lparr>recv_list := recv_list x @ [r]\<rparr>, Inr r))
       else (x, Inl ESRCH))"

definition receive_report_error :: "isotp_result \<Rightarrow> recv_ctx \<Rightarrow> recv_ctx" where
  "receive_report_error err r = r\<lparr>r_state := RX_ERR, r_error := err\<rparr>"

definition send_report_error :: "isotp_result \<Rightarrow> send_ctx \<Rightarrow> send_ctx" where
  "send_report_error err s = s\<lparr>s_state := TX_ERR, s_error := err\<rparr>"

subsection \<open>Receiving\<close>

definition be32 :: "u8 list \<Rightarrow> u32" where
  "be32 d = push_bit 24 (ucast (d ! 0)) OR push_bit 16 (ucast (d ! 1)) OR push_bit 8 (ucast (d ! 2)) OR ucast (d ! 3)"

definition receive_get_ff_length :: "u8 list \<Rightarrow> u32" where
  "receive_get_ff_length d =
     (let len = push_bit 8 (ucast (d ! 0 AND ISOTP_PCI_FF_DL_UPPER_MASK)) OR ucast (d ! 1)
      in if len = 0 then be32 d else len)"

text \<open>The length of a single frame and the index of its payload.\<close>

definition receive_get_sf_length :: "config \<Rightarrow> u8 list \<Rightarrow> u8 \<times> nat" where
  "receive_get_sf_length c d =
     (let len = d ! 0 AND ISOTP_PCI_SF_DL_MASK
      in if c_fd c \<and> len = 0 then (d ! 1, 2) else (len, 1))"

text \<open>The completion callback of a flow control frame.\<close>

definition receive_can_tx :: "int \<Rightarrow> recv_ctx \<Rightarrow> recv_ctx" where
  "receive_can_tx err r = (let r1 = r\<lparr>r_pending := r_pending r - 1\<rparr> in
     if err \<noteq> 0 then (receive_report_error N_ERROR r1)\<lparr>r_work := True\<rparr> else r1)"

definition fc_frame :: "config \<Rightarrow> iso_ctx \<Rightarrow> addr \<Rightarrow> u8 list \<Rightarrow> u8 \<Rightarrow> can_frame" where
  "fc_frame c x a junk fs = (prepare_frame x a junk)\<lparr>f_dlc := to_dlc c 3,
     f_data := overwrite junk 0 [ISOTP_PCI_TYPE_FC OR fs, o_bs (i_opts x), o_stmin (i_opts x)]\<rparr>"

definition rx_overflow :: "config \<Rightarrow> iso_ctx \<Rightarrow> recv_ctx \<Rightarrow> bool" where
  "rx_overflow c x r \<longleftrightarrow> o_bs (i_opts x) = 0 \<and> unat (r_rem r) > max_packets c * (CAN_MAX_DLEN c - 1)"

fun rx_rank :: "recv_ctx \<Rightarrow> nat" where
  "rx_rank r = (case r_state r of RX_WAIT_FF_SF \<Rightarrow> 0 | RX_PROCESS_SF \<Rightarrow> 4 | RX_PROCESS_FF \<Rightarrow> 9 | RX_TRY_ALLOC \<Rightarrow> 8
     | RX_SEND_FC \<Rightarrow> 7 | RX_WAIT_CF \<Rightarrow> 0 | RX_SEND_WAIT \<Rightarrow> 7
     | RX_ERR \<Rightarrow> if r_error r = N_BUFFER_OVERFLW then 5 else 2 | RX_RECYCLE \<Rightarrow> 1 | RX_UNBOUND \<Rightarrow> 0)"

function receive_state_machine :: "config \<Rightarrow> iso_ctx \<Rightarrow> env \<Rightarrow> recv_ctx \<Rightarrow> recv_ctx \<times> effect list"
and receive_send_fc :: "config \<Rightarrow> iso_ctx \<Rightarrow> env \<Rightarrow> u8 \<Rightarrow> recv_ctx \<Rightarrow> recv_ctx \<times> effect list"
where
  "receive_state_machine c x e r = (case r_state r of
     RX_PROCESS_SF \<Rightarrow> receive_state_machine c x e (r\<lparr>r_rem := 0, r_state := RX_RECYCLE\<rparr>)
   | RX_PROCESS_FF \<Rightarrow>
       if rx_overflow c x r
       then receive_state_machine c x e (receive_report_error N_BUFFER_OVERFLW r)
       else let r1 = (if o_bs (i_opts x) \<noteq> 0 then r\<lparr>r_bs := o_bs (i_opts x)\<rparr> else r)
            in receive_state_machine c x e (r1\<lparr>r_wft := ISOTP_WFT_FIRST, r_state := RX_TRY_ALLOC\<rparr>)
   | RX_TRY_ALLOC \<Rightarrow> receive_state_machine c x e (r\<lparr>r_timer := None, r_state := RX_SEND_FC\<rparr>)
   | RX_SEND_FC \<Rightarrow> (case receive_send_fc c x e ISOTP_PCI_FS_CTS r of
       (r1, out) \<Rightarrow> (r1\<lparr>r_timer := Some T_CR, r_state := RX_WAIT_CF\<rparr>, out))
   | RX_SEND_WAIT \<Rightarrow>
       let r1 = r\<lparr>r_wft := r_wft r + 1\<rparr> in
       if unat (r_wft r1) < wftmax c
       then (case receive_send_fc c x e ISOTP_PCI_FS_WAIT r1 of
          (r2, out) \<Rightarrow> (r2\<lparr>r_timer := Some T_ALLOC, r_state := RX_TRY_ALLOC\<rparr>, out))
       else receive_state_machine c x e (receive_report_error N_BUFFER_OVERFLW r1)
   | RX_ERR \<Rightarrow>
       let r1 = r\<lparr>r_timer := None\<rparr>;
           cb = (if i_err_cb x then [Recv_error_cb (r_error r) (r_addr r)] else []) in
       (case (if r_error r1 = N_BUFFER_OVERFLW then receive_send_fc c x e ISOTP_PCI_FS_OVFLW r1 else (r1, [])) of
          (r2, out) \<Rightarrow> (free_recv_ctx (r2\<lparr>r_state := RX_UNBOUND\<rparr>), cb @ out))
   | RX_RECYCLE \<Rightarrow> (free_recv_ctx (r\<lparr>r_state := RX_UNBOUND\<rparr>), [Recv_cb (concat (r_frags r)) (r_addr r)])
   | _ \<Rightarrow> (r, []))"
| "receive_send_fc c x e fs r = (let r1 = r\<lparr>r_pending := r_pending r + 1\<rparr> in
     if e_send e \<noteq> 0
     then receive_state_machine c x e (receive_report_error N_TIMEOUT_A (r1\<lparr>r_pending := r_pending r1 - 1\<rparr>))
     else (r1, [Can_send (fc_frame c x (isotp_fast_get_reply_addr c x (r_addr r)) (e_junk e) fs)]))"
  by pat_completeness auto

termination
  by (relation "measure (\<lambda>a. case a of Inl (c, x, e, r) \<Rightarrow> rx_rank r | Inr (c, x, e, fs, r) \<Rightarrow> 3)")
    (auto simp: receive_report_error_def)

text \<open>net_buf_add_mem of the frame's bytes from an index on, into the current fragment.\<close>

definition add_mem :: "config \<Rightarrow> can_frame \<Rightarrow> nat \<Rightarrow> nat \<Rightarrow> recv_ctx \<Rightarrow> recv_ctx option" where
  "add_mem c fr i n r =
     (if i + n \<le> CAN_MAX_DLEN c \<and> length (last (r_frags r)) + n \<le> CAN_MAX_DLEN c - 1
      then Some (r\<lparr>r_frags := butlast (r_frags r) @ [last (r_frags r) @ take n (drop i (f_data fr))]\<rparr>)
      else None)"

definition pci_type :: "can_frame \<Rightarrow> u8" where
  "pci_type fr = f_data fr ! 0 AND ISOTP_PCI_TYPE_MASK"

definition process_ff_sf :: "config \<Rightarrow> can_frame \<Rightarrow> recv_ctx \<Rightarrow> recv_ctx option" where
  "process_ff_sf c fr r =
     (if pci_type fr = ISOTP_PCI_TYPE_FF then
        (if f_dlc fr \<noteq> ISOTP_FF_DL_MIN c then Some r
         else let n = CAN_MAX_DLEN c - 2;
                  r1 = r\<lparr>r_rem := ucast (receive_get_ff_length (f_data fr)), r_state := RX_PROCESS_FF, r_sn := 1\<rparr>
              in map_option (\<lambda>q. q\<lparr>r_rem := r_rem q - of_nat n\<rparr>) (add_mem c fr 2 n r1))
      else if pci_type fr = ISOTP_PCI_TYPE_SF then
        (case receive_get_sf_length c (f_data fr) of (len, i) \<Rightarrow>
           let r1 = r\<lparr>r_rem := ucast len\<rparr>;
               n = min (unat (r_rem r1)) (CAN_MAX_DLEN c - i)
           in if n > of_dlc c (f_dlc fr) then Some r1
              else map_option (\<lambda>q. q\<lparr>r_rem := r_rem q - of_nat n\<rparr>)
                     (add_mem c fr i n (r1\<lparr>r_state := RX_PROCESS_SF\<rparr>)))
      else Some ((receive_report_error N_UNEXP_PDU r)\<lparr>r_work := True\<rparr>))"

text \<open>The length of a consecutive frame's payload is an int, converted to uint32_t.\<close>

definition cf_data_len :: "config \<Rightarrow> can_frame \<Rightarrow> recv_ctx \<Rightarrow> u32" where
  "cf_data_len c fr r = word_of_int (min (uint (r_rem r)) (int (of_dlc c (f_dlc fr)) - 1))"

definition process_cf :: "config \<Rightarrow> iso_ctx \<Rightarrow> can_frame \<Rightarrow> recv_ctx \<Rightarrow> recv_ctx option" where
  "process_cf c x fr r =
     (if pci_type fr \<noteq> ISOTP_PCI_TYPE_CF then Some ((receive_report_error N_UNEXP_PDU r)\<lparr>r_work := True\<rparr>)
      else let r1 = r\<lparr>r_timer := Some T_CR, r_sn := r_sn r + 1\<rparr> in
        if ucast (f_data fr ! 0 AND ISOTP_PCI_SN_MASK) \<noteq> r_sn r
        then Some ((receive_report_error N_WRONG_SN r1)\<lparr>r_work := True\<rparr>)
        else (case add_mem c fr 1 (unat (cf_data_len c fr r1)) r1 of
            None \<Rightarrow> None
          | Some r2 \<Rightarrow> let r3 = r2\<lparr>r_rem := r_rem r2 - ucast (cf_data_len c fr r1)\<rparr> in
              if r_rem r3 = 0 then Some (r3\<lparr>r_state := RX_RECYCLE, r_work := True\<rparr>)
              else if o_bs (i_opts x) \<noteq> 0 then
                (let r4 = r3\<lparr>r_bs := r_bs r3 - 1\<rparr> in
                 if r_bs r4 = 0 then Some (r4\<lparr>r_bs := o_bs (i_opts x), r_state := RX_TRY_ALLOC\<rparr>) else Some r4)
              else Some r3))"

definition receive_timeout_handler :: "recv_ctx \<Rightarrow> recv_ctx" where
  "receive_timeout_handler r = (case r_state r of
      RX_WAIT_CF \<Rightarrow> receive_report_error N_TIMEOUT_CR r
    | RX_TRY_ALLOC \<Rightarrow> r\<lparr>r_state := RX_SEND_WAIT\<rparr>
    | _ \<Rightarrow> r)\<lparr>r_work := True\<rparr>"

definition receive_can_rx :: "config \<Rightarrow> env \<Rightarrow> addr \<Rightarrow> can_frame \<Rightarrow> iso_ctx \<Rightarrow> iso_ctx option" where
  "receive_can_rx c e a fr x =
     (case get_recv_ctx e a (pci_type fr = ISOTP_PCI_TYPE_FF \<or> pci_type fr = ISOTP_PCI_TYPE_SF) x of
        (x1, Inl err) \<Rightarrow> Some x1
      | (x1, Inr r) \<Rightarrow> (case r_state r of
            RX_WAIT_FF_SF \<Rightarrow> map_option (\<lambda>q. put_recv (q\<lparr>r_work := True\<rparr>) x1) (process_ff_sf c fr r)
          | RX_WAIT_CF \<Rightarrow> map_option (\<lambda>q. put_recv (if r_state q = RX_WAIT_CF then q else q\<lparr>r_work := True\<rparr>) x1)
              (process_cf c x fr r)
          | _ \<Rightarrow> Some (put_recv (r\<lparr>r_work := True\<rparr>) x1)))"

text \<open>The work queue runs the item of a receive context.\<close>

definition receive_work_handler :: "config \<Rightarrow> env \<Rightarrow> recv_ctx \<Rightarrow> iso_ctx \<Rightarrow> iso_ctx \<times> effect list" where
  "receive_work_handler c e r x =
     (case receive_state_machine c x e (r\<lparr>r_work := False\<rparr>) of (r1, out) \<Rightarrow> (put_recv r1 x, out))"

declare receive_state_machine.simps [simp del] receive_send_fc.simps [simp del]

subsection \<open>Sending\<close>

definition send_process_fc :: "config \<Rightarrow> can_frame \<Rightarrow> send_ctx \<Rightarrow> send_ctx" where
  "send_process_fc c fr s =
     (if pci_type fr \<noteq> ISOTP_PCI_TYPE_FC then send_report_error N_UNEXP_PDU s
      else let fs = f_data fr ! 0 AND ISOTP_PCI_FS_MASK in
        if fs = ISOTP_PCI_FS_CTS
        then s\<lparr>s_state := TX_SEND_CF, s_wft := 0, s_backlog := 0, s_sem := 0,
               s_bs := f_data fr ! 1, s_stmin := f_data fr ! 2\<rparr>
        else if fs = ISOTP_PCI_FS_WAIT
        then let s1 = s\<lparr>s_timer := Some T_BS\<rparr>;
                 s2 = (if unat (s_wft s1) \<ge> wftmax c then send_report_error N_WFT_OVRN s1 else s1)
             in s2\<lparr>s_wft := s_wft s2 + 1\<rparr>
        else if fs = ISOTP_PCI_FS_OVFLW then send_report_error N_BUFFER_OVERFLW s
        else send_report_error N_INVALID_FS s)"

definition send_can_rx :: "config \<Rightarrow> can_frame \<Rightarrow> send_ctx \<Rightarrow> send_ctx" where
  "send_can_rx c fr s =
     (if s_state s = TX_WAIT_FC then send_process_fc c fr (s\<lparr>s_timer := None\<rparr>)
      else send_report_error N_UNEXP_PDU s)\<lparr>s_work := True\<rparr>"

text \<open>A frame from the bus goes to the context it belongs to.\<close>

definition can_rx_callback :: "config \<Rightarrow> env \<Rightarrow> can_frame \<Rightarrow> iso_ctx \<Rightarrow> iso_ctx option" where
  "can_rx_callback c e fr x =
     (let reply = isotp_fast_get_reply_addr c x (f_id fr) in
      if pci_type fr = ISOTP_PCI_TYPE_FC
      then (case get_send_ctx e reply False x of
          (x1, Inl err) \<Rightarrow> Some x1
        | (x1, Inr s) \<Rightarrow> Some (put_send (send_can_rx c fr s) x1))
      else receive_can_rx c e (f_id fr) fr x)"

text \<open>The completion callback of a first or consecutive frame; it does not look at the driver's error.\<close>

definition send_can_tx_callback :: "int \<Rightarrow> send_ctx \<Rightarrow> send_ctx" where
  "send_can_tx_callback err s =
     (let s1 = s\<lparr>s_pending := s_pending s - 1, s_backlog := s_backlog s - 1, s_sem := min (s_sem s + 1) 1\<rparr> in
      if s_state s1 = TX_WAIT_BACKLOG then
        (if s_backlog s1 > 0 then s1 else s1\<lparr>s_state := TX_WAIT_FIN, s_work := True\<rparr>)
      else s1\<lparr>s_work := True\<rparr>)"

definition ff_header :: "u16 \<Rightarrow> u8 list" where
  "ff_header len = (if len > 0xFFF
     then [ISOTP_PCI_TYPE_FF, 0, ucast (drop_bit 24 (ucast len :: u32)), ucast (drop_bit 16 (ucast len :: u32)),
           ucast (drop_bit 8 len), ucast len]
     else [ISOTP_PCI_TYPE_FF OR ucast (drop_bit 8 len), ucast len])"

text \<open>send_ff and send_cf return the frame handed to the driver; it is on the bus when the driver took it.\<close>

definition send_ff :: "config \<Rightarrow> iso_ctx \<Rightarrow> env \<Rightarrow> send_ctx \<Rightarrow> send_ctx \<times> effect list \<times> int" where
  "send_ff c x e s =
     (let len = (ucast (s_rem s) :: u16);
          hdr = ff_header len;
          n = min (CAN_MAX_DLEN c - length hdr) (unat len);
          fr = (prepare_frame x (s_addr s) (e_junk e))\<lparr>
                 f_data := overwrite (e_junk e) 0 (hdr @ take n (s_data s)), f_dlc := to_dlc c (CAN_MAX_DLEN c)\<rparr>;
          s1 = s\<lparr>s_sn := 1, s_rem := s_rem s - of_nat n, s_data := drop n (s_data s), s_pending := s_pending s + 1\<rparr>
      in if e_send e \<noteq> 0 then (s1\<lparr>s_pending := s_pending s1 - 1\<rparr>, [], e_send e)
         else (s1, [Can_send fr], 0))"

definition send_cf :: "config \<Rightarrow> iso_ctx \<Rightarrow> env \<Rightarrow> send_ctx \<Rightarrow> send_ctx \<times> effect list \<times> int" where
  "send_cf c x e s =
     (let n = min (unat (s_rem s)) (CAN_MAX_DLEN c - 1);
          fr = (prepare_frame x (s_addr s) (e_junk e))\<lparr>
                 f_data := overwrite (e_junk e) 0 ((ISOTP_PCI_TYPE_CF OR ucast (s_sn s)) # take n (s_data s)),
                 f_dlc := to_dlc c (n + 1)\<rparr>;
          s1 = s\<lparr>s_rem := s_rem s - of_nat n, s_data := drop n (s_data s), s_pending := s_pending s + 1\<rparr>
      in if e_send e = 0
         then (s1\<lparr>s_sn := s_sn s1 + 1, s_bs := s_bs s1 - 1, s_backlog := s_backlog s1 + 1\<rparr>, [Can_send fr],
               uint (s_rem s1))
         else (s1\<lparr>s_pending := s_pending s1 - 1\<rparr>, [], e_send e))"

text \<open>
  One round of the loop over consecutive frames. Where the loop waits for the semaphore the context is
  left with s_loop set; send_resume takes the semaphore and goes round again. EAGAIN is Zephyr's errno.
\<close>

definition EAGAIN :: int where "EAGAIN = 11"

definition send_cf_round :: "config \<Rightarrow> iso_ctx \<Rightarrow> env \<Rightarrow> send_ctx \<Rightarrow> send_ctx \<times> effect list" where
  "send_cf_round c x e s = (case send_cf c x e s of (s1, out, ret) \<Rightarrow>
     (if ret = 0 then s1\<lparr>s_state := TX_WAIT_BACKLOG\<rparr>
      else if ret < 0 then send_report_error (if ret = - EAGAIN then N_TIMEOUT_A else N_ERROR) s1
      else if o_bs (i_opts x) \<noteq> 0 \<and> s_bs s1 = 0 then s1\<lparr>s_timer := Some T_BS, s_state := TX_WAIT_FC\<rparr>
      else if s_stmin s1 \<noteq> 0 then s1\<lparr>s_state := TX_WAIT_ST\<rparr>
      else s1\<lparr>s_loop := True\<rparr>, out))"

definition send_resume :: "config \<Rightarrow> iso_ctx \<Rightarrow> env \<Rightarrow> send_ctx \<Rightarrow> send_ctx \<times> effect list" where
  "send_resume c x e s =
     (if s_loop s \<and> s_sem s > 0 then send_cf_round c x e (s\<lparr>s_sem := s_sem s - 1, s_loop := False\<rparr>) else (s, []))"

definition send_state_machine :: "config \<Rightarrow> iso_ctx \<Rightarrow> env \<Rightarrow> send_ctx \<Rightarrow> send_ctx \<times> effect list" where
  "send_state_machine c x e s = (case s_state s of
     TX_SEND_FF \<Rightarrow> (case send_ff c x e s of (s1, out, ret) \<Rightarrow>
        (s1\<lparr>s_timer := Some T_BS, s_state := TX_WAIT_FC\<rparr>, out))
   | TX_SEND_CF \<Rightarrow> send_cf_round c x e (s\<lparr>s_timer := None\<rparr>)
   | TX_WAIT_ST \<Rightarrow> (s\<lparr>s_timer := Some (stmin_to_timeout (s_stmin s)), s_state := TX_SEND_CF\<rparr>, [])
   | TX_ERR \<Rightarrow> (free_send_ctx (s\<lparr>s_state := TX_STATE_RESET\<rparr>), [Sent_cb (s_error s) (s_addr s)])
   | TX_WAIT_FIN \<Rightarrow> (free_send_ctx (s\<lparr>s_timer := None, s_state := TX_STATE_RESET\<rparr>), [Sent_cb N_OK (s_addr s)])
   | _ \<Rightarrow> (s, []))"

text \<open>The work queue runs the item of a send context: not while its loop holds the queue.\<close>

definition send_work_handler :: "config \<Rightarrow> env \<Rightarrow> send_ctx \<Rightarrow> iso_ctx \<Rightarrow> iso_ctx \<times> effect list" where
  "send_work_handler c e s x =
     (case send_state_machine c x e (s\<lparr>s_work := False\<rparr>) of (s1, out) \<Rightarrow> (put_send s1 x, out))"

definition send_timeout_handler :: "send_ctx \<Rightarrow> send_ctx" where
  "send_timeout_handler s =
     (if s_state s \<noteq> TX_SEND_CF then send_report_error N_TIMEOUT_BS s else s)\<lparr>s_work := True\<rparr>"

definition sf_header :: "config \<Rightarrow> nat \<Rightarrow> u8 list" where
  "sf_header c len = (if c_fd c then
       (if len > ISOTP_4BIT_SF_MAX_CAN_DL - 1 then [ISOTP_PCI_TYPE_SF, of_nat len]
        else [ISOTP_PCI_TYPE_SF OR of_nat len])
     else [of_nat len])"

definition sf_frame :: "config \<Rightarrow> iso_ctx \<Rightarrow> addr \<Rightarrow> u8 list \<Rightarrow> u8 list \<Rightarrow> can_frame" where
  "sf_frame c x a junk d = (let hdr = sf_header c (length d) in
     (prepare_frame x a junk)\<lparr>f_dlc := to_dlc c (length d + length hdr), f_data := overwrite junk 0 (hdr @ d)\<rparr>)"

text \<open>isotp_fast_send: a message that fits one frame is handed to the driver at once.\<close>

definition isotp_fast_send :: "config \<Rightarrow> env \<Rightarrow> u8 list \<Rightarrow> addr \<Rightarrow> iso_ctx \<Rightarrow> iso_ctx \<times> effect list \<times> isotp_result" where
  "isotp_fast_send c e d a x =
     (if length d \<le> CAN_MAX_DLEN c - ISOTP_FAST_SF_LEN_BYTE c then
        (case get_send_ctx e a True x of
           (x1, Inl err) \<Rightarrow> (x1, [], NO_NET_BUF_LEFT)
         | (x1, Inr s) \<Rightarrow> (let s1 = s\<lparr>s_pending := s_pending s + 1\<rparr> in
             if e_send e \<noteq> 0
             then (let s2 = s1\<lparr>s_pending := s_pending s1 - 1\<rparr>;
                       s3 = (if s_state s2 = TX_SEND_FF \<and> s_pending s2 = 0 then free_send_ctx s2 else s2)
                   in (put_send s3 x1, [], Errno (e_send e)))
             else (put_send s1 x1, [Can_send (sf_frame c x a (e_junk e) d)], N_OK)))
      else if length d > ISOTP_FAST_MAX_LEN then (x, [], N_BUFFER_OVERFLW)
      else (case get_send_ctx e a True x of
           (x1, Inl err) \<Rightarrow> (x1, [], NO_NET_BUF_LEFT)
         | (x1, Inr s) \<Rightarrow> (put_send (s\<lparr>s_data := d, s_rem := of_nat (length d), s_work := True\<rparr>) x1, [], N_OK)))"

text \<open>The completion callback of a single frame frees the context.\<close>

definition isotp_fast_sent_single_cb :: "int \<Rightarrow> send_ctx \<Rightarrow> send_ctx \<times> effect list" where
  "isotp_fast_sent_single_cb err s =
     (free_send_ctx (s\<lparr>s_pending := s_pending s - 1\<rparr>), [Sent_cb (if err = 0 then N_OK else Errno err) (s_addr s)])"

definition isotp_fast_send_fixed :: "config \<Rightarrow> env \<Rightarrow> u8 list \<Rightarrow> u8 \<Rightarrow> iso_ctx \<Rightarrow> iso_ctx \<times> effect list \<times> isotp_result" where
  "isotp_fast_send_fixed c e d target x =
     isotp_fast_send c e d (isotp_fast_get_tx_addr_fixed c (i_rx_addr x AND ucast target)) x"

subsection \<open>Binding and unbinding\<close>

definition isotp_fast_bind :: "int \<Rightarrow> addr \<Rightarrow> opts \<Rightarrow> bool \<Rightarrow> iso_ctx \<Rightarrow> iso_ctx \<times> isotp_result" where
  "isotp_fast_bind filter_id a opt err_cb x =
     (x\<lparr>send_list := [], recv_list := [], i_dev := True, i_opts := opt, i_rx_addr := a, i_filter := filter_id,
        i_err_cb := err_cb\<rparr>,
      if filter_id < 0 then NO_FREE_FILTER else N_OK)"

definition orphan_send_ctx :: "send_ctx \<Rightarrow> send_ctx" where
  "orphan_send_ctx s = send_report_error N_ERROR s"

definition orphan_recv_ctx :: "recv_ctx \<Rightarrow> recv_ctx" where
  "orphan_recv_ctx r = r\<lparr>r_state := RX_UNBOUND\<rparr>"

definition orphanage_init :: iso_ctx where
  "orphanage_init = \<lparr>send_list = [], recv_list = [],
     i_opts = \<lparr>o_bs = 0, o_stmin = 0, o_fdf = False, o_mode = MODE_NORMAL, o_rx_mask = 0\<rparr>,
     i_rx_addr = 0, i_tx_addr = 0, i_filter = -1, i_dev = False, i_err_cb = False\<rparr>"

text \<open>The state is the context and the orphanage that takes over what the driver still points to.\<close>

definition unbind_recv :: "recv_ctx \<Rightarrow> iso_ctx \<times> iso_ctx \<Rightarrow> iso_ctx \<times> iso_ctx" where
  "unbind_recv r p = (case p of (x, orph) \<Rightarrow>
     let r1 = r\<lparr>r_timer := None, r_work := False\<rparr> in
     if r_pending r1 = 0 then (put_recv (free_recv_ctx r1) x, orph)
     else (x\<lparr>recv_list := filter (\<lambda>q. r_addr q \<noteq> r_addr r) (recv_list x)\<rparr>,
           orph\<lparr>recv_list := recv_list orph @ [orphan_recv_ctx r1]\<rparr>))"

definition unbind_send :: "send_ctx \<Rightarrow> iso_ctx \<times> iso_ctx \<times> effect list \<Rightarrow> iso_ctx \<times> iso_ctx \<times> effect list" where
  "unbind_send s p = (case p of (x, orph, out) \<Rightarrow>
     let s1 = s\<lparr>s_timer := None, s_work := False\<rparr> in
     if s_pending s1 = 0 then (put_send (free_send_ctx s1) x, orph, out @ [Sent_cb N_ERROR (s_addr s)])
     else (x\<lparr>send_list := filter (\<lambda>q. s_addr q \<noteq> s_addr s) (send_list x)\<rparr>,
           orph\<lparr>send_list := send_list orph @ [orphan_send_ctx s1]\<rparr>, out))"

definition isotp_fast_unbind :: "iso_ctx \<Rightarrow> iso_ctx \<Rightarrow> iso_ctx \<times> iso_ctx \<times> effect list" where
  "isotp_fast_unbind x orph =
     (let x1 = (if i_filter x \<ge> 0 \<and> i_dev x then x\<lparr>i_filter := -1\<rparr> else x);
          (x2, orph2) = fold unbind_recv (recv_list x1) (x1, orph)
      in fold unbind_send (send_list x2) (x2, orph2, []))"

subsection \<open>Header bytes\<close>

lemma hi4: "(0xF0 :: u8) = NOT (mask 4)" by (simp add: mask_eq_exp_minus_1)
lemma lo4: "(0x0F :: u8) = mask 4" by (simp add: mask_eq_exp_minus_1)

lemma or_hi_nibble:
  assumes "(x :: u8) AND 0x0F = x" "p AND 0x0F = 0"
  shows "(p OR x) AND 0xF0 = p AND 0xF0" "(p OR x) AND 0x0F = x"
proof -
  have "x AND 0xF0 = 0" using assms(1) by (metis hi4 lo4 and.assoc bit.conj_cancel_right and_zero_eq)
  then show "(p OR x) AND 0xF0 = p AND 0xF0" by (simp add: bit.conj_disj_distrib2)
  show "(p OR x) AND 0x0F = x" using assms by (simp add: bit.conj_disj_distrib2)
qed

lemma nibble_lo: "(ucast (n :: 4 word) :: u8) AND 0x0F = ucast n"
  unfolding lo4 by (rule bit_word_eqI) (auto simp: bit_simps dest: bit_imp_le_length)

lemma nibble_id: "(ucast (ucast (n :: 4 word) :: u8) :: 4 word) = n"
  by (rule bit_word_eqI) (auto simp: bit_simps)

lemma cf_pci:
  "(ISOTP_PCI_TYPE_CF OR ucast (n :: 4 word)) AND ISOTP_PCI_TYPE_MASK = ISOTP_PCI_TYPE_CF"
  "(ucast ((ISOTP_PCI_TYPE_CF OR ucast n) AND ISOTP_PCI_SN_MASK) :: 4 word) = n"
  using or_hi_nibble [OF nibble_lo [of n], of "0x20"] by (simp_all add: pci_defs nibble_id)

lemma len_hi: 
  assumes "(len :: u16) \<le> 0xFFF" shows "(ucast (drop_bit 8 len) :: u8) AND 0x0F = ucast (drop_bit 8 len)"
proof -
  have "unat len < 2 ^ 12" using assms by (simp add: word_le_nat_alt)
  then have "unat (drop_bit 8 len) < 16" by (simp add: unat_drop_bit_eq drop_bit_eq_div unat_div)
  then have "unat (ucast (drop_bit 8 len) :: u8) < 2 ^ 4"
    by (simp add: unsigned_ucast_eq take_bit_eq_mod)
  then show ?thesis unfolding lo4 take_bit_eq_mask [symmetric]
    by (subst unat_inj [symmetric]) (simp only: unsigned_take_bit_eq take_bit_nat_eq_self)
qed

lemma ff_length:
  "push_bit 8 (ucast (ucast (drop_bit 8 len) :: u8)) OR ucast (ucast (len :: u16) :: u8) = (ucast len :: u32)"
proof (rule bit_word_eqI)
  fix i assume "i < LENGTH(32)"
  show "bit (push_bit 8 (ucast (ucast (drop_bit 8 len) :: u8)) OR ucast (ucast len :: u8) :: u32) i = bit (ucast len :: u32) i"
    using bit_imp_le_length [of len i] by (cases "i < 8") (auto simp: bit_simps)
qed

lemma ff_length_zero: "(ucast (len :: u16) :: u32) = 0 \<longleftrightarrow> len = 0"
  by (metis ucast_u16_u32_inj unsigned_0)

end
