(* ===== verification/IsoTpTransfer.thy ===== *)
theory IsoTpTransfer imports IsoTp begin

text \<open>
  Two nodes that exchange one message over IsoTp: a sender and a receiver on a bus that delivers the
  frames of each in order. A step is one run of a work item, one separation timer, one frame put on the bus
  (its completion callback and its reception are one event), in any order. No frame is lost and
  no supervision timer expires; the errors of the state machines are in the theory IsoTpErrors.
\<close>

record sys =
  z_snd :: iso_ctx
  z_rcv :: iso_ctx
  q_sr :: "can_frame list"
  q_rs :: "can_frame list"
  dlv :: "u8 list list"
  fin :: "isotp_result list"

fun sent_frames :: "effect list \<Rightarrow> can_frame list" where
  "sent_frames [] = []"
| "sent_frames (Can_send fr # out) = fr # sent_frames out"
| "sent_frames (_ # out) = sent_frames out"

fun received :: "effect list \<Rightarrow> u8 list list" where
  "received [] = []"
| "received (Recv_cb m a # out) = m # received out"
| "received (_ # out) = received out"

fun results :: "effect list \<Rightarrow> isotp_result list" where
  "results [] = []"
| "results (Sent_cb err a # out) = err # results out"
| "results (_ # out) = results out"

definition env_ok :: "config \<Rightarrow> env \<Rightarrow> bool" where
  "env_ok c e \<longleftrightarrow> e_send e = 0 \<and> length (e_junk e) = CAN_MAX_DLEN c \<and> e_slab e \<and> e_buf e"

text \<open>Zephyr's DLC functions: a frame has room for the bytes asked for, and the longest has the largest code.\<close>

definition driver :: "config \<Rightarrow> bool" where
  "driver c \<longleftrightarrow> (\<forall>n \<le> CAN_MAX_DLEN c. n \<le> of_dlc c (to_dlc c n) \<and> of_dlc c (to_dlc c n) \<le> CAN_MAX_DLEN c) \<and>
     to_dlc c (CAN_MAX_DLEN c) = ISOTP_FF_DL_MIN c"

inductive xfer :: "config \<Rightarrow> sys \<Rightarrow> sys \<Rightarrow> bool" for c where
  run_sender: "env_ok c e \<Longrightarrow> s \<in> set (send_list (z_snd z)) \<Longrightarrow> s_work s \<Longrightarrow> \<not> s_loop s \<Longrightarrow>
     send_work_handler c e s (z_snd z) = (x, out) \<Longrightarrow>
     xfer c z (z\<lparr>z_snd := x, q_sr := q_sr z @ sent_frames out, fin := fin z @ results out\<rparr>)"
| take_sem: "env_ok c e \<Longrightarrow> s \<in> set (send_list (z_snd z)) \<Longrightarrow> s_loop s \<Longrightarrow> s_sem s > 0 \<Longrightarrow>
     send_resume c (z_snd z) e s = (s1, out) \<Longrightarrow>
     xfer c z (z\<lparr>z_snd := put_send s1 (z_snd z), q_sr := q_sr z @ sent_frames out\<rparr>)"
| separation: "s \<in> set (send_list (z_snd z)) \<Longrightarrow> s_timer s = Some t \<Longrightarrow> t \<noteq> T_BS \<Longrightarrow>
     xfer c z (z\<lparr>z_snd := put_send (send_timeout_handler (s\<lparr>s_timer := None\<rparr>)) (z_snd z)\<rparr>)"
| data_frame: "env_ok c e \<Longrightarrow> q_sr z = fr # q \<Longrightarrow> s \<in> set (send_list (z_snd z)) \<Longrightarrow> s_addr s = f_id fr \<Longrightarrow>
     can_rx_callback c e fr (z_rcv z) = Some y \<Longrightarrow>
     xfer c z (z\<lparr>z_snd := put_send (send_can_tx_callback 0 s) (z_snd z), z_rcv := y, q_sr := q\<rparr>)"
| run_receiver: "env_ok c e \<Longrightarrow> r \<in> set (recv_list (z_rcv z)) \<Longrightarrow> r_work r \<Longrightarrow>
     receive_work_handler c e r (z_rcv z) = (y, out) \<Longrightarrow>
     xfer c z (z\<lparr>z_rcv := y, q_rs := q_rs z @ sent_frames out, dlv := dlv z @ received out\<rparr>)"
| fc_frame: "env_ok c e \<Longrightarrow> q_rs z = fr # q \<Longrightarrow> r \<in> set (recv_list (z_rcv z)) \<Longrightarrow>
     isotp_fast_get_reply_addr c (z_rcv z) (r_addr r) = f_id fr \<Longrightarrow>
     can_rx_callback c e fr (z_snd z) = Some x \<Longrightarrow>
     xfer c z (z\<lparr>z_snd := x, z_rcv := put_recv (receive_can_tx 0 r) (z_rcv z), q_rs := q\<rparr>)"

subsection \<open>What the frames carry\<close>

abbreviation ff_room :: "config \<Rightarrow> nat" where "ff_room c \<equiv> CAN_MAX_DLEN c - 2"
abbreviation cf_room :: "config \<Rightarrow> nat" where "cf_room c \<equiv> CAN_MAX_DLEN c - 1"

definition ff_ok :: "config \<Rightarrow> addr \<Rightarrow> u8 list \<Rightarrow> can_frame \<Rightarrow> bool" where
  "ff_ok c a d fr \<longleftrightarrow> f_id fr = a \<and> f_dlc fr = ISOTP_FF_DL_MIN c \<and> pci_type fr = ISOTP_PCI_TYPE_FF \<and>
     ucast (receive_get_ff_length (f_data fr)) = (of_nat (length d) :: 12 word) \<and>
     take (ff_room c) (drop 2 (f_data fr)) = take (ff_room c) d"

definition cf_ok :: "config \<Rightarrow> addr \<Rightarrow> 4 word \<Rightarrow> u8 list \<Rightarrow> can_frame \<Rightarrow> bool" where
  "cf_ok c a n rest fr \<longleftrightarrow> f_id fr = a \<and> pci_type fr = ISOTP_PCI_TYPE_CF \<and>
     ucast (f_data fr ! 0 AND ISOTP_PCI_SN_MASK) = n \<and>
     min (length rest) (cf_room c) = min (length rest) (of_dlc c (f_dlc fr) - 1) \<and> of_dlc c (f_dlc fr) > 0 \<and>
     take (min (length rest) (cf_room c)) (drop 1 (f_data fr)) = take (cf_room c) rest"

definition fc_ok :: "addr \<Rightarrow> opts \<Rightarrow> can_frame \<Rightarrow> bool" where
  "fc_ok b opt fr \<longleftrightarrow> f_id fr = b \<and> pci_type fr = ISOTP_PCI_TYPE_FC \<and>
     f_data fr ! 0 AND ISOTP_PCI_FS_MASK = ISOTP_PCI_FS_CTS \<and> f_data fr ! 1 = o_bs opt \<and> f_data fr ! 2 = o_stmin opt"

text \<open>A queue of consecutive frames takes the remaining bytes \<open>rest\<close> down to \<open>rest'\<close>.\<close>

fun stream :: "config \<Rightarrow> addr \<Rightarrow> 4 word \<Rightarrow> u8 list \<Rightarrow> can_frame list \<Rightarrow> u8 list \<Rightarrow> bool" where
  "stream c a n rest [] rest' \<longleftrightarrow> rest' = rest"
| "stream c a n rest (fr # q) rest' \<longleftrightarrow>
     rest \<noteq> [] \<and> cf_ok c a n rest fr \<and> stream c a (n + 1) (drop (cf_room c) rest) q rest'"

lemma stream_snoc:
  "stream c a n rest q rest' \<Longrightarrow> rest' \<noteq> [] \<Longrightarrow> cf_ok c a (n + of_nat (length q)) rest' fr \<Longrightarrow>
   stream c a n rest (q @ [fr]) (drop (cf_room c) rest')"
  by (induction q arbitrary: n rest) (auto simp: add.assoc)

lemma dlen [simp]: "0 < CAN_MAX_DLEN c" "2 \<le> CAN_MAX_DLEN c" "8 \<le> CAN_MAX_DLEN c" "CAN_MAX_DLEN c \<le> 64"
  "Suc 0 < CAN_MAX_DLEN c"
  by (simp_all add: CAN_MAX_DLEN_def)

lemma room_Suc [simp]: "Suc (Suc (CAN_MAX_DLEN c - 2)) = CAN_MAX_DLEN c" "Suc (Suc (CAN_MAX_DLEN c - Suc (Suc 0))) = CAN_MAX_DLEN c"
  by (simp_all add: CAN_MAX_DLEN_def)

lemma unat_len12: "n \<le> 4095 \<Longrightarrow> unat (of_nat n :: 12 word) = n"
  by (simp add: unsigned_of_nat take_bit_nat_eq_self)

lemma len12_zero: "n \<le> 4095 \<Longrightarrow> (of_nat n :: 12 word) = 0 \<longleftrightarrow> n = 0"
  using unat_len12 [of n] by auto

lemma unat_small32: "n \<le> 63 \<Longrightarrow> unat (of_nat n :: u32) = n"
  by (simp add: unsigned_of_nat take_bit_nat_eq_self)

lemma unat_len16: "n \<le> 4095 \<Longrightarrow> unat (ucast (of_nat n :: 12 word) :: u16) = n"
  by (simp add: unsigned_ucast_eq unat_len12 take_bit_nat_eq_self)

lemma len16_of_nat: "n \<le> 4095 \<Longrightarrow> (ucast (of_nat n :: 12 word) :: u16) = of_nat n"
  by (metis unat_len16 of_nat_unat ucast_id)

lemma len16_le: "n \<le> 4095 \<Longrightarrow> (ucast (of_nat n :: 12 word) :: u16) \<le> 0xFFF"
  by (simp add: word_le_nat_alt unat_len16)

lemma bytes_overwrite:
  "length ys \<le> length junk \<Longrightarrow> i < length ys \<Longrightarrow> overwrite junk 0 ys ! i = ys ! i"
  by (simp add: overwrite_def nth_append)

lemma drop_overwrite_front:
  "length ys + length zs \<le> length junk \<Longrightarrow>
   take (length zs) (drop (length ys) (overwrite junk 0 (ys @ zs))) = zs"
  by (simp add: overwrite_def)

lemma send_ff_sends:
  assumes d: "driver c" and e: "env_ok c e"
    and len: "length (s_data s) \<le> 4095" "length (s_data s) > ff_room c" and rem: "s_rem s = of_nat (length (s_data s))"
  obtains fr where "ff_ok c (s_addr s) (s_data s) fr"
    and "send_ff c x e s = (s\<lparr>s_sn := 1, s_rem := of_nat (length (drop (ff_room c) (s_data s))),
           s_data := drop (ff_room c) (s_data s), s_pending := s_pending s + 1\<rparr>, [Can_send fr], 0)"
proof -
  let ?l = "of_nat (length (s_data s)) :: u16"
  let ?h = "[ISOTP_PCI_TYPE_FF OR ucast (drop_bit 8 ?l), ucast ?l] :: u8 list"
  have l: "(ucast (s_rem s) :: u16) = ?l" using len(1) by (simp add: rem len16_of_nat)
  have le: "?l \<le> 0xFFF" using len16_le [OF len(1)] len16_of_nat [OF len(1)] by simp
  have u: "unat ?l = length (s_data s)" using len(1) by (simp add: unsigned_of_nat take_bit_nat_eq_self)
  have hdr: "ff_header ?l = ?h" using le by (simp add: ff_header_def not_less)
  let ?n = "ff_room c"
  let ?fr = "(prepare_frame x (s_addr s) (e_junk e))\<lparr>
     f_data := overwrite (e_junk e) 0 (?h @ take ?n (s_data s)), f_dlc := to_dlc c (CAN_MAX_DLEN c)\<rparr>"
  have j: "length (e_junk e) = CAN_MAX_DLEN c" using e by (simp add: env_ok_def)
  have b: "f_data ?fr ! 0 = ISOTP_PCI_TYPE_FF OR ucast (drop_bit 8 ?l)" "f_data ?fr ! 1 = ucast ?l"
    using len(2) j by (simp_all add: overwrite_def)
  have nib: "(ISOTP_PCI_TYPE_FF OR ucast (drop_bit 8 ?l)) AND 0xF0 = ISOTP_PCI_TYPE_FF AND 0xF0"
    "(ISOTP_PCI_TYPE_FF OR ucast (drop_bit 8 ?l)) AND 0x0F = ucast (drop_bit 8 ?l)"
    by (rule or_hi_nibble [OF len_hi [OF le]], simp add: pci_defs)+
  have "?l \<noteq> 0" using u len(2) by (metis gr_implies_not0 unsigned_0)
  then have ffl: "receive_get_ff_length (f_data ?fr) = ucast ?l"
    unfolding receive_get_ff_length_def b Let_def ISOTP_PCI_FF_DL_UPPER_MASK_def nib(2) ff_length
    by (simp add: ff_length_zero)
  have ok: "ff_ok c (s_addr s) (s_data s) ?fr"
    unfolding ff_ok_def pci_type_def b ffl ISOTP_PCI_TYPE_MASK_def nib
  proof (intro conjI)
    show "f_id ?fr = s_addr s" by (simp add: prepare_frame_def)
    show "f_dlc ?fr = ISOTP_FF_DL_MIN c" using d by (simp add: driver_def)
    show "ISOTP_PCI_TYPE_FF AND 0xF0 = ISOTP_PCI_TYPE_FF" by (simp add: pci_defs)
    show "ucast (ucast ?l :: u32) = (of_nat (length (s_data s)) :: 12 word)"
      by (subst unat_inj [symmetric]) (simp add: unsigned_ucast_eq u unsigned_of_nat take_bit_nat_eq_self len(1) le_less_trans)
    show "take ?n (drop 2 (f_data ?fr)) = take ?n (s_data s)"
      using drop_overwrite_front [of ?h "take ?n (s_data s)" "e_junk e"] len(2) j
      by (simp add: numeral_2_eq_2)
  qed
  have r: "s_rem s - of_nat ?n = of_nat (length (drop ?n (s_data s)))"
    using len(2) by (simp add: rem of_nat_diff)
  have m: "min (CAN_MAX_DLEN c - length ?h) (unat ?l) = ?n" using len(2) u by (simp add: numeral_2_eq_2)
  have e0: "e_send e = 0" using e by (simp add: env_ok_def)
  show thesis
    by (rule that [OF ok]) (simp only: send_ff_def Let_def l hdr m r e0 send_ctx.simps simp_thms if_False)
qed

lemma send_cf_sends:
  assumes d: "driver c" and e: "env_ok c e"
    and len: "length (s_data s) \<le> 4095" and rem: "s_rem s = of_nat (length (s_data s))"
  obtains fr where "cf_ok c (s_addr s) (s_sn s) (s_data s) fr"
    and "send_cf c x e s = (s\<lparr>s_rem := of_nat (length (drop (cf_room c) (s_data s))),
           s_data := drop (cf_room c) (s_data s), s_pending := s_pending s + 1,
           s_sn := s_sn s + 1, s_bs := s_bs s - 1, s_backlog := s_backlog s + 1\<rparr>, [Can_send fr],
           int (length (drop (cf_room c) (s_data s))))"
proof -
  let ?n = "min (length (s_data s)) (cf_room c)"
  have u: "unat (s_rem s) = length (s_data s)" using len by (simp add: rem unat_len12)
  let ?fr = "(prepare_frame x (s_addr s) (e_junk e))\<lparr>
     f_data := overwrite (e_junk e) 0 ((ISOTP_PCI_TYPE_CF OR ucast (s_sn s)) # take ?n (s_data s)),
     f_dlc := to_dlc c (?n + 1)\<rparr>"
  have j: "length (e_junk e) = CAN_MAX_DLEN c" using e by (simp add: env_ok_def)
  have n1: "?n + 1 \<le> CAN_MAX_DLEN c" using dlen(1) [of c] by linarith
  have b: "f_data ?fr ! 0 = ISOTP_PCI_TYPE_CF OR ucast (s_sn s)" by (simp add: overwrite_def)
  have dl: "?n + 1 \<le> of_dlc c (f_dlc ?fr)" "of_dlc c (f_dlc ?fr) \<le> CAN_MAX_DLEN c"
    using d n1 by (simp_all add: driver_def)
  have ok: "cf_ok c (s_addr s) (s_sn s) (s_data s) ?fr"
    unfolding cf_ok_def pci_type_def b cf_pci
  proof (intro conjI refl)
    show "f_id ?fr = s_addr s" by (simp add: prepare_frame_def)
    show "min (length (s_data s)) (cf_room c) = min (length (s_data s)) (of_dlc c (f_dlc ?fr) - 1)" using dl by linarith
    show "0 < of_dlc c (f_dlc ?fr)" using dl(1) by linarith
    show "take ?n (drop 1 (f_data ?fr)) = take (cf_room c) (s_data s)"
      using drop_overwrite_front [of "[ISOTP_PCI_TYPE_CF OR ucast (s_sn s)]" "take ?n (s_data s)" "e_junk e"] j n1
      by (simp add: min_def split: if_splits)
  qed
  have r: "s_rem s - of_nat ?n = of_nat (length (drop (cf_room c) (s_data s)))"
    by (cases "length (s_data s) \<le> cf_room c") (simp_all add: rem of_nat_diff)
  have ui: "uint (of_nat (length (drop (cf_room c) (s_data s))) :: 12 word) = int (length (drop (cf_room c) (s_data s)))"
    unfolding uint_nat using len by (subst unat_len12) simp_all
  have dr: "drop ?n (s_data s) = drop (cf_room c) (s_data s)" by (simp add: min_def)
  have e0: "e_send e = 0" using e by (simp add: env_ok_def)
  show thesis
    by (rule that [OF ok]) (simp only: send_cf_def Let_def u e0 r dr, simp add: ui [simplified])
qed

lemma process_ff_takes:
  assumes ok: "ff_ok c a d fr" and len: "length d > ff_room c" and f: "last (r_frags r) = []"
  shows "process_ff_sf c fr r = Some (r\<lparr>r_frags := butlast (r_frags r) @ [take (ff_room c) d],
     r_rem := of_nat (length (drop (ff_room c) d)), r_state := RX_PROCESS_FF, r_sn := 1\<rparr>)"
proof -
  have p: "pci_type fr = ISOTP_PCI_TYPE_FF" "f_dlc fr = ISOTP_FF_DL_MIN c" using ok by (simp_all add: ff_ok_def)
  have l: "ucast (receive_get_ff_length (f_data fr)) = (of_nat (length d) :: 12 word)" using ok by (simp add: ff_ok_def)
  have t: "take (ff_room c) (drop 2 (f_data fr)) = take (ff_room c) d" using ok by (simp add: ff_ok_def)
  have g: "2 + ff_room c \<le> CAN_MAX_DLEN c \<and> length (last (r_frags r)) + ff_room c \<le> CAN_MAX_DLEN c - 1"
    using dlen(2) [of c] by (simp add: f)
  have r: "(of_nat (length d) :: 12 word) - of_nat (ff_room c) = of_nat (length (drop (ff_room c) d))"
    using len by (simp add: of_nat_diff)
  show ?thesis
    using g by (simp add: process_ff_sf_def p l add_mem_def t f r [simplified])
qed

lemma process_cf_takes:
  assumes ok: "cf_ok c a (r_sn r) rest fr" and len: "length rest \<le> 4095" and rem: "r_rem r = of_nat (length rest)"
    and f: "last (r_frags r) = []"
  defines "r1 \<equiv> r\<lparr>r_timer := Some T_CR, r_sn := r_sn r + 1,
     r_frags := butlast (r_frags r) @ [take (cf_room c) rest], r_rem := of_nat (length (drop (cf_room c) rest))\<rparr>"
  shows "process_cf c x fr r = Some (if drop (cf_room c) rest = [] then r1\<lparr>r_state := RX_RECYCLE, r_work := True\<rparr>
     else if o_bs (i_opts x) \<noteq> 0 then
       (if r_bs r - 1 = 0 then r1\<lparr>r_bs := o_bs (i_opts x), r_state := RX_TRY_ALLOC\<rparr>
        else r1\<lparr>r_bs := r_bs r - 1\<rparr>) else r1)"
proof -
  let ?k = "min (length rest) (cf_room c)"
  have p: "pci_type fr = ISOTP_PCI_TYPE_CF" "ucast (f_data fr ! 0 AND ISOTP_PCI_SN_MASK) = r_sn r"
    using ok by (simp_all add: cf_ok_def)
  have t: "take ?k (drop 1 (f_data fr)) = take (cf_room c) rest" using ok unfolding cf_ok_def by blast
  have u: "uint (r_rem r) = int (length rest)" using len by (simp only: rem uint_nat unat_len12)
  have m: "min (int (length rest)) (int (of_dlc c (f_dlc fr)) - 1) = int ?k"
    using ok unfolding cf_ok_def by linarith
  let ?r = "r\<lparr>r_timer := Some T_CR, r_sn := r_sn r + 1\<rparr>"
  have dl: "cf_data_len c fr ?r = of_nat ?k"
    by (simp add: cf_data_len_def u m del: of_nat_min)
  have k: "?k \<le> 63" using dlen(4) [of c] by linarith
  have un: "unat (of_nat ?k :: u32) = ?k"
    by (rule unat_small32 [OF k])
  have am: "add_mem c fr 1 ?k ?r = Some (?r\<lparr>r_frags := butlast (r_frags r) @ [take (cf_room c) rest]\<rparr>)"
  proof -
    have "1 + ?k \<le> CAN_MAX_DLEN c" "0 + ?k \<le> CAN_MAX_DLEN c - 1" using dlen(1) [of c] by linarith+
    then show ?thesis unfolding add_mem_def by (simp only: recv_ctx.simps f list.size simp_thms if_True t) (simp add: f)
  qed
  have uc: "(ucast (of_nat ?k :: u32) :: 12 word) = of_nat ?k"
    by (metis un of_nat_unat ucast_id)
  have rr: "r_rem r - of_nat ?k = of_nat (length (drop (cf_room c) rest))"
    by (cases "length rest \<le> cf_room c") (simp_all add: rem of_nat_diff)
  have z: "(of_nat (length (drop (cf_room c) rest)) :: 12 word) = 0 \<longleftrightarrow> drop (cf_room c) rest = []"
    using len len12_zero [of "length (drop (cf_room c) rest)"] by simp
  show ?thesis
    unfolding process_cf_def p dl un am r1_def Let_def
    using rr z
    by (simp add: uc del: length_drop drop_eq_Nil of_nat_min One_nat_def drop_eq_Nil2)
qed

subsection \<open>The state machines when nothing fails\<close>

lemma fc_frame_ok:
  assumes "length junk = CAN_MAX_DLEN c"
  shows "fc_ok a (i_opts x) (fc_frame c x a junk ISOTP_PCI_FS_CTS)"
proof -
  have "3 \<le> length junk" using dlen(3) [of c] assms by linarith
  then show ?thesis
    by (simp add: fc_ok_def fc_frame_def prepare_frame_def pci_type_def overwrite_def pci_defs nth_append)
qed

lemma machine_alloc:
  assumes "r_state r = RX_TRY_ALLOC" "e_send e = 0"
  shows "receive_state_machine c x e r = (r\<lparr>r_pending := r_pending r + 1, r_timer := Some T_CR, r_state := RX_WAIT_CF\<rparr>,
     [Can_send (fc_frame c x (isotp_fast_get_reply_addr c x (r_addr r)) (e_junk e) ISOTP_PCI_FS_CTS)])"
  using assms by (simp add: receive_state_machine.simps receive_send_fc.simps Let_def)

lemma machine_ff:
  assumes "r_state r = RX_PROCESS_FF" "e_send e = 0" "o_bs (i_opts x) \<noteq> 0"
  shows "receive_state_machine c x e r = (r\<lparr>r_bs := o_bs (i_opts x), r_wft := ISOTP_WFT_FIRST,
       r_pending := r_pending r + 1, r_timer := Some T_CR, r_state := RX_WAIT_CF\<rparr>,
     [Can_send (fc_frame c x (isotp_fast_get_reply_addr c x (r_addr r)) (e_junk e) ISOTP_PCI_FS_CTS)])"
  using assms by (subst receive_state_machine.simps) (simp add: rx_overflow_def Let_def machine_alloc)

lemma machine_recycle:
  assumes "r_state r = RX_RECYCLE"
  shows "receive_state_machine c x e r =
     (free_recv_ctx (r\<lparr>r_state := RX_UNBOUND\<rparr>), [Recv_cb (concat (r_frags r)) (r_addr r)])"
  using assms by (simp add: receive_state_machine.simps)

lemma put_send_single:
  "send_list x = [s] \<Longrightarrow> s_addr s' = s_addr s \<Longrightarrow> s_frees s' = 0 \<Longrightarrow> put_send s' x = x\<lparr>send_list := [s']\<rparr>"
  "send_list x = [s] \<Longrightarrow> s_addr s' = s_addr s \<Longrightarrow> s_frees s' > 0 \<Longrightarrow> put_send s' x = x\<lparr>send_list := []\<rparr>"
  by (simp_all add: put_send_def)

lemma put_recv_single:
  "recv_list x = [r] \<Longrightarrow> r_addr r' = r_addr r \<Longrightarrow> r_frees r' = 0 \<Longrightarrow> put_recv r' x = x\<lparr>recv_list := [r']\<rparr>"
  "recv_list x = [r] \<Longrightarrow> r_addr r' = r_addr r \<Longrightarrow> r_frees r' > 0 \<Longrightarrow> put_recv r' x = x\<lparr>recv_list := []\<rparr>"
  by (simp_all add: put_recv_def)

lemma reply_lists [simp]:
  "isotp_fast_get_reply_addr c (x\<lparr>send_list := S\<rparr>) = isotp_fast_get_reply_addr c x"
  "isotp_fast_get_reply_addr c (x\<lparr>recv_list := R\<rparr>) = isotp_fast_get_reply_addr c x"
  by (simp_all add: isotp_fast_get_reply_addr_def fun_eq_iff split: addressing_mode.split)

subsection \<open>The phases of a transfer\<close>

definition base :: "config \<Rightarrow> addr \<Rightarrow> sys \<Rightarrow> bool" where
  "base c a z \<longleftrightarrow> i_opts (z_snd z) = i_opts (z_rcv z) \<and> o_bs (i_opts (z_rcv z)) \<noteq> 0 \<and>
     isotp_fast_get_reply_addr c (z_snd z) (isotp_fast_get_reply_addr c (z_rcv z) a) = a"

definition sok :: "addr \<Rightarrow> send_ctx \<Rightarrow> bool" where
  "sok a s \<longleftrightarrow> s_addr s = a \<and> s_frees s = 0 \<and> s_rem s = of_nat (length (s_data s))"

definition rok :: "addr \<Rightarrow> u8 list \<Rightarrow> recv_ctx \<Rightarrow> u8 list \<Rightarrow> bool" where
  "rok a d r rest \<longleftrightarrow> r_addr r = a \<and> r_frees r = 0 \<and> concat (r_frags r) @ rest = d \<and> r_rem r = of_nat (length rest)"

definition waiting :: "send_ctx \<Rightarrow> bool" where
  "waiting s \<longleftrightarrow> s_state s = TX_WAIT_FC \<and> \<not> s_loop s \<and> (s_timer s = None \<or> s_timer s = Some T_BS)"

text \<open>The sender between two consecutive frames, when something will make it go on.\<close>

definition sending :: "send_ctx \<Rightarrow> can_frame list \<Rightarrow> bool" where
  "sending s q \<longleftrightarrow>
     (s_state s = TX_SEND_CF \<and> s_bs s \<noteq> 0 \<and> s_loop s \<and> s_timer s = None \<and> (s_sem s > 0 \<or> q \<noteq> [])) \<or>
     (s_state s = TX_SEND_CF \<and> s_bs s \<noteq> 0 \<and> \<not> s_loop s \<and> s_timer s \<noteq> Some T_BS \<and> (s_work s \<or> s_timer s \<noteq> None)) \<or>
     (s_state s = TX_WAIT_ST \<and> s_bs s \<noteq> 0 \<and> \<not> s_loop s \<and> s_timer s = None \<and> (s_work s \<or> q \<noteq> [])) \<or>
     (waiting s \<and> s_bs s = 0 \<and> q \<noteq> [])"

definition pending_out :: "sys \<Rightarrow> bool" where
  "pending_out z \<longleftrightarrow> dlv z = [] \<and> fin z = []"

definition start_ph :: "addr \<Rightarrow> u8 list \<Rightarrow> sys \<Rightarrow> bool" where
  "start_ph a d z \<longleftrightarrow> (\<exists>s. send_list (z_snd z) = [s] \<and> recv_list (z_rcv z) = [] \<and> q_sr z = [] \<and> q_rs z = [] \<and>
     pending_out z \<and> sok a s \<and> s_state s = TX_SEND_FF \<and> s_work s \<and> \<not> s_loop s \<and> s_timer s = None \<and> s_data s = d)"

definition ff_ph :: "config \<Rightarrow> addr \<Rightarrow> u8 list \<Rightarrow> sys \<Rightarrow> bool" where
  "ff_ph c a d z \<longleftrightarrow> (\<exists>s fr. send_list (z_snd z) = [s] \<and> recv_list (z_rcv z) = [] \<and> q_sr z = [fr] \<and> q_rs z = [] \<and>
     pending_out z \<and> sok a s \<and> ff_ok c a d fr \<and> waiting s \<and> s_data s = drop (ff_room c) d \<and> s_sn s = 1)"

definition block_ph :: "addr \<Rightarrow> u8 list \<Rightarrow> sys \<Rightarrow> bool" where
  "block_ph a d z \<longleftrightarrow> (\<exists>s r. send_list (z_snd z) = [s] \<and> recv_list (z_rcv z) = [r] \<and> q_sr z = [] \<and> q_rs z = [] \<and>
     pending_out z \<and> sok a s \<and> rok a d r (s_data s) \<and> waiting s \<and> s_data s \<noteq> [] \<and> s_sn s = r_sn r \<and> r_work r \<and>
     (r_state r = RX_PROCESS_FF \<or> r_state r = RX_TRY_ALLOC \<and> r_bs r = o_bs (i_opts (z_rcv z))))"

definition fc_ph :: "config \<Rightarrow> addr \<Rightarrow> u8 list \<Rightarrow> sys \<Rightarrow> bool" where
  "fc_ph c a d z \<longleftrightarrow> (\<exists>s r fr. send_list (z_snd z) = [s] \<and> recv_list (z_rcv z) = [r] \<and> q_sr z = [] \<and> q_rs z = [fr] \<and>
     pending_out z \<and> sok a s \<and> rok a d r (s_data s) \<and> waiting s \<and> s_data s \<noteq> [] \<and> s_sn s = r_sn r \<and> \<not> r_work r \<and>
     fc_ok (isotp_fast_get_reply_addr c (z_rcv z) a) (i_opts (z_rcv z)) fr \<and>
     r_state r = RX_WAIT_CF \<and> r_bs r = o_bs (i_opts (z_rcv z)))"

definition flow :: "config \<Rightarrow> addr \<Rightarrow> u8 list \<Rightarrow> send_ctx \<Rightarrow> recv_ctx \<Rightarrow> can_frame list \<Rightarrow> bool" where
  "flow c a d s r q \<longleftrightarrow> sok a s \<and> r_state r = RX_WAIT_CF \<and> \<not> r_work r \<and> s_backlog s = of_nat (length q) \<and>
     s_sn s = r_sn r + of_nat (length q) \<and> (\<exists>rest. rok a d r rest \<and> stream c a (r_sn r) rest q (s_data s))"

definition cf_ph :: "config \<Rightarrow> addr \<Rightarrow> u8 list \<Rightarrow> sys \<Rightarrow> bool" where
  "cf_ph c a d z \<longleftrightarrow> (\<exists>s r. send_list (z_snd z) = [s] \<and> recv_list (z_rcv z) = [r] \<and> q_rs z = [] \<and> pending_out z \<and>
     flow c a d s r (q_sr z) \<and> s_data s \<noteq> [] \<and> unat (r_bs r) = unat (s_bs s) + length (q_sr z) \<and> sending s (q_sr z))"

definition tail_ph :: "config \<Rightarrow> addr \<Rightarrow> u8 list \<Rightarrow> sys \<Rightarrow> bool" where
  "tail_ph c a d z \<longleftrightarrow> (\<exists>s r. send_list (z_snd z) = [s] \<and> recv_list (z_rcv z) = [r] \<and> q_rs z = [] \<and> pending_out z \<and>
     flow c a d s r (q_sr z) \<and> s_data s = [] \<and> q_sr z \<noteq> [] \<and> length (q_sr z) \<le> unat (r_bs r) \<and>
     s_state s = TX_WAIT_BACKLOG \<and> \<not> s_loop s \<and> s_timer s = None)"

definition end_ph :: "addr \<Rightarrow> u8 list \<Rightarrow> sys \<Rightarrow> bool" where
  "end_ph a d z \<longleftrightarrow> q_sr z = [] \<and> q_rs z = [] \<and>
     ((\<exists>s. send_list (z_snd z) = [s] \<and> sok a s \<and> s_state s = TX_WAIT_FIN \<and> s_work s \<and> \<not> s_loop s \<and> s_timer s = None \<and> fin z = [])
       \<or> send_list (z_snd z) = [] \<and> fin z = [N_OK]) \<and>
     ((\<exists>r. recv_list (z_rcv z) = [r] \<and> rok a d r [] \<and> r_state r = RX_RECYCLE \<and> r_work r \<and> dlv z = [])
       \<or> recv_list (z_rcv z) = [] \<and> dlv z = [d])"

definition transfer_inv :: "config \<Rightarrow> addr \<Rightarrow> u8 list \<Rightarrow> sys \<Rightarrow> bool" where
  "transfer_inv c a d z \<longleftrightarrow> base c a z \<and> (start_ph a d z \<or> ff_ph c a d z \<or> block_ph a d z \<or> fc_ph c a d z \<or>
     cf_ph c a d z \<or> tail_ph c a d z \<or> end_ph a d z)"

definition complete :: "u8 list \<Rightarrow> sys \<Rightarrow> bool" where
  "complete d z \<longleftrightarrow> send_list (z_snd z) = [] \<and> recv_list (z_rcv z) = [] \<and> q_sr z = [] \<and> q_rs z = [] \<and>
     dlv z = [d] \<and> fin z = [N_OK]"

subsection \<open>Every step keeps the transfer in its phases\<close>

lemma base_lists [simp]:
  "base c a (z\<lparr>z_snd := (z_snd z)\<lparr>send_list := S\<rparr>, q_sr := q1, fin := f1\<rparr>) = base c a z"
  "base c a (z\<lparr>z_snd := (z_snd z)\<lparr>send_list := S\<rparr>, q_sr := q1\<rparr>) = base c a z"
  "base c a (z\<lparr>z_snd := (z_snd z)\<lparr>send_list := S\<rparr>, fin := f1\<rparr>) = base c a z"
  "base c a (z\<lparr>z_snd := (z_snd z)\<lparr>send_list := S\<rparr>\<rparr>) = base c a z"
  "base c a (z\<lparr>z_snd := (z_snd z)\<lparr>send_list := S\<rparr>, z_rcv := (z_rcv z)\<lparr>recv_list := R\<rparr>, q_sr := q1\<rparr>) = base c a z"
  "base c a (z\<lparr>z_rcv := (z_rcv z)\<lparr>recv_list := R\<rparr>, q_rs := q2, dlv := v\<rparr>) = base c a z"
  "base c a (z\<lparr>z_rcv := (z_rcv z)\<lparr>recv_list := R\<rparr>, q_rs := q2\<rparr>) = base c a z"
  "base c a (z\<lparr>z_rcv := (z_rcv z)\<lparr>recv_list := R\<rparr>, dlv := v\<rparr>) = base c a z"
  "base c a (z\<lparr>z_snd := (z_snd z)\<lparr>send_list := S\<rparr>, z_rcv := (z_rcv z)\<lparr>recv_list := R\<rparr>, q_rs := q2\<rparr>) = base c a z"
  by (simp_all add: base_def)

lemma unat_dec: "(w :: u8) \<noteq> 0 \<Longrightarrow> unat (w - 1) + 1 = unat w"
  using unat_minus_one [of w] by (metis One_nat_def Suc_pred' Suc_eq_plus1 unat_gt_0)

text \<open>One round of the sender's loop, from the middle of a block.\<close>

lemma round_keeps:
  assumes d: "driver c" and e: "env_ok c e" and len: "length d \<le> 4095"
    and fl: "flow c a d s r q" and ne: "s_data s \<noteq> []" and bs: "unat (r_bs r) = unat (s_bs s) + length q" "s_bs s \<noteq> 0"
    and st: "s_state s = TX_SEND_CF" "\<not> s_loop s" "s_timer s = None"
  obtains s1 fr where "send_cf_round c x e s = (s1, [Can_send fr])" "flow c a d s1 r (q @ [fr])"
    "s_addr s1 = s_addr s" "s_frees s1 = 0"
    "s_data s1 = [] \<and> length (q @ [fr]) \<le> unat (r_bs r) \<and> s_state s1 = TX_WAIT_BACKLOG \<and> \<not> s_loop s1 \<and> s_timer s1 = None \<or>
     s_data s1 \<noteq> [] \<and> unat (r_bs r) = unat (s_bs s1) + length (q @ [fr]) \<and> (o_bs (i_opts x) \<noteq> 0 \<longrightarrow> sending s1 (q @ [fr]))"
    "length (s_data s1) < length (s_data s)"
proof -
  obtain rest where so: "sok a s" and ro: "rok a d r rest" and str: "stream c a (r_sn r) rest q (s_data s)"
    and sn: "s_sn s = r_sn r + of_nat (length q)" and bl: "s_backlog s = of_nat (length q)"
    and rs: "r_state r = RX_WAIT_CF" "\<not> r_work r"
    using fl by (auto simp: flow_def)
  have ls: "length (s_data s) \<le> 4095"
  proof -
    have "length rest \<le> length d" using ro by (auto simp: rok_def)
    moreover have "length rest' \<le> length rest" if "stream c a n rest q rest'" for n rest rest'
      using that by (induction q arbitrary: n rest) (auto, metis diff_le_self le_trans length_drop)
    ultimately show ?thesis using str len by fastforce
  qed
  have rem: "s_rem s = of_nat (length (s_data s))" "s_addr s = a" "s_frees s = 0" using so by (auto simp: sok_def)
  obtain fr where ok: "cf_ok c a (s_sn s) (s_data s) fr" and cf: "send_cf c x e s = (s\<lparr>s_rem := of_nat (length (drop (cf_room c) (s_data s))),
           s_data := drop (cf_room c) (s_data s), s_pending := s_pending s + 1,
           s_sn := s_sn s + 1, s_bs := s_bs s - 1, s_backlog := s_backlog s + 1\<rparr>, [Can_send fr],
           int (length (drop (cf_room c) (s_data s))))"
    using send_cf_sends [OF d e ls rem(1), of x] rem(2) by metis
  let ?s = "s\<lparr>s_rem := of_nat (length (drop (cf_room c) (s_data s))),
           s_data := drop (cf_room c) (s_data s), s_pending := s_pending s + 1,
           s_sn := s_sn s + 1, s_bs := s_bs s - 1, s_backlog := s_backlog s + 1\<rparr>"
  have str2: "stream c a (r_sn r) rest (q @ [fr]) (drop (cf_room c) (s_data s))"
    using stream_snoc [OF str ne] ok sn by simp
  have f: "flow c a d s1 r (q @ [fr])" if "s_data s1 = s_data ?s" "s_rem s1 = s_rem ?s" "s_sn s1 = s_sn ?s" "s_backlog s1 = s_backlog ?s"
      "s_addr s1 = a" "s_frees s1 = 0" for s1
    unfolding flow_def using that ro rs str2 by (auto simp: sok_def sn bl add.commute add.left_commute)
  have b1: "unat (s_bs s - 1) + 1 = unat (s_bs s)" using bs(2)
    by (rule unat_dec)
  have sh: "length (drop (cf_room c) (s_data s)) < length (s_data s)"
    using ne dlen(2) [of c] unfolding length_drop by (intro diff_less) auto
  let ?s1 = "if drop (cf_room c) (s_data s) = [] then ?s\<lparr>s_state := TX_WAIT_BACKLOG\<rparr>
     else if o_bs (i_opts x) \<noteq> 0 \<and> s_bs ?s = 0 then ?s\<lparr>s_timer := Some T_BS, s_state := TX_WAIT_FC\<rparr>
     else if s_stmin ?s \<noteq> 0 then ?s\<lparr>s_state := TX_WAIT_ST\<rparr> else ?s\<lparr>s_loop := True\<rparr>"
  have rd: "send_cf_round c x e s = (?s1, [Can_send fr])"
    by (simp add: send_cf_round_def cf del: length_drop drop_eq_Nil drop_eq_Nil2)
  show thesis
  proof (rule that [OF rd])
    show "flow c a d ?s1 r (q @ [fr])" using rem by (intro f) auto
    show "s_addr ?s1 = s_addr s" "s_frees ?s1 = 0" using rem by auto
    show "length (s_data ?s1) < length (s_data s)" using sh by auto
    show "s_data ?s1 = [] \<and> length (q @ [fr]) \<le> unat (r_bs r) \<and> s_state ?s1 = TX_WAIT_BACKLOG \<and> \<not> s_loop ?s1 \<and> s_timer ?s1 = None \<or>
     s_data ?s1 \<noteq> [] \<and> unat (r_bs r) = unat (s_bs ?s1) + length (q @ [fr]) \<and> (o_bs (i_opts x) \<noteq> 0 \<longrightarrow> sending ?s1 (q @ [fr]))"
      using b1 bs st by (auto simp: sending_def waiting_def)
  qed
qed

text \<open>A weight that every step lowers: what is still to be sent, the frames under way and the work submitted.\<close>

fun tx_weight :: "tx_state \<Rightarrow> nat" where
  "tx_weight TX_SEND_FF = 40"
| "tx_weight TX_WAIT_ST = 4"
| "tx_weight TX_SEND_CF = 2"
| "tx_weight TX_WAIT_BACKLOG = 3"
| "tx_weight TX_WAIT_FIN = 2"
| "tx_weight _ = 0"

fun rx_weight :: "rx_state \<Rightarrow> nat" where
  "rx_weight RX_PROCESS_FF = 8"
| "rx_weight RX_TRY_ALLOC = 8"
| "rx_weight RX_RECYCLE = 3"
| "rx_weight _ = 0"

definition timer_weight :: "timeout option \<Rightarrow> nat" where
  "timer_weight t = (if t = None \<or> t = Some T_BS then 0 else 2)"

definition s_weight :: "send_ctx \<Rightarrow> nat" where
  "s_weight s = 40 * length (s_data s) + tx_weight (s_state s) + (if s_work s then 1 else 0) + timer_weight (s_timer s)"

definition r_weight :: "recv_ctx \<Rightarrow> nat" where
  "r_weight r = rx_weight (r_state r) + (if r_work r then 1 else 0)"

definition weight :: "sys \<Rightarrow> nat" where
  "weight z = sum_list (map s_weight (send_list (z_snd z))) + sum_list (map r_weight (recv_list (z_rcv z))) +
     14 * length (q_sr z) + 6 * length (q_rs z)"

lemma timer_weight_simps [simp]: "timer_weight None = 0" "timer_weight (Some T_BS) = 0" "timer_weight t \<le> 2"
  by (simp_all add: timer_weight_def)

definition good_step :: "config \<Rightarrow> addr \<Rightarrow> u8 list \<Rightarrow> sys \<Rightarrow> sys \<Rightarrow> bool" where
  "good_step c a d z z' \<longleftrightarrow> transfer_inv c a d z' \<and> weight z' < weight z"

lemma round_step:
  assumes d: "driver c" and e: "env_ok c e" and len: "length d \<le> 4095" and b: "base c a z"
    and ph: "send_list (z_snd z) = [s0]" "recv_list (z_rcv z) = [r]" "q_rs z = []" "pending_out z"
    and fl: "flow c a d s r (q_sr z)" and ne: "s_data s \<noteq> []" and bs: "unat (r_bs r) = unat (s_bs s) + length (q_sr z)" "s_bs s \<noteq> 0"
    and st: "s_state s = TX_SEND_CF" "\<not> s_loop s" "s_timer s = None"
    and s0: "s_addr s0 = s_addr s" "s_data s0 = s_data s"
    and rd: "send_cf_round c (z_snd z) e s = (s1, out)"
  shows "results out = []" "good_step c a d z (z\<lparr>z_snd := put_send s1 (z_snd z), q_sr := q_sr z @ sent_frames out\<rparr>)"
proof -
  obtain s' fr where rd': "send_cf_round c (z_snd z) e s = (s', [Can_send fr])" and fl': "flow c a d s' r (q_sr z @ [fr])"
    and ad: "s_addr s' = s_addr s" "s_frees s' = 0"
    and alt: "s_data s' = [] \<and> length (q_sr z @ [fr]) \<le> unat (r_bs r) \<and> s_state s' = TX_WAIT_BACKLOG \<and> \<not> s_loop s' \<and> s_timer s' = None \<or>
     s_data s' \<noteq> [] \<and> unat (r_bs r) = unat (s_bs s') + length (q_sr z @ [fr]) \<and> (o_bs (i_opts (z_snd z)) \<noteq> 0 \<longrightarrow> sending s' (q_sr z @ [fr]))"
    and sh: "length (s_data s') < length (s_data s)"
    using round_keeps [OF d e len fl ne bs st] by metis
  have eq: "s1 = s'" "out = [Can_send fr]" using rd rd' by auto
  then show "results out = []" by simp
  have ob: "o_bs (i_opts (z_snd z)) \<noteq> 0" using b by (auto simp: base_def)
  have ps: "put_send s' (z_snd z) = (z_snd z)\<lparr>send_list := [s']\<rparr>" using ph(1) ad s0(1) by (simp add: put_send_single)
  let ?z = "z\<lparr>z_snd := (z_snd z)\<lparr>send_list := [s']\<rparr>, q_sr := q_sr z @ [fr]\<rparr>"
  have "cf_ph c a d ?z \<or> tail_ph c a d ?z"
    using alt ob fl' ph by (auto simp: cf_ph_def tail_ph_def pending_out_def)
  then have "transfer_inv c a d ?z" using b by (auto simp: transfer_inv_def)
  moreover have "s_weight s' + 14 < s_weight s0"
  proof -
    have "tx_weight (s_state s') \<le> 4" using alt ob by (auto simp: sending_def waiting_def)
    moreover have "40 * length (s_data s') + 40 \<le> 40 * length (s_data s0)" using sh s0(2) by simp
    moreover have "timer_weight (s_timer s') \<le> 2" "(if s_work s' then 1 else 0) \<le> (1 :: nat)" by simp_all
    ultimately show ?thesis unfolding s_weight_def by linarith
  qed
  ultimately show "good_step c a d z (z\<lparr>z_snd := put_send s1 (z_snd z), q_sr := q_sr z @ sent_frames out\<rparr>)"
    using ph by (simp add: good_step_def eq ps weight_def)
qed

text \<open>The runs of the sender's work item, phase by phase.\<close>

lemma idle_run:
  assumes "send_state_machine c (z_snd z) e (s\<lparr>s_work := False\<rparr>) = (s1, out)" "send_list (z_snd z) = [s]" "s_work s"
    "s_frees s = 0" "s_state s = TX_WAIT_FC \<or> s_state s = TX_WAIT_BACKLOG"
    "transfer_inv c a d (z\<lparr>z_snd := (z_snd z)\<lparr>send_list := [s\<lparr>s_work := False\<rparr>]\<rparr>\<rparr>)"
  shows "good_step c a d z (z\<lparr>z_snd := put_send s1 (z_snd z), q_sr := q_sr z @ sent_frames out, fin := fin z @ results out\<rparr>)"
proof -
  let ?w = "s\<lparr>s_work := False\<rparr>"
  have "s1 = ?w" "out = []" using assms(1,5) by (auto simp: send_state_machine_def)
  then have "z\<lparr>z_snd := put_send s1 (z_snd z), q_sr := q_sr z @ sent_frames out, fin := fin z @ results out\<rparr> =
     z\<lparr>z_snd := (z_snd z)\<lparr>send_list := [?w]\<rparr>\<rparr>"
    using assms(2,4) by (simp add: put_send_single)
  then show ?thesis using assms(2,3,6) by (simp add: good_step_def weight_def s_weight_def)
qed

lemma start_run:
  assumes d: "driver c" and e: "env_ok c e" and len: "length d \<le> 4095" "length d > ff_room c" and b: "base c a z"
    and ph: "start_ph a d z" "send_list (z_snd z) = [s]"
    and m: "send_state_machine c (z_snd z) e (s\<lparr>s_work := False\<rparr>) = (s1, out)"
  shows "good_step c a d z (z\<lparr>z_snd := put_send s1 (z_snd z), q_sr := q_sr z @ sent_frames out, fin := fin z @ results out\<rparr>)"
proof -
  let ?w = "s\<lparr>s_work := False\<rparr>"
  have p: "recv_list (z_rcv z) = []" "q_sr z = []" "q_rs z = []" "pending_out z"
    "sok a s" "s_state s = TX_SEND_FF" "s_data s = d" "s_timer s = None" "\<not> s_loop s" using ph by (auto simp: start_ph_def)
  have l: "length (s_data ?w) \<le> 4095" "length (s_data ?w) > ff_room c" "s_rem ?w = of_nat (length (s_data ?w))"
    "s_addr s = a" "s_frees s = 0"
    using len p by (auto simp: sok_def)
  obtain fr where ok: "ff_ok c a d fr" and sf: "send_ff c (z_snd z) e ?w = (?w\<lparr>s_sn := 1,
         s_rem := of_nat (length (drop (ff_room c) d)), s_data := drop (ff_room c) d, s_pending := s_pending s + 1\<rparr>, [Can_send fr], 0)"
    using send_ff_sends [OF d e l(1,2,3), of "z_snd z"] p(7) l(4) by auto
  let ?s = "?w\<lparr>s_sn := 1, s_rem := of_nat (length (drop (ff_room c) d)), s_data := drop (ff_room c) d,
     s_pending := s_pending s + 1, s_timer := Some T_BS, s_state := TX_WAIT_FC\<rparr>"
  let ?z = "z\<lparr>z_snd := (z_snd z)\<lparr>send_list := [?s]\<rparr>, q_sr := [fr], fin := fin z\<rparr>"
  have sm: "s1 = ?s" "out = [Can_send fr]" using m p(6) sf by (auto simp: send_state_machine_def)
  have eq: "z\<lparr>z_snd := put_send s1 (z_snd z), q_sr := q_sr z @ sent_frames out, fin := fin z @ results out\<rparr> = ?z"
    using p(2) ph(2) l by (simp add: sm put_send_single)
  have "ff_ph c a d ?z" using p ok l by (auto simp: ff_ph_def sok_def waiting_def pending_out_def)
  moreover have "weight ?z < weight z"
  proof -
    have "length (drop (ff_room c) d) \<le> length d" unfolding length_drop by (rule diff_le_self)
    then have "s_weight ?s \<le> 40 * length d" by (simp add: s_weight_def del: length_drop)
    moreover have "40 * length d + 40 \<le> s_weight s" using p(6,7) by (simp add: s_weight_def)
    ultimately show ?thesis using p(1-3) ph(2) by (simp add: weight_def)
  qed
  ultimately show ?thesis using b unfolding eq by (simp add: good_step_def transfer_inv_def)
qed

lemma cf_run:
  assumes d: "driver c" and e: "env_ok c e" and len: "length d \<le> 4095" and b: "base c a z"
    and p: "send_list (z_snd z) = [s]" "recv_list (z_rcv z) = [r]" "q_rs z = []" "pending_out z"
      "flow c a d s r (q_sr z)" "s_data s \<noteq> []" "unat (r_bs r) = unat (s_bs s) + length (q_sr z)" "sending s (q_sr z)"
    and w: "s_work s" "\<not> s_loop s" and m: "send_state_machine c (z_snd z) e (s\<lparr>s_work := False\<rparr>) = (s1, out)"
  shows "good_step c a d z (z\<lparr>z_snd := put_send s1 (z_snd z), q_sr := q_sr z @ sent_frames out, fin := fin z @ results out\<rparr>)"
    (is "good_step c a d z ?z")
proof -
  let ?w = "s\<lparr>s_work := False\<rparr>"
  have so: "sok a s" using p(5) by (simp add: flow_def)
  from p(8) w(2) consider (cf) "s_state s = TX_SEND_CF" "s_bs s \<noteq> 0" | (st) "s_state s = TX_WAIT_ST" "s_bs s \<noteq> 0" "s_timer s = None"
    | (wt) "waiting s" by (auto simp: sending_def)
  then show ?thesis
  proof cases
    case cf
    let ?c = "?w\<lparr>s_timer := None\<rparr>"
    have fl: "flow c a d ?c r (q_sr z)" using p(5) by (auto simp: flow_def sok_def)
    have rd: "send_cf_round c (z_snd z) e ?c = (s1, out)" using m cf by (simp add: send_state_machine_def)
    have c: "s_data ?c \<noteq> []" "unat (r_bs r) = unat (s_bs ?c) + length (q_sr z)" "s_bs ?c \<noteq> 0" "s_state ?c = TX_SEND_CF"
      "\<not> s_loop ?c" "s_timer ?c = None" "s_addr s = s_addr ?c" "s_data s = s_data ?c"
      using p(6,7) cf w(2) by simp_all
    note r = round_step [OF d e len b p(1-4) fl c rd]
    have "?z = z\<lparr>z_snd := put_send s1 (z_snd z), q_sr := q_sr z @ sent_frames out\<rparr>" by (simp add: r(1))
    then show ?thesis using r(2) by simp
  next
    case st
    let ?s = "?w\<lparr>s_timer := Some (stmin_to_timeout (s_stmin s)), s_state := TX_SEND_CF\<rparr>"
    have nt: "stmin_to_timeout (s_stmin s) \<noteq> T_BS" by (simp add: stmin_to_timeout_def)
    have sm: "s1 = ?s" "out = []" using m st by (auto simp: send_state_machine_def)
    have eq: "?z = z\<lparr>z_snd := (z_snd z)\<lparr>send_list := [?s]\<rparr>\<rparr>"
      using p(1) so by (simp add: sm put_send_single sok_def)
    have "cf_ph c a d (z\<lparr>z_snd := (z_snd z)\<lparr>send_list := [?s]\<rparr>\<rparr>)"
      using p so st w(2) nt by (auto simp: cf_ph_def flow_def sok_def sending_def pending_out_def)
    moreover have "s_weight ?s < s_weight s" using st w(1) nt by (simp add: s_weight_def timer_weight_def)
    ultimately show ?thesis using b p(1) unfolding eq by (simp add: good_step_def transfer_inv_def weight_def)
  next
    case wt
    have "cf_ph c a d (z\<lparr>z_snd := (z_snd z)\<lparr>send_list := [?w]\<rparr>\<rparr>)"
      using p wt by (auto simp: cf_ph_def flow_def sok_def sending_def waiting_def pending_out_def)
    then show ?thesis using idle_run [OF m p(1) w(1)] b so wt by (auto simp: transfer_inv_def waiting_def sok_def)
  qed
qed

lemma fin_run:
  assumes b: "base c a z" and ph: "end_ph a d z" "s \<in> set (send_list (z_snd z))" "s_work s"
    and m: "send_state_machine c (z_snd z) e (s\<lparr>s_work := False\<rparr>) = (s1, out)"
  shows "good_step c a d z (z\<lparr>z_snd := put_send s1 (z_snd z), q_sr := q_sr z @ sent_frames out, fin := fin z @ results out\<rparr>)"
proof -
  have p: "send_list (z_snd z) = [s]" "sok a s" "s_state s = TX_WAIT_FIN" "fin z = []" using ph(1,2) by (auto simp: end_ph_def)
  let ?z = "z\<lparr>z_snd := (z_snd z)\<lparr>send_list := []\<rparr>, q_sr := q_sr z, fin := [N_OK]\<rparr>"
  have sm: "s1 = free_send_ctx (s\<lparr>s_work := False, s_timer := None, s_state := TX_STATE_RESET\<rparr>)" "out = [Sent_cb N_OK (s_addr s)]"
    using m p(3) by (auto simp: send_state_machine_def)
  have eq: "z\<lparr>z_snd := put_send s1 (z_snd z), q_sr := q_sr z @ sent_frames out, fin := fin z @ results out\<rparr> = ?z"
    using p by (simp add: sm put_send_single free_send_ctx_def)
  have "end_ph a d ?z" using ph(1) p by (auto simp: end_ph_def)
  then show ?thesis using b p ph(3) unfolding eq by (simp add: good_step_def transfer_inv_def weight_def s_weight_def)
qed

lemma keep_run_sender:
  assumes d: "driver c" and e: "env_ok c e" and len: "length d \<le> 4095" "length d > ff_room c"
    and inv: "transfer_inv c a d z" and s: "s \<in> set (send_list (z_snd z))" "s_work s" "\<not> s_loop s"
    and h: "send_work_handler c e s (z_snd z) = (x, out)"
  shows "good_step c a d z (z\<lparr>z_snd := x, q_sr := q_sr z @ sent_frames out, fin := fin z @ results out\<rparr>)"
proof -
  let ?w = "z\<lparr>z_snd := (z_snd z)\<lparr>send_list := [s\<lparr>s_work := False\<rparr>]\<rparr>\<rparr>"
  have b: "base c a z" using inv by (simp add: transfer_inv_def)
  obtain s1 where m: "send_state_machine c (z_snd z) e (s\<lparr>s_work := False\<rparr>) = (s1, out)" and x: "x = put_send s1 (z_snd z)"
    using h by (auto simp: send_work_handler_def split: prod.splits)
  have noop: ?thesis if "send_list (z_snd z) = [s]" "sok a s" "waiting s \<or> s_state s = TX_WAIT_BACKLOG" "transfer_inv c a d ?w"
    using that idle_run [OF m _ s(2)] by (auto simp: x sok_def waiting_def)
  from inv consider "start_ph a d z" | "ff_ph c a d z" | "block_ph a d z" | "fc_ph c a d z" | "cf_ph c a d z"
    | "tail_ph c a d z" | "end_ph a d z" by (auto simp: transfer_inv_def)
  then show ?thesis
  proof cases
    case 1
    then show ?thesis using start_run [OF d e len b 1 _ m] s(1) by (auto simp: start_ph_def x)
  next
    case 2
    then have "ff_ph c a d ?w" "send_list (z_snd z) = [s]" "sok a s" "waiting s"
      using s by (auto simp: ff_ph_def sok_def waiting_def pending_out_def)
    then show ?thesis using noop b by (auto simp: transfer_inv_def)
  next
    case 3
    then have "block_ph a d ?w" "send_list (z_snd z) = [s]" "sok a s" "waiting s"
      using s by (auto simp: block_ph_def sok_def waiting_def pending_out_def)
    then show ?thesis using noop b by (auto simp: transfer_inv_def)
  next
    case 4
    then have "fc_ph c a d ?w" "send_list (z_snd z) = [s]" "sok a s" "waiting s"
      using s by (auto simp: fc_ph_def sok_def waiting_def pending_out_def)
    then show ?thesis using noop b by (auto simp: transfer_inv_def)
  next
    case 5
    then show ?thesis using cf_run [OF d e len(1) b _ _ _ _ _ _ _ _ s(2,3) m] s(1) by (auto simp: cf_ph_def x)
  next
    case 6
    then have "tail_ph c a d ?w" "send_list (z_snd z) = [s]" "sok a s" "s_state s = TX_WAIT_BACKLOG"
      using s by (auto simp: tail_ph_def flow_def sok_def pending_out_def)
    then show ?thesis using noop b by (auto simp: transfer_inv_def)
  next
    case 7
    then show ?thesis using fin_run [OF b 7 s(1,2) m] by (simp add: x)
  qed
qed

text \<open>The other events: the semaphore, the separation timer, and the frames.\<close>

lemma keep_take_sem:
  assumes d: "driver c" and e: "env_ok c e" and len: "length d \<le> 4095"
    and inv: "transfer_inv c a d z" and s: "s \<in> set (send_list (z_snd z))" "s_loop s" "s_sem s > 0"
    and h: "send_resume c (z_snd z) e s = (s1, out)"
  shows "good_step c a d z (z\<lparr>z_snd := put_send s1 (z_snd z), q_sr := q_sr z @ sent_frames out\<rparr>)"
proof -
  have b: "base c a z" using inv by (simp add: transfer_inv_def)
  have "cf_ph c a d z" using inv s(1,2)
    by (auto simp: transfer_inv_def start_ph_def ff_ph_def block_ph_def fc_ph_def tail_ph_def end_ph_def waiting_def)
  then obtain r where p: "send_list (z_snd z) = [s]" "recv_list (z_rcv z) = [r]" "q_rs z = []" "pending_out z"
      "flow c a d s r (q_sr z)" "s_data s \<noteq> []" "unat (r_bs r) = unat (s_bs s) + length (q_sr z)" "sending s (q_sr z)"
    using s(1) by (auto simp: cf_ph_def)
  have cf: "s_state s = TX_SEND_CF" "s_bs s \<noteq> 0" "s_timer s = None"
    using p(8) s(2) by (auto simp: sending_def waiting_def)
  let ?c = "s\<lparr>s_sem := s_sem s - 1, s_loop := False\<rparr>"
  have fl: "flow c a d ?c r (q_sr z)" using p(5) by (auto simp: flow_def sok_def)
  have c: "s_data ?c \<noteq> []" "unat (r_bs r) = unat (s_bs ?c) + length (q_sr z)" "s_bs ?c \<noteq> 0" "s_state ?c = TX_SEND_CF"
    "\<not> s_loop ?c" "s_timer ?c = None" "s_addr s = s_addr ?c" "s_data s = s_data ?c"
    using p(6,7) cf by simp_all
  have rd: "send_cf_round c (z_snd z) e ?c = (s1, out)" using h s(2,3) by (simp add: send_resume_def)
  show ?thesis by (rule round_step [OF d e len b p(1-4) fl c rd])
qed

lemma keep_separation:
  assumes inv: "transfer_inv c a d z" and s: "s \<in> set (send_list (z_snd z))" "s_timer s = Some t" "t \<noteq> T_BS"
  shows "good_step c a d z (z\<lparr>z_snd := put_send (send_timeout_handler (s\<lparr>s_timer := None\<rparr>)) (z_snd z)\<rparr>)"
proof -
  have b: "base c a z" using inv by (simp add: transfer_inv_def)
  have "cf_ph c a d z" using inv s
    by (auto simp: transfer_inv_def start_ph_def ff_ph_def block_ph_def fc_ph_def tail_ph_def end_ph_def waiting_def)
  then obtain r where p: "send_list (z_snd z) = [s]" "recv_list (z_rcv z) = [r]" "q_rs z = []" "pending_out z"
      "flow c a d s r (q_sr z)" "s_data s \<noteq> []" "unat (r_bs r) = unat (s_bs s) + length (q_sr z)" "sending s (q_sr z)"
    using s(1) by (auto simp: cf_ph_def)
  have cf: "s_state s = TX_SEND_CF" "s_bs s \<noteq> 0" "\<not> s_loop s"
    using p(8) s(2,3) by (auto simp: sending_def waiting_def)
  let ?s = "s\<lparr>s_timer := None, s_work := True\<rparr>"
  have so: "s_frees s = 0" using p(5) by (auto simp: flow_def sok_def)
  have eq: "put_send (send_timeout_handler (s\<lparr>s_timer := None\<rparr>)) (z_snd z) = (z_snd z)\<lparr>send_list := [?s]\<rparr>"
    using p(1) cf so by (simp add: send_timeout_handler_def put_send_single)
  have "cf_ph c a d (z\<lparr>z_snd := (z_snd z)\<lparr>send_list := [?s]\<rparr>\<rparr>)"
    using p cf by (auto simp: cf_ph_def flow_def sok_def sending_def pending_out_def)
  moreover have "s_weight ?s < s_weight s" using s(2,3) by (simp add: s_weight_def timer_weight_def)
  ultimately show ?thesis using b p(1) unfolding eq by (simp add: good_step_def transfer_inv_def weight_def)
qed

lemma keep_run_receiver:
  assumes e: "env_ok c e" and inv: "transfer_inv c a d z" and r: "r \<in> set (recv_list (z_rcv z))" "r_work r"
    and h: "receive_work_handler c e r (z_rcv z) = (y, out)"
  shows "good_step c a d z (z\<lparr>z_rcv := y, q_rs := q_rs z @ sent_frames out, dlv := dlv z @ received out\<rparr>)"
    (is "good_step c a d z ?z")
proof -
  let ?w = "r\<lparr>r_work := False\<rparr>"
  have b: "base c a z" using inv by (simp add: transfer_inv_def)
  have e0: "e_send e = 0" "length (e_junk e) = CAN_MAX_DLEN c" using e by (auto simp: env_ok_def)
  have ob: "o_bs (i_opts (z_rcv z)) \<noteq> 0" using b by (simp add: base_def)
  obtain r1 where m: "receive_state_machine c (z_rcv z) e ?w = (r1, out)" and y: "y = put_recv r1 (z_rcv z)"
    using h by (auto simp: receive_work_handler_def split: prod.splits)
  from inv r consider "block_ph a d z" | "end_ph a d z"
    by (auto simp: transfer_inv_def start_ph_def ff_ph_def fc_ph_def cf_ph_def tail_ph_def flow_def)
  then show ?thesis
  proof cases
    case 1
    then obtain s where p: "send_list (z_snd z) = [s]" "recv_list (z_rcv z) = [r]" "q_sr z = []" "q_rs z = []"
      "pending_out z" "sok a s" "rok a d r (s_data s)" "waiting s" "s_data s \<noteq> []" "s_sn s = r_sn r"
      "r_state r = RX_PROCESS_FF \<or> r_state r = RX_TRY_ALLOC \<and> r_bs r = o_bs (i_opts (z_rcv z))"
      using r(1) by (auto simp: block_ph_def)
    let ?fr = "fc_frame c (z_rcv z) (isotp_fast_get_reply_addr c (z_rcv z) a) (e_junk e) ISOTP_PCI_FS_CTS"
    have ra: "r_addr r = a" "r_frees r = 0" using p(7) by (auto simp: rok_def)
    have q: "out = [Can_send ?fr]" "r_state r1 = RX_WAIT_CF" "r_bs r1 = o_bs (i_opts (z_rcv z))" "r_addr r1 = a" "r_frees r1 = 0"
      "r_frags r1 = r_frags r" "r_rem r1 = r_rem r" "r_sn r1 = r_sn r" "\<not> r_work r1"
      using p(11) m ra machine_ff [of ?w e "z_rcv z" c] machine_alloc [of ?w e c "z_rcv z"] e0(1) ob by auto
    have eq: "?z = z\<lparr>z_rcv := (z_rcv z)\<lparr>recv_list := [r1]\<rparr>, q_rs := [?fr], dlv := dlv z\<rparr>"
      using p(2,4) q ra by (simp add: y put_recv_single)
    have "fc_ph c a d (z\<lparr>z_rcv := (z_rcv z)\<lparr>recv_list := [r1]\<rparr>, q_rs := [?fr], dlv := dlv z\<rparr>)"
      using p q fc_frame_ok [OF e0(2)] by (auto simp: fc_ph_def rok_def pending_out_def)
    then show ?thesis using b p q r unfolding eq
      by (auto simp: good_step_def transfer_inv_def weight_def r_weight_def)
  next
    case 2
    then have p: "recv_list (z_rcv z) = [r]" "rok a d r []" "r_state r = RX_RECYCLE" "dlv z = []" using r(1) by (auto simp: end_ph_def)
    have q: "r1 = free_recv_ctx (?w\<lparr>r_state := RX_UNBOUND\<rparr>)" "out = [Recv_cb d a]"
      using m p machine_recycle [of ?w c "z_rcv z" e] by (auto simp: rok_def)
    have eq: "?z = z\<lparr>z_rcv := (z_rcv z)\<lparr>recv_list := []\<rparr>, q_rs := q_rs z, dlv := [d]\<rparr>"
      using p by (simp add: y q put_recv_single free_recv_ctx_def)
    have "end_ph a d (z\<lparr>z_rcv := (z_rcv z)\<lparr>recv_list := []\<rparr>, q_rs := q_rs z, dlv := [d]\<rparr>)"
      using 2 by (auto simp: end_ph_def)
    then show ?thesis using b p unfolding eq by (auto simp: good_step_def transfer_inv_def weight_def r_weight_def)
  qed
qed

lemma rx_first:
  assumes e: "env_ok c e" and y: "recv_list x = []" and ok: "ff_ok c a d fr" and len: "length d > ff_room c"
  obtains r where "can_rx_callback c e fr x = Some (x\<lparr>recv_list := [r]\<rparr>)" "rok a d r (drop (ff_room c) d)"
    "r_state r = RX_PROCESS_FF" "r_sn r = 1" "r_work r"
proof -
  let ?n = "new_recv_ctx a (e_recv_block e)"
  let ?r = "?n\<lparr>r_frags := [take (ff_room c) d], r_rem := of_nat (length (drop (ff_room c) d)),
     r_state := RX_PROCESS_FF, r_sn := 1, r_work := True\<rparr>"
  have id: "f_id fr = a" "pci_type fr = ISOTP_PCI_TYPE_FF" "ISOTP_PCI_TYPE_FF \<noteq> ISOTP_PCI_TYPE_FC"
    using ok by (auto simp: ff_ok_def pci_defs)
  have n: "r_frags ?n = [[]]" "r_state ?n = RX_WAIT_FF_SF" "r_addr ?n = a" "r_frees ?n = 0" by (simp_all add: new_recv_ctx_def)
  have "process_ff_sf c fr ?n = Some (?n\<lparr>r_frags := [take (ff_room c) d],
     r_rem := of_nat (length (drop (ff_room c) d)), r_state := RX_PROCESS_FF, r_sn := 1\<rparr>)"
    using process_ff_takes [OF ok len, of ?n] n(1) by simp
  then have "can_rx_callback c e fr x = Some (x\<lparr>recv_list := [?r]\<rparr>)"
    using e y n by (simp add: can_rx_callback_def id receive_can_rx_def get_recv_ctx_def env_ok_def Let_def put_recv_def)
  then show thesis using that [of ?r] n by (simp add: rok_def)
qed

lemma rx_consecutive:
  assumes e: "env_ok c e" and y: "recv_list x = [r]" and ok: "cf_ok c a (r_sn r) rest fr" and len: "length rest \<le> 4095"
    and r: "rok a d r rest" "r_state r = RX_WAIT_CF" "\<not> r_work r" and ob: "o_bs (i_opts x) \<noteq> 0"
  obtains r' where "can_rx_callback c e fr x = Some (x\<lparr>recv_list := [r']\<rparr>)" "rok a d r' (drop (cf_room c) rest)"
    "r_sn r' = r_sn r + 1"
    "(if drop (cf_room c) rest = [] then r_state r' = RX_RECYCLE \<and> r_work r'
      else if r_bs r = 1 then r_state r' = RX_TRY_ALLOC \<and> r_work r' \<and> r_bs r' = o_bs (i_opts x)
      else r_state r' = RX_WAIT_CF \<and> \<not> r_work r' \<and> r_bs r' = r_bs r - 1)"
proof -
  let ?f = "r\<lparr>r_frags := r_frags r @ [[]]\<rparr>"
  let ?r1 = "r\<lparr>r_timer := Some T_CR, r_sn := r_sn r + 1,
     r_frags := r_frags r @ [take (cf_room c) rest], r_rem := of_nat (length (drop (cf_room c) rest))\<rparr>"
  let ?q = "if drop (cf_room c) rest = [] then ?r1\<lparr>r_state := RX_RECYCLE, r_work := True\<rparr>
     else if r_bs r - 1 = 0 then ?r1\<lparr>r_bs := o_bs (i_opts x), r_state := RX_TRY_ALLOC\<rparr>
     else ?r1\<lparr>r_bs := r_bs r - 1\<rparr>"
  have ra: "r_addr r = a" "r_frees r = 0" "r_rem r = of_nat (length rest)" "concat (r_frags r) @ rest = d"
    using r(1) by (auto simp: rok_def)
  have id: "f_id fr = a" "pci_type fr = ISOTP_PCI_TYPE_CF" "ISOTP_PCI_TYPE_CF \<noteq> ISOTP_PCI_TYPE_FC"
    using ok by (auto simp: cf_ok_def pci_defs)
  obtain q where pc: "process_cf c x fr ?f = Some q" and q: "q = ?q"
    using process_cf_takes [of c a ?f rest fr x] ok len ra(3) ob by simp
  have get: "get_recv_ctx e a b x = (x\<lparr>recv_list := [?f]\<rparr>, Inr ?f)" for b
    using e y ra by (simp add: get_recv_ctx_def env_ok_def Let_def put_recv_def)
  let ?r = "if r_state q = RX_WAIT_CF then q else q\<lparr>r_work := True\<rparr>"
  have cb: "can_rx_callback c e fr x = Some (put_recv ?r (x\<lparr>recv_list := [?f]\<rparr>))"
    using r(2) by (simp add: can_rx_callback_def id receive_can_rx_def get pc)
  have "put_recv ?r (x\<lparr>recv_list := [?f]\<rparr>) = x\<lparr>recv_list := [?f]\<rparr>\<lparr>recv_list := [?r]\<rparr>"
  proof (rule put_recv_single(1))
    show "recv_list (x\<lparr>recv_list := [?f]\<rparr>) = [?f]" by simp
    show "r_addr ?r = r_addr ?f" "r_frees ?r = 0" unfolding q using ra(2) by simp_all
  qed
  then have pr: "put_recv ?r (x\<lparr>recv_list := [?f]\<rparr>) = x\<lparr>recv_list := [?r]\<rparr>" by simp
  show thesis
  proof (rule that [of ?r])
    show "can_rx_callback c e fr x = Some (x\<lparr>recv_list := [?r]\<rparr>)" unfolding cb pr ..
    show "rok a d ?r (drop (cf_room c) rest)" unfolding q using ra by (simp add: rok_def)
    show "r_sn ?r = r_sn r + 1" unfolding q by simp
    show "(if drop (cf_room c) rest = [] then r_state ?r = RX_RECYCLE \<and> r_work ?r
      else if r_bs r = 1 then r_state ?r = RX_TRY_ALLOC \<and> r_work ?r \<and> r_bs ?r = o_bs (i_opts x)
      else r_state ?r = RX_WAIT_CF \<and> \<not> r_work ?r \<and> r_bs ?r = r_bs r - 1)"
      unfolding q using r(2,3) by simp
  qed
qed

lemma callback_fields:
  "s_addr (send_can_tx_callback err s) = s_addr s" "s_frees (send_can_tx_callback err s) = s_frees s"
  "s_data (send_can_tx_callback err s) = s_data s" "s_rem (send_can_tx_callback err s) = s_rem s"
  "s_sn (send_can_tx_callback err s) = s_sn s" "s_bs (send_can_tx_callback err s) = s_bs s"
  "s_loop (send_can_tx_callback err s) = s_loop s" "s_timer (send_can_tx_callback err s) = s_timer s"
  "s_sem (send_can_tx_callback err s) > 0" "s_backlog (send_can_tx_callback err s) = s_backlog s - 1"
  "s_state s \<noteq> TX_WAIT_BACKLOG \<Longrightarrow> s_state (send_can_tx_callback err s) = s_state s"
  "s_state s \<noteq> TX_WAIT_BACKLOG \<Longrightarrow> s_work (send_can_tx_callback err s)"
  "s_state s = TX_WAIT_BACKLOG \<Longrightarrow> s_backlog s \<noteq> 1 \<Longrightarrow> s_state (send_can_tx_callback err s) = TX_WAIT_BACKLOG \<and>
     s_work (send_can_tx_callback err s) = s_work s"
  "s_state s = TX_WAIT_BACKLOG \<Longrightarrow> s_backlog s = 1 \<Longrightarrow> s_state (send_can_tx_callback err s) = TX_WAIT_FIN \<and>
     s_work (send_can_tx_callback err s)"
  by (simp_all add: send_can_tx_callback_def Let_def word_gt_0)

lemma s_weight_callback: "s_weight (send_can_tx_callback err s) \<le> s_weight s + 1"
  by (simp add: send_can_tx_callback_def Let_def s_weight_def)

text \<open>The first frame arrives.\<close>

lemma first_frame:
  assumes e: "env_ok c e" and len: "length d > ff_room c" and b: "base c a z" and ph: "ff_ph c a d z"
    and q: "q_sr z = fr # q" and s: "s \<in> set (send_list (z_snd z))"
    and h: "can_rx_callback c e fr (z_rcv z) = Some y"
  shows "good_step c a d z (z\<lparr>z_snd := put_send (send_can_tx_callback 0 s) (z_snd z), z_rcv := y, q_sr := q\<rparr>)"
proof -
  have p: "send_list (z_snd z) = [s]" "recv_list (z_rcv z) = []" "q = []" "q_rs z = []" "pending_out z" "sok a s"
    "ff_ok c a d fr" "waiting s" "s_data s = drop (ff_room c) d" "s_sn s = 1"
    using ph q s by (auto simp: ff_ph_def)
  obtain r where cb: "can_rx_callback c e fr (z_rcv z) = Some ((z_rcv z)\<lparr>recv_list := [r]\<rparr>)" and r: "rok a d r (drop (ff_room c) d)"
    "r_state r = RX_PROCESS_FF" "r_sn r = 1" "r_work r"
    using rx_first [OF e p(2,7) len] .
  let ?s = "send_can_tx_callback 0 s"
  let ?z = "z\<lparr>z_snd := (z_snd z)\<lparr>send_list := [?s]\<rparr>, z_rcv := (z_rcv z)\<lparr>recv_list := [r]\<rparr>, q_sr := []\<rparr>"
  have st: "s_state s \<noteq> TX_WAIT_BACKLOG" using p(8) by (simp add: waiting_def)
  have ps: "put_send ?s (z_snd z) = (z_snd z)\<lparr>send_list := [?s]\<rparr>"
    using p(6) by (intro put_send_single(1) [OF p(1)]) (simp_all add: callback_fields sok_def)
  have "block_ph a d ?z"
    using p r st len by (auto simp: block_ph_def sok_def waiting_def pending_out_def callback_fields)
  moreover have "weight ?z < weight z"
    using p r q s_weight_callback [of 0 s] by (simp add: weight_def r_weight_def)
  moreover have "y = (z_rcv z)\<lparr>recv_list := [r]\<rparr>" using h cb by simp
  ultimately show ?thesis using b unfolding ps p(3) by (simp add: good_step_def transfer_inv_def)
qed

text \<open>A consecutive frame arrives, in the middle of the message or as its last one.\<close>

lemma flow_frame:
  assumes e: "env_ok c e" and len: "length d \<le> 4095" and b: "base c a z"
    and fl: "flow c a d s r (fr # q)" and y: "recv_list (z_rcv z) = [r]"
  obtains r' rest where "can_rx_callback c e fr (z_rcv z) = Some ((z_rcv z)\<lparr>recv_list := [r']\<rparr>)" "rok a d r' rest"
    "stream c a (r_sn r') rest q (s_data s)" "s_sn s = r_sn r' + of_nat (length q)" "s_backlog s - 1 = of_nat (length q)"
    "(if rest = [] then r_state r' = RX_RECYCLE \<and> r_work r'
      else if r_bs r = 1 then r_state r' = RX_TRY_ALLOC \<and> r_work r' \<and> r_bs r' = o_bs (i_opts (z_rcv z))
      else r_state r' = RX_WAIT_CF \<and> \<not> r_work r' \<and> r_bs r' = r_bs r - 1)"
proof -
  obtain rest where ro: "rok a d r rest" and str: "stream c a (r_sn r) rest (fr # q) (s_data s)"
    and sn: "s_sn s = r_sn r + of_nat (length (fr # q))" and bl: "s_backlog s = of_nat (length (fr # q))"
    and rs: "r_state r = RX_WAIT_CF" "\<not> r_work r"
    using fl by (auto simp: flow_def)
  have l: "length rest \<le> 4095" using ro len by (auto simp: rok_def)
  have ob: "o_bs (i_opts (z_rcv z)) \<noteq> 0" using b by (simp add: base_def)
  have ok: "cf_ok c a (r_sn r) rest fr" "stream c a (r_sn r + 1) (drop (cf_room c) rest) q (s_data s)" using str by auto
  show thesis
  proof (rule rx_consecutive [OF e y ok(1) l ro rs ob])
    fix r' assume h: "can_rx_callback c e fr (z_rcv z) = Some ((z_rcv z)\<lparr>recv_list := [r']\<rparr>)" "rok a d r' (drop (cf_room c) rest)"
      "r_sn r' = r_sn r + 1"
      "(if drop (cf_room c) rest = [] then r_state r' = RX_RECYCLE \<and> r_work r'
        else if r_bs r = 1 then r_state r' = RX_TRY_ALLOC \<and> r_work r' \<and> r_bs r' = o_bs (i_opts (z_rcv z))
        else r_state r' = RX_WAIT_CF \<and> \<not> r_work r' \<and> r_bs r' = r_bs r - 1)"
    show thesis by (rule that [OF h(1,2) _ _ _ h(4)]) (use ok(2) h(3) sn bl in simp_all)
  qed
qed

lemma middle_frame:
  assumes e: "env_ok c e" and len: "length d \<le> 4095" and b: "base c a z" and ph: "cf_ph c a d z"
    and q: "q_sr z = fr # q" and s: "s \<in> set (send_list (z_snd z))"
    and h: "can_rx_callback c e fr (z_rcv z) = Some y"
  shows "good_step c a d z (z\<lparr>z_snd := put_send (send_can_tx_callback 0 s) (z_snd z), z_rcv := y, q_sr := q\<rparr>)"
proof -
  obtain r where p: "send_list (z_snd z) = [s]" "recv_list (z_rcv z) = [r]" "q_rs z = []" "pending_out z"
    "flow c a d s r (fr # q)" "s_data s \<noteq> []" "unat (r_bs r) = unat (s_bs s) + length (fr # q)" "sending s (fr # q)"
    using ph s by (auto simp: cf_ph_def q)
  obtain r' rest where cb: "can_rx_callback c e fr (z_rcv z) = Some ((z_rcv z)\<lparr>recv_list := [r']\<rparr>)" and ro: "rok a d r' rest"
    and str: "stream c a (r_sn r') rest q (s_data s)" and sn: "s_sn s = r_sn r' + of_nat (length q)" "s_backlog s - 1 = of_nat (length q)"
    and st: "(if rest = [] then r_state r' = RX_RECYCLE \<and> r_work r'
      else if r_bs r = 1 then r_state r' = RX_TRY_ALLOC \<and> r_work r' \<and> r_bs r' = o_bs (i_opts (z_rcv z))
      else r_state r' = RX_WAIT_CF \<and> \<not> r_work r' \<and> r_bs r' = r_bs r - 1)"
    by (rule flow_frame [OF e len b p(5,2)])
  let ?s = "send_can_tx_callback 0 s"
  let ?z = "z\<lparr>z_snd := (z_snd z)\<lparr>send_list := [?s]\<rparr>, z_rcv := (z_rcv z)\<lparr>recv_list := [r']\<rparr>, q_sr := q\<rparr>"
  have so: "sok a s" using p(5) by (simp add: flow_def)
  then have so': "sok a ?s" by (simp add: sok_def callback_fields)
  have nb: "s_state s \<noteq> TX_WAIT_BACKLOG" using p(8) by (auto simp: sending_def waiting_def)
  have ps: "put_send ?s (z_snd z) = (z_snd z)\<lparr>send_list := [?s]\<rparr>"
    using so by (intro put_send_single(1) [OF p(1)]) (simp_all add: callback_fields sok_def)
  have rne: "rest \<noteq> []" using str p(6) by (cases q) auto
  have one: "r_bs r = 1 \<longleftrightarrow> s_bs s = 0 \<and> q = []"
  proof -
    have "r_bs r = 1 \<longleftrightarrow> unat (r_bs r) = 1" by (metis unat_inj unsigned_1)
    then show ?thesis using p(7) by (simp add: unat_eq_0)
  qed
  have "block_ph a d ?z \<or> cf_ph c a d ?z"
  proof (cases "r_bs r = 1")
    case True
    then have "waiting s" using one p(8) by (auto simp: sending_def)
    then have "block_ph a d ?z" using True one p(3,4,6) ro str sn(1) st so' rne nb
      by (auto simp: block_ph_def callback_fields waiting_def pending_out_def)
    then show ?thesis ..
  next
    case False
    have "r_bs r \<noteq> 0" using p(7) by auto
    then have u: "unat (r_bs r') = unat (s_bs s) + length q" using unat_dec [of "r_bs r"] p(7) False st rne by simp
    have "flow c a d ?s r' q" using so' ro str sn st rne False by (auto simp: flow_def callback_fields)
    moreover have "sending ?s q" using p(8) nb False one
      by (auto simp: sending_def waiting_def callback_fields)
    ultimately have "cf_ph c a d ?z" using p(3,4,6) u by (auto simp: cf_ph_def callback_fields pending_out_def)
    then show ?thesis ..
  qed
  moreover have "weight ?z < weight z"
  proof -
    have "r_weight r' \<le> 9" using st rne by (auto simp: r_weight_def split: if_splits)
    then show ?thesis using p(1,2) q s_weight_callback [of 0 s] by (simp add: weight_def)
  qed
  ultimately show ?thesis using b h cb unfolding ps by (auto simp: good_step_def transfer_inv_def)
qed

lemma last_frame:
  assumes e: "env_ok c e" and len: "length d \<le> 4095" and b: "base c a z" and ph: "tail_ph c a d z"
    and q: "q_sr z = fr # q" and s: "s \<in> set (send_list (z_snd z))"
    and h: "can_rx_callback c e fr (z_rcv z) = Some y"
  shows "good_step c a d z (z\<lparr>z_snd := put_send (send_can_tx_callback 0 s) (z_snd z), z_rcv := y, q_sr := q\<rparr>)"
proof -
  obtain r where p: "send_list (z_snd z) = [s]" "recv_list (z_rcv z) = [r]" "q_rs z = []" "pending_out z"
    "flow c a d s r (fr # q)" "s_data s = []" "length (fr # q) \<le> unat (r_bs r)" "s_state s = TX_WAIT_BACKLOG"
    "\<not> s_loop s" "s_timer s = None"
    using ph s by (auto simp: tail_ph_def q)
  obtain r' rest where cb: "can_rx_callback c e fr (z_rcv z) = Some ((z_rcv z)\<lparr>recv_list := [r']\<rparr>)" and ro: "rok a d r' rest"
    and str: "stream c a (r_sn r') rest q (s_data s)" and sn: "s_sn s = r_sn r' + of_nat (length q)" "s_backlog s - 1 = of_nat (length q)"
    and st: "(if rest = [] then r_state r' = RX_RECYCLE \<and> r_work r'
      else if r_bs r = 1 then r_state r' = RX_TRY_ALLOC \<and> r_work r' \<and> r_bs r' = o_bs (i_opts (z_rcv z))
      else r_state r' = RX_WAIT_CF \<and> \<not> r_work r' \<and> r_bs r' = r_bs r - 1)"
    by (rule flow_frame [OF e len b p(5,2)])
  let ?s = "send_can_tx_callback 0 s"
  let ?z = "z\<lparr>z_snd := (z_snd z)\<lparr>send_list := [?s]\<rparr>, z_rcv := (z_rcv z)\<lparr>recv_list := [r']\<rparr>, q_sr := q\<rparr>"
  have so: "sok a s" using p(5) by (simp add: flow_def)
  then have so': "sok a ?s" by (simp add: sok_def callback_fields)
  have ps: "put_send ?s (z_snd z) = (z_snd z)\<lparr>send_list := [?s]\<rparr>"
    using so by (intro put_send_single(1) [OF p(1)]) (simp_all add: callback_fields sok_def)
  have lq: "length q < 256" using p(7) unsigned_less [of "r_bs r", where ?'a = nat] by simp
  have bl: "s_backlog s = 1 \<longleftrightarrow> q = []"
  proof -
    have "s_backlog s = 1 \<longleftrightarrow> s_backlog s - 1 = 0" by simp
    also have "\<dots> \<longleftrightarrow> unat (of_nat (length q) :: u8) = 0" unfolding sn(2) by (simp add: unat_eq_0)
    also have "\<dots> \<longleftrightarrow> q = []" using lq by (simp add: unsigned_of_nat take_bit_nat_eq_self)
    finally show ?thesis .
  qed
  have rq: "rest = [] \<longleftrightarrow> q = []" using str p(6) by (cases q) auto
  have "tail_ph c a d ?z \<or> end_ph a d ?z"
  proof (cases "q = []")
    case True
    then have "end_ph a d ?z" using p(3,4,9,10) st rq bl so' ro callback_fields(14) [OF p(8)]
      by (auto simp: end_ph_def pending_out_def callback_fields(7,8))
    then show ?thesis ..
  next
    case False
    have r1: "r_bs r \<noteq> 1" "r_bs r \<noteq> 0"
    proof -
      have "unat (r_bs r) \<ge> 2" using p(7) False by (cases q) auto
      then show "r_bs r \<noteq> 1" "r_bs r \<noteq> 0" by auto
    qed
    have u: "length q \<le> unat (r_bs r')" using unat_dec [OF r1(2)] p(7) st rq False r1 by simp
    have "flow c a d ?s r' q" using so' ro str sn st rq False r1 by (auto simp: flow_def callback_fields)
    then have "tail_ph c a d ?z" using p False u bl callback_fields(13) [OF p(8)]
      by (auto simp: tail_ph_def callback_fields(3,7,8) pending_out_def)
    then show ?thesis ..
  qed
  moreover have "weight ?z < weight z"
  proof -
    have "r_weight r' \<le> 9" using st by (auto simp: r_weight_def split: if_splits)
    then show ?thesis using p(1,2) q s_weight_callback [of 0 s] by (simp add: weight_def)
  qed
  ultimately show ?thesis using b h cb unfolding ps by (auto simp: good_step_def transfer_inv_def)
qed

lemma keep_data_frame:
  assumes e: "env_ok c e" and len: "length d \<le> 4095" "length d > ff_room c" and inv: "transfer_inv c a d z"
    and q: "q_sr z = fr # q" and s: "s \<in> set (send_list (z_snd z))"
    and h: "can_rx_callback c e fr (z_rcv z) = Some y"
  shows "good_step c a d z (z\<lparr>z_snd := put_send (send_can_tx_callback 0 s) (z_snd z), z_rcv := y, q_sr := q\<rparr>)"
proof -
  have b: "base c a z" using inv by (simp add: transfer_inv_def)
  from inv q consider "ff_ph c a d z" | "cf_ph c a d z" | "tail_ph c a d z"
    by (auto simp: transfer_inv_def start_ph_def block_ph_def fc_ph_def end_ph_def)
  then show ?thesis
    by cases (rule first_frame [OF e len(2) b _ q s h] middle_frame [OF e len(1) b _ q s h] last_frame [OF e len(1) b _ q s h], assumption)+
qed

lemma rx_flow_control:
  assumes x: "send_list x = [s]" "s_addr s = isotp_fast_get_reply_addr c x b" "s_frees s = 0" "s_state s = TX_WAIT_FC"
    and ok: "fc_ok b opt fr"
  shows "can_rx_callback c e fr x = Some (x\<lparr>send_list := [s\<lparr>s_timer := None, s_state := TX_SEND_CF, s_wft := 0,
     s_backlog := 0, s_sem := 0, s_bs := o_bs opt, s_stmin := o_stmin opt, s_work := True\<rparr>]\<rparr>)"
proof -
  have id: "f_id fr = b" "pci_type fr = ISOTP_PCI_TYPE_FC" "f_data fr ! 0 AND ISOTP_PCI_FS_MASK = ISOTP_PCI_FS_CTS"
    "f_data fr ! 1 = o_bs opt" "f_data fr ! 2 = o_stmin opt"
    using ok by (auto simp: fc_ok_def)
  show ?thesis
    unfolding can_rx_callback_def id
    by (simp add: x(1) x(2) [symmetric] get_send_ctx_def send_can_rx_def x(4) send_process_fc_def id [simplified] x(3) put_send_def)
qed

lemma keep_fc_frame:
  assumes e: "env_ok c e" and inv: "transfer_inv c a d z"
    and q: "q_rs z = fr # q" and r: "r \<in> set (recv_list (z_rcv z))" and h: "can_rx_callback c e fr (z_snd z) = Some x"
  shows "good_step c a d z (z\<lparr>z_snd := x, z_rcv := put_recv (receive_can_tx 0 r) (z_rcv z), q_rs := q\<rparr>)"
proof -
  have b: "base c a z" using inv by (simp add: transfer_inv_def)
  have "fc_ph c a d z" using inv q
    by (auto simp: transfer_inv_def start_ph_def block_ph_def ff_ph_def cf_ph_def tail_ph_def end_ph_def)
  then obtain s where p: "send_list (z_snd z) = [s]" "recv_list (z_rcv z) = [r]" "q_sr z = []" "q = []"
     "pending_out z" "sok a s" "rok a d r (s_data s)" "waiting s" "s_data s \<noteq> []" "s_sn s = r_sn r" "\<not> r_work r"
     "fc_ok (isotp_fast_get_reply_addr c (z_rcv z) a) (i_opts (z_rcv z)) fr"
     "r_state r = RX_WAIT_CF" "r_bs r = o_bs (i_opts (z_rcv z))"
    using q r by (auto simp: fc_ph_def)
  let ?s = "s\<lparr>s_timer := None, s_state := TX_SEND_CF, s_wft := 0, s_backlog := 0, s_sem := 0,
     s_bs := o_bs (i_opts (z_rcv z)), s_stmin := o_stmin (i_opts (z_rcv z)), s_work := True\<rparr>"
  let ?r = "r\<lparr>r_pending := r_pending r - 1\<rparr>"
  have w: "s_state s = TX_WAIT_FC" "\<not> s_loop s" using p(8) by (auto simp: waiting_def)
  have so: "s_addr s = isotp_fast_get_reply_addr c (z_snd z) (isotp_fast_get_reply_addr c (z_rcv z) a)" "s_frees s = 0"
    using p(6) b by (auto simp: sok_def base_def)
  have x: "x = (z_snd z)\<lparr>send_list := [?s]\<rparr>" using h rx_flow_control [OF p(1) so w(1) p(12), of e] by simp
  have pr: "put_recv (receive_can_tx 0 r) (z_rcv z) = (z_rcv z)\<lparr>recv_list := [?r]\<rparr>"
    using p(7) by (simp add: receive_can_tx_def Let_def put_recv_def p(2) rok_def)
  let ?z = "z\<lparr>z_snd := (z_snd z)\<lparr>send_list := [?s]\<rparr>, z_rcv := (z_rcv z)\<lparr>recv_list := [?r]\<rparr>, q_rs := []\<rparr>"
  have ob: "o_bs (i_opts (z_rcv z)) \<noteq> 0" using b by (simp add: base_def)
  have "cf_ph c a d ?z" using p w ob
    by (auto simp: cf_ph_def flow_def sok_def rok_def sending_def pending_out_def)
  moreover have "weight ?z < weight z" using p(1-4) q w by (simp add: weight_def s_weight_def r_weight_def)
  ultimately show ?thesis using b unfolding pr x p(4) by (simp add: good_step_def transfer_inv_def)
qed

theorem step_keeps:
  assumes "driver c" "length d \<le> 4095" "length d > ff_room c" "transfer_inv c a d z" "xfer c z z'"
  shows "transfer_inv c a d z'" "weight z' < weight z"
proof -
  from assms(5) have "good_step c a d z z'"
  proof cases
    case run_sender then show ?thesis using keep_run_sender [OF assms(1) _ assms(2,3,4)] by simp
  next
    case take_sem then show ?thesis using keep_take_sem [OF assms(1) _ assms(2,4)] by simp
  next
    case separation then show ?thesis using keep_separation [OF assms(4)] by simp
  next
    case data_frame then show ?thesis using keep_data_frame [OF _ assms(2,3,4)] by simp
  next
    case run_receiver then show ?thesis using keep_run_receiver [OF _ assms(4)] by simp
  next
    case fc_frame then show ?thesis using keep_fc_frame [OF _ assms(4)] by simp
  qed
  then show "transfer_inv c a d z'" "weight z' < weight z" by (auto simp: good_step_def)
qed

subsection \<open>A transfer that is not complete can go on\<close>

lemma env_exists: "\<exists>e. env_ok c e"
  by (rule exI [of _ "\<lparr>e_send = 0, e_junk = replicate (CAN_MAX_DLEN c) 0, e_slab = True, e_buf = True,
     e_send_block = undefined, e_recv_block = undefined\<rparr>"]) (simp add: env_ok_def)

lemma can_run_sender: "s \<in> set (send_list (z_snd z)) \<Longrightarrow> s_work s \<Longrightarrow> \<not> s_loop s \<Longrightarrow> \<exists>z'. xfer c z z'"
  by (metis env_exists surj_pair xfer.run_sender)

lemma can_run_receiver: "r \<in> set (recv_list (z_rcv z)) \<Longrightarrow> r_work r \<Longrightarrow> \<exists>z'. xfer c z z'"
  by (metis env_exists surj_pair xfer.run_receiver)

lemma can_take_sem: "s \<in> set (send_list (z_snd z)) \<Longrightarrow> s_loop s \<Longrightarrow> s_sem s > 0 \<Longrightarrow> \<exists>z'. xfer c z z'"
  by (metis env_exists surj_pair xfer.take_sem)

lemma can_deliver:
  assumes len: "length d \<le> 4095" and b: "base c a z" and p: "send_list (z_snd z) = [s]" "recv_list (z_rcv z) = [r]"
    and fl: "flow c a d s r (q_sr z)" and q: "q_sr z \<noteq> []"
  shows "\<exists>z'. xfer c z z'"
proof -
  obtain e where e: "env_ok c e" using env_exists by blast
  obtain fr q' where fr: "q_sr z = fr # q'" using q by (cases "q_sr z") auto
  have fl': "flow c a d s r (fr # q')" using fl fr by simp
  obtain r' where "can_rx_callback c e fr (z_rcv z) = Some ((z_rcv z)\<lparr>recv_list := [r']\<rparr>)"
    by (rule flow_frame [OF e len b fl' p(2)])
  moreover have "s_addr s = f_id fr" using fl' by (auto simp: flow_def sok_def cf_ok_def)
  ultimately show ?thesis using xfer.data_frame [OF e fr, of s] p(1) by auto
qed

lemma progress:
  assumes len: "length d \<le> 4095" "length d > ff_room c" and inv: "transfer_inv c a d z" and nc: "\<not> complete d z"
  shows "\<exists>z'. xfer c z z'"
proof -
  have b: "base c a z" using inv by (simp add: transfer_inv_def)
  obtain e where e: "env_ok c e" using env_exists by blast
  from inv consider "start_ph a d z" | "ff_ph c a d z" | "block_ph a d z" | "fc_ph c a d z" | "cf_ph c a d z"
    | "tail_ph c a d z" | "end_ph a d z" by (auto simp: transfer_inv_def)
  then show ?thesis
  proof cases
    case 1
    then show ?thesis using can_run_sender [of _ z c] by (auto simp: start_ph_def)
  next
    case 2
    then obtain s fr where p: "send_list (z_snd z) = [s]" "recv_list (z_rcv z) = []" "q_sr z = [fr]" "sok a s" "ff_ok c a d fr"
      by (auto simp: ff_ph_def)
    obtain r where "can_rx_callback c e fr (z_rcv z) = Some ((z_rcv z)\<lparr>recv_list := [r]\<rparr>)"
      by (rule rx_first [OF e p(2,5) len(2)])
    moreover have "s_addr s = f_id fr" using p(4,5) by (simp add: sok_def ff_ok_def)
    ultimately show ?thesis using xfer.data_frame [OF e p(3), of s] p(1) by auto
  next
    case 3
    then show ?thesis using can_run_receiver [of _ z c] by (auto simp: block_ph_def)
  next
    case 4
    then obtain s r fr where p: "send_list (z_snd z) = [s]" "recv_list (z_rcv z) = [r]" "q_rs z = [fr]" "sok a s" "rok a d r (s_data s)"
      "waiting s" "fc_ok (isotp_fast_get_reply_addr c (z_rcv z) a) (i_opts (z_rcv z)) fr"
      by (auto simp: fc_ph_def)
    have so: "s_addr s = isotp_fast_get_reply_addr c (z_snd z) (isotp_fast_get_reply_addr c (z_rcv z) a)" "s_frees s = 0" "s_state s = TX_WAIT_FC"
      using p(4,6) b by (auto simp: sok_def base_def waiting_def)
    have "isotp_fast_get_reply_addr c (z_rcv z) (r_addr r) = f_id fr" using p(5,7) by (simp add: rok_def fc_ok_def)
    then show ?thesis using xfer.fc_frame [OF e p(3), of r] rx_flow_control [OF p(1) so p(7), of e] p(2) by auto
  next
    case 5
    then obtain s r where p: "send_list (z_snd z) = [s]" "recv_list (z_rcv z) = [r]" "flow c a d s r (q_sr z)" "sending s (q_sr z)"
      by (auto simp: cf_ph_def)
    have "s_work s \<and> \<not> s_loop s \<or> s_loop s \<and> s_sem s > 0 \<or> (\<exists>t. s_timer s = Some t \<and> t \<noteq> T_BS) \<or> q_sr z \<noteq> []"
      using p(4) by (auto simp: sending_def)
    then show ?thesis
      using can_run_sender [of s z c] can_take_sem [of s z c] xfer.separation [of s z _ c] can_deliver [OF len(1) b p(1-3)] p(1) by auto
  next
    case 6
    then show ?thesis using can_deliver [OF len(1) b] by (auto simp: tail_ph_def)
  next
    case 7
    then show ?thesis using nc can_run_sender [of _ z c] can_run_receiver [of _ z c]
      unfolding end_ph_def complete_def by fastforce
  qed
qed

lemma inv_outcome: "transfer_inv c a d z \<Longrightarrow> (dlv z = [] \<or> dlv z = [d]) \<and> (fin z = [] \<or> fin z = [N_OK])"
  by (auto simp: transfer_inv_def start_ph_def ff_ph_def block_ph_def fc_ph_def cf_ph_def tail_ph_def end_ph_def pending_out_def)

lemma run_keeps:
  assumes "driver c" "length d \<le> 4095" "length d > ff_room c" "transfer_inv c a d z0" "(xfer c ^^ n) z0 z"
  shows "transfer_inv c a d z \<and> n + weight z \<le> weight z0"
  using assms(5)
proof (induction n arbitrary: z)
  case 0
  then show ?case using assms(4) by simp
next
  case (Suc n)
  then obtain z1 where z1: "(xfer c ^^ n) z0 z1" "xfer c z1 z" by auto
  then show ?case using Suc.IH [OF z1(1)] step_keeps [OF assms(1-3) _ z1(2)] by fastforce
qed

lemma run_completes:
  assumes "driver c" "length d \<le> 4095" "length d > ff_room c" "transfer_inv c a d z"
  shows "\<exists>z'. (xfer c)\<^sup>*\<^sup>* z z' \<and> complete d z'"
  using assms(4)
proof (induction "weight z" arbitrary: z rule: less_induct)
  case less
  show ?case
  proof (cases "complete d z")
    case False
    then obtain z1 where z1: "xfer c z z1" using progress [OF assms(2,3) less.prems] by blast
    then obtain z' where "(xfer c)\<^sup>*\<^sup>* z1 z'" "complete d z'"
      using less.hyps step_keeps [OF assms(1-3) less.prems z1] by blast
    then show ?thesis using z1 by (meson converse_rtranclp_into_rtranclp)
  qed auto
qed

text \<open>The two nodes when the sender has been asked to send.\<close>

definition start_sys :: "iso_ctx \<Rightarrow> iso_ctx \<Rightarrow> sys" where
  "start_sys x y = \<lparr>z_snd = x, z_rcv = y, q_sr = [], q_rs = [], dlv = [], fin = []\<rparr>"

lemma send_starts:
  assumes d: "CAN_MAX_DLEN c - ISOTP_FAST_SF_LEN_BYTE c < length d" "length d \<le> 4095" and e: "env_ok c e"
    and x: "send_list x = []" and y: "recv_list y = []" and o: "i_opts x = i_opts y" "o_bs (i_opts y) \<noteq> 0"
    and rep: "isotp_fast_get_reply_addr c x (isotp_fast_get_reply_addr c y a) = a"
    and h: "isotp_fast_send c e d a x = (x1, out, res)"
  shows "out = []" "res = N_OK" "transfer_inv c a d (start_sys x1 y)" "weight (start_sys x1 y) = 40 * length d + 41"
proof -
  let ?s = "(new_send_ctx x a (e_send_block e))\<lparr>s_data := d, s_rem := of_nat (length d), s_work := True\<rparr>"
  have r: "x1 = x\<lparr>send_list := [?s]\<rparr>" "out = []" "res = N_OK"
    using h d x e by (auto simp: isotp_fast_send_def ISOTP_FAST_MAX_LEN_def get_send_ctx_def env_ok_def put_send_def new_send_ctx_def Let_def)
  show "out = []" "res = N_OK" by (fact r)+
  have "start_ph a d (start_sys x1 y)"
    using y by (auto simp: start_ph_def start_sys_def r pending_out_def sok_def new_send_ctx_def)
  then show "transfer_inv c a d (start_sys x1 y)" using o rep by (simp add: transfer_inv_def base_def start_sys_def r)
  show "weight (start_sys x1 y) = 40 * length d + 41"
    by (simp add: weight_def start_sys_def r y s_weight_def new_send_ctx_def)
qed


text \<open>Classic CAN with the J1939 addresses of Zephyr: a message of twenty bytes.\<close>

definition classic_can :: config where
  "classic_can = \<lparr>c_fd = False, to_dlc = (\<lambda>n. n), of_dlc = (\<lambda>n. min n 8), max_packets = 40, wftmax = 10,
     fixed_sa_mask = 0xFF, fixed_sa_pos = 0, fixed_ta_mask = 0xFF00, fixed_ta_pos = 8, fixed_prio_mask = 0x1C000000,
     fixed_rx_mask = 0x03FFFF00\<rparr>"

definition idle_node :: iso_ctx where
  "idle_node = \<lparr>send_list = [], recv_list = [], i_opts = \<lparr>o_bs = 8, o_stmin = 1, o_fdf = False, o_mode = MODE_FIXED, o_rx_mask = 0\<rparr>,
     i_rx_addr = 0x18000001, i_tx_addr = 0, i_filter = 0, i_dev = True, i_err_cb = True\<rparr>"

definition free_send :: send_ctx where
  "free_send = \<lparr>s_addr = 0, s_data = [], s_rem = 7, s_state = TX_ERR, s_error = N_ERROR, s_wft = 99, s_bs = 1, s_sn = 5,
     s_backlog = 3, s_stmin = 0, s_pending = 4, s_sem = 1, s_loop = False, s_work = False, s_timer = None, s_frees = 1\<rparr>"

definition free_recv :: recv_ctx where
  "free_recv = \<lparr>r_addr = 0, r_frags = [], r_rem = 7, r_state = RX_ERR, r_error = N_ERROR, r_wft = 99, r_bs = 1, r_sn = 5,
     r_pending = 4, r_work = False, r_timer = None, r_frees = 1\<rparr>"

definition env_can :: "nat \<Rightarrow> env" where
  "env_can n = \<lparr>e_send = 0, e_junk = replicate n 0xA5, e_slab = True, e_buf = True,
     e_send_block = free_send, e_recv_block = free_recv\<rparr>"

lemma classic_driver: "driver classic_can"
  by (simp add: driver_def classic_can_def CAN_MAX_DLEN_def ISOTP_FF_DL_MIN_def)

lemma classic_reply: "isotp_fast_get_reply_addr classic_can idle_node (isotp_fast_get_reply_addr classic_can idle_node 0x18002001) = 0x18002001"
  by code_simp


end
