(* ===== verification/IsoTpErrors.thy ===== *)
theory IsoTpErrors imports IsoTpTransfer CanFrame begin

text \<open>
  The addresses of IsoTp, and what its state machines do when something fails: lost and unexpected frames,
  a driver that refuses a frame, exhausted buffers, unbinding with frames still under way.
\<close>

subsection \<open>Reply addresses\<close>

text \<open>The masks of Zephyr's fixed addressing (SAE J1939).\<close>

definition j1939 :: "config \<Rightarrow> bool" where
  "j1939 c \<longleftrightarrow> fixed_sa_mask c = 0xFF \<and> fixed_sa_pos c = 0 \<and> fixed_ta_mask c = 0xFF00 \<and> fixed_ta_pos c = 8 \<and>
     fixed_prio_mask c = 0x1C000000"

lemma upt_29: "[0..<29] = [0, 1, 2, 3, 4, 5, 6, 7, 8, 9, 10, 11, 12, 13, 14, 15,
     16, 17, 18, 19, 20, 21, 22, 23, 24, 25, 26, 27, 28]"
  by code_simp

lemma addr_eq_bits: "(a :: addr) = b \<longleftrightarrow> (\<forall>i \<in> set [0, 1, 2, 3, 4, 5, 6, 7, 8, 9, 10, 11, 12, 13, 14, 15,
     16, 17, 18, 19, 20, 21, 22, 23, 24, 25, 26, 27, 28]. bit a i \<longleftrightarrow> bit b i)"
proof
  assume "\<forall>i \<in> set [0, 1, 2, 3, 4, 5, 6, 7, 8, 9, 10, 11, 12, 13, 14, 15,
     16, 17, 18, 19, 20, 21, 22, 23, 24, 25, 26, 27, 28]. bit a i \<longleftrightarrow> bit b i"
  then have h: "\<forall>i \<in> set [0..<29]. bit a i \<longleftrightarrow> bit b i" by (simp only: upt_29)
  show "a = b"
  proof (rule bit_word_eqI)
    fix i assume "i < LENGTH(29)"
    then show "bit a i \<longleftrightarrow> bit b i" using h by simp
  qed
qed simp

lemma create_addr: "cid_id (CanID_create (ucast (a :: addr))) = ucast a"
proof (cases "(ucast a :: u32) \<le> CAN_SFF_MASK")
  case True
  then have "unat (ucast a :: u32) < 2 ^ 11" by (simp add: CAN_SFF_MASK_def word_le_nat_alt)
  then have "take_bit 11 (ucast a :: u32) = ucast a"
    by (subst unat_inj [symmetric]) (simp only: unsigned_take_bit_eq take_bit_nat_eq_self)
  moreover have "CAN_SFF_MASK = mask 11" by (simp add: CAN_SFF_MASK_def mask_eq_exp_minus_1)
  ultimately show ?thesis using True by (simp add: CanID_create_def CanID_make_def Let_def take_bit_eq_mask)
next
  case False
  moreover have "CAN_EFF_MASK = mask 29" by (simp add: CAN_EFF_MASK_def mask_eq_exp_minus_1)
  moreover have "(ucast a :: u32) AND mask 29 = ucast a" by (rule bit_word_eqI) (auto simp: bit_simps dest: bit_imp_le_length)
  ultimately show ?thesis by (simp add: CanID_create_def CanID_make_def Let_def)
qed

lemma type_bits: "getMessageType (CanID_create (ucast (a :: addr))) = message_type_val requestResponse \<Longrightarrow> \<not> bit a 24 \<and> \<not> bit a 25"
  by (simp add: getMessageType_def create_addr mask_defs u32_eq_bits bit_simps)

lemma fixed_reply_bits:
  assumes "j1939 c"
  shows "isotp_fast_get_tx_addr_fixed c a = ucast (cid_id (getReplyId (CanID_create (ucast a)))) AND 0x1CFFFFFF"
  using assms unfolding addr_eq_bits
  by (simp add: isotp_fast_get_tx_addr_fixed_def Let_def j1939_def getReplyId_def setSource_def setTarget_def getSource_def getTarget_def
      mask_defs bit_simps create_addr)

text \<open>
  C29. A reply goes where it should: for the identifiers the library uses (requests and responses, whose
  type bits are zero), the reply address that ISO-TP computes from a 29-bit address by swapping
  source and target is the identifier that CanID's getReplyId gives, and replying twice leads back.
\<close>
theorem reply_addresses:
  assumes "j1939 c" "getMessageType (CanID_create (ucast (a :: addr))) = message_type_val requestResponse"
  shows "isotp_fast_get_tx_addr_fixed c a = ucast (cid_id (getReplyId (CanID_create (ucast a)))) \<and>
    isotp_fast_get_tx_addr_fixed c (isotp_fast_get_tx_addr_fixed c a) = a"
proof (rule conjI)
  note t = type_bits [OF assms(2)]
  show "isotp_fast_get_tx_addr_fixed c a = ucast (cid_id (getReplyId (CanID_create (ucast a))))"
    unfolding fixed_reply_bits [OF assms(1)] addr_eq_bits
    using t by (simp add: getReplyId_def setSource_def setTarget_def getSource_def getTarget_def mask_defs bit_simps create_addr)
  show "isotp_fast_get_tx_addr_fixed c (isotp_fast_get_tx_addr_fixed c a) = a"
    unfolding addr_eq_bits using t assms(1)
    by (simp add: isotp_fast_get_tx_addr_fixed_def Let_def j1939_def bit_simps)
qed

lemma reply_addresses_witness:
  "isotp_fast_get_tx_addr_fixed classic_can 0x18002001 = ucast (cid_id (getReplyId (CanID_create 0x18002001))) \<and>
   isotp_fast_get_tx_addr_fixed classic_can 0x18000120 = 0x18002001"
proof -
  have j: "j1939 classic_can" by (simp add: j1939_def classic_can_def)
  have t: "getMessageType (CanID_create (ucast (0x18002001 :: addr))) = message_type_val requestResponse" by code_simp
  have a: "isotp_fast_get_tx_addr_fixed classic_can 0x18002001 = 0x18000120" by code_simp
  show ?thesis using reply_addresses [OF j t] unfolding a by simp
qed

text \<open>isotp_fast_send_fixed masks the receive address with the target instead of putting the target in.\<close>

lemma send_fixed_address:
  assumes "j1939 c"
  shows "isotp_fast_get_tx_addr_fixed c (x AND ucast (t :: u8)) = push_bit 8 (x AND ucast t)"
proof -
  have t: "\<not> bit t n" if "8 \<le> n" for n using bit_imp_le_length [of t n] that by auto
  show ?thesis using assms unfolding addr_eq_bits
    by (simp add: isotp_fast_get_tx_addr_fixed_def Let_def j1939_def bit_simps t)
qed

subsection \<open>Bounds\<close>

lemma add_mem_fresh:
  assumes "last (r_frags r) = []" "i + n \<le> CAN_MAX_DLEN c" "0 < i"
  shows "add_mem c fr i n r = Some (r\<lparr>r_frags := butlast (r_frags r) @ [take n (drop i (f_data fr))]\<rparr>)"
  using assms by (auto simp: add_mem_def)

lemma process_ff_sf_total:
  assumes "last (r_frags r) = []"
  shows "process_ff_sf c fr r \<noteq> None"
proof -
  obtain len i where l: "receive_get_sf_length c (f_data fr) = (len, i)" by (cases "receive_get_sf_length c (f_data fr)")
  then have i: "0 < i" "i \<le> 2" by (auto simp: receive_get_sf_length_def Let_def split: if_splits)
  have "min n (CAN_MAX_DLEN c - i) + i \<le> CAN_MAX_DLEN c" for n using i dlen(2) [of c] by linarith
  then have sf: "add_mem c fr i (min n (CAN_MAX_DLEN c - i)) (r\<lparr>r_rem := w, r_state := RX_PROCESS_SF\<rparr>) \<noteq> None" for n w
    using add_mem_fresh [of "r\<lparr>r_rem := w, r_state := RX_PROCESS_SF\<rparr>" i "min n (CAN_MAX_DLEN c - i)" c fr] assms i
    by (simp add: add.commute)
  have ff: "add_mem c fr 2 (CAN_MAX_DLEN c - 2) (r\<lparr>r_rem := w, r_state := RX_PROCESS_FF, r_sn := 1\<rparr>) \<noteq> None" for w
    using add_mem_fresh [of "r\<lparr>r_rem := w, r_state := RX_PROCESS_FF, r_sn := 1\<rparr>" 2 "CAN_MAX_DLEN c - 2" c fr] assms
    by simp
  show ?thesis using sf ff by (auto simp: process_ff_sf_def Let_def l)
qed

lemma process_cf_total:
  assumes f: "last (r_frags r) = []" and d: "0 < of_dlc c (f_dlc fr)" "of_dlc c (f_dlc fr) \<le> CAN_MAX_DLEN c"
  shows "process_cf c x fr r \<noteq> None"
proof -
  let ?r = "r\<lparr>r_timer := Some T_CR, r_sn := r_sn r + 1\<rparr>"
  let ?k = "min (unat (r_rem r)) (of_dlc c (f_dlc fr) - 1)"
  have k: "1 + ?k \<le> CAN_MAX_DLEN c" "?k \<le> 63" using d dlen(4) [of c] by linarith+
  have "min (uint (r_rem r)) (int (of_dlc c (f_dlc fr)) - 1) = int ?k"
    unfolding uint_nat using d(1) by linarith
  then have "unat (cf_data_len c fr ?r) = ?k"
    using unat_small32 [OF k(2)] by (simp add: cf_data_len_def del: of_nat_min)
  then have "add_mem c fr 1 (unat (cf_data_len c fr ?r)) ?r \<noteq> None"
    using add_mem_fresh [of ?r 1 ?k c fr] f k(1) by simp
  then show ?thesis by (auto simp: process_cf_def Let_def split: option.splits)
qed

lemma fresh_fragment: "get_recv_ctx e a b x = (x1, Inr r) \<Longrightarrow> last (r_frags r) = []"
  by (auto simp: get_recv_ctx_def new_recv_ctx_def Let_def split: option.splits if_splits)


definition frame_of :: "addr \<Rightarrow> nat \<Rightarrow> u8 list \<Rightarrow> can_frame" where
  "frame_of a dlc bs = \<lparr>f_id = a, f_fdf = False, f_dlc = dlc, f_data = bs @ replicate (8 - length bs) 0\<rparr>"


text \<open>A consecutive frame of no bytes makes the length wrap to 2^32 - 1: the copy runs past the frame.\<close>

lemma empty_frame_overruns:
  assumes "pci_type fr = ISOTP_PCI_TYPE_CF" "ucast (f_data fr ! 0 AND ISOTP_PCI_SN_MASK) = r_sn r"
    "of_dlc c (f_dlc fr) = 0"
  shows "process_cf c x fr r = None" "cf_data_len c fr r = - 1"
proof -
  have m: "min (uint (r_rem r)) (- 1) = - 1" by (rule min_absorb2, rule order_trans [of _ 0]) simp_all
  then show l: "cf_data_len c fr r = - 1" using assms(3) by (simp add: cf_data_len_def)
  have "cf_data_len c fr (r\<lparr>r_timer := Some T_CR, r_sn := r_sn r + 1\<rparr>) = - 1" using m assms(3) by (simp add: cf_data_len_def)
  moreover have "unat (- 1 :: u32) = 2 ^ 32 - 1" by (simp add: unsigned_minus_1_eq_mask mask_eq_exp_minus_1)
  moreover have "\<not> 4294967296 \<le> CAN_MAX_DLEN c" using dlen(4) [of c] by linarith
  ultimately show "process_cf c x fr r = None"
    using assms by (simp add: process_cf_def Let_def add_mem_def)
qed

text \<open>A first frame that announces less than it carries makes the remaining length wrap.\<close>

lemma short_first_frame_wraps:
  assumes "pci_type fr = ISOTP_PCI_TYPE_FF" "f_dlc fr = ISOTP_FF_DL_MIN c" "last (r_frags r) = []"
    "ucast (receive_get_ff_length (f_data fr)) = (of_nat n :: 12 word)" "n < CAN_MAX_DLEN c - 2"
  shows "\<exists>r'. process_ff_sf c fr r = Some r' \<and> r_state r' = RX_PROCESS_FF \<and> unat (r_rem r') = 4096 + n - (CAN_MAX_DLEN c - 2)"
proof -
  let ?m = "CAN_MAX_DLEN c - 2"
  have m: "?m \<le> 62" "n < 62" using assms(5) dlen(4) [of c] by linarith+
  have "(of_nat n :: 12 word) - of_nat ?m = of_nat (4096 + n - ?m)"
  proof -
    have "(of_nat (4096 + n - ?m) :: 12 word) = of_nat (4096 + n) - of_nat ?m" using m by (intro of_nat_diff) simp
    then show ?thesis by simp
  qed
  moreover have "unat (of_nat (4096 + n - ?m) :: 12 word) = 4096 + n - ?m" using m assms(5) by (intro unat_len12) linarith
  ultimately show ?thesis
    using assms(1,2,4) add_mem_fresh [OF assms(3), of 2 ?m c fr] by (simp add: process_ff_sf_def Let_def add_mem_def assms(3))
qed

subsection \<open>Errors of the receiver\<close>

text \<open>What a bad frame in the middle of a message leaves the receive context with.\<close>

definition cf_error :: "can_frame \<Rightarrow> recv_ctx \<Rightarrow> isotp_result option" where
  "cf_error fr r = (if pci_type fr \<noteq> ISOTP_PCI_TYPE_CF then Some N_UNEXP_PDU
     else if ucast (f_data fr ! 0 AND ISOTP_PCI_SN_MASK) \<noteq> r_sn r then Some N_WRONG_SN else None)"

lemma process_cf_error:
  "cf_error fr r = Some err \<Longrightarrow> \<exists>r'. process_cf c x fr r = Some r' \<and> r_state r' = RX_ERR \<and> r_error r' = err \<and> r_work r' \<and>
     r_addr r' = r_addr r \<and> r_frees r' = r_frees r"
  unfolding cf_error_def process_cf_def receive_report_error_def Let_def
  by (simp split: if_split_asm)

lemma machine_error:
  "r_state r = RX_ERR \<Longrightarrow> r_error r \<noteq> N_BUFFER_OVERFLW \<Longrightarrow> i_err_cb x \<Longrightarrow>
   receive_state_machine c x e r = (free_recv_ctx (r\<lparr>r_timer := None, r_state := RX_UNBOUND\<rparr>), [Recv_error_cb (r_error r) (r_addr r)])"
  by (simp add: receive_state_machine.simps Let_def)

text \<open>
  C31. A bad frame ends a reception: while consecutive frames are awaited from a sender, a frame of another kind
  (but flow control) or one whose sequence number is not the next one puts the context in the error state; the work item
  then reports the error code once, with the sender's address, delivers nothing, sends
  nothing, and releases the context; and the same happens, with its own code, when the supervision timer runs out.
\<close>
theorem bad_frame_ends_reception:
  assumes "recv_list x = [r]" "r_state r = RX_WAIT_CF" "r_frees r = 0" "e_buf e" "i_err_cb x"
    "f_id fr = r_addr r" "pci_type fr \<noteq> ISOTP_PCI_TYPE_FC" "cf_error fr r = Some err"
  shows "(\<exists>r' y. can_rx_callback c e fr x = Some y \<and> recv_list y = [r'] \<and> r_work r' \<and>
      receive_work_handler c e r' y = (y\<lparr>recv_list := []\<rparr>, [Recv_error_cb err (r_addr r)])) \<and>
    receive_work_handler c e (receive_timeout_handler r) x = (x\<lparr>recv_list := []\<rparr>, [Recv_error_cb N_TIMEOUT_CR (r_addr r)])"
proof
  let ?f = "r\<lparr>r_frags := r_frags r @ [[]]\<rparr>"
  have g: "get_recv_ctx e (f_id fr) b x = (x\<lparr>recv_list := [?f]\<rparr>, Inr ?f)" for b
    using assms by (simp add: get_recv_ctx_def Let_def put_recv_def)
  have "cf_error fr ?f = cf_error fr r" by (simp add: cf_error_def)
  then have "cf_error fr ?f = Some err" using assms(8) by simp
  then obtain r' where p: "process_cf c x fr ?f = Some r'" "r_state r' = RX_ERR" "r_error r' = err" "r_work r'"
    "r_addr r' = r_addr r" "r_frees r' = 0"
    using process_cf_error [of fr ?f err c x] assms(3) by auto
  have err: "err \<noteq> N_BUFFER_OVERFLW" using assms(8) by (auto simp: cf_error_def split: if_splits)
  let ?y = "x\<lparr>recv_list := [r'\<lparr>r_work := True\<rparr>]\<rparr>"
  have "can_rx_callback c e fr x = Some ?y"
    using assms(2,7) p by (simp add: can_rx_callback_def receive_can_rx_def g put_recv_def)
  moreover have "receive_work_handler c e (r'\<lparr>r_work := True\<rparr>) ?y = (?y\<lparr>recv_list := []\<rparr>, [Recv_error_cb err (r_addr r)])"
    using p err assms(5) by (simp add: receive_work_handler_def machine_error free_recv_ctx_def put_recv_def)
  ultimately show "\<exists>r' y. can_rx_callback c e fr x = Some y \<and> recv_list y = [r'] \<and> r_work r' \<and>
      receive_work_handler c e r' y = (y\<lparr>recv_list := []\<rparr>, [Recv_error_cb err (r_addr r)])" by fastforce
  show "receive_work_handler c e (receive_timeout_handler r) x = (x\<lparr>recv_list := []\<rparr>, [Recv_error_cb N_TIMEOUT_CR (r_addr r)])"
    using assms(1,2,5) by (simp add: receive_timeout_handler_def receive_report_error_def receive_work_handler_def machine_error
        free_recv_ctx_def put_recv_def)
qed

definition midway :: recv_ctx where
  "midway = free_recv\<lparr>r_addr := 0x18002001, r_frags := [[1, 2, 3, 4, 5, 6]], r_rem := 14, r_state := RX_WAIT_CF, r_sn := 1, r_frees := 0\<rparr>"

lemma bad_frame_ends_reception_witness:
  "\<exists>r' y. can_rx_callback classic_can (env_can 8) (frame_of 0x18002001 8 [0x22, 7]) (idle_node\<lparr>recv_list := [midway]\<rparr>) = Some y \<and>
      recv_list y = [r'] \<and> r_work r' \<and>
      receive_work_handler classic_can (env_can 8) r' y = (y\<lparr>recv_list := []\<rparr>, [Recv_error_cb N_WRONG_SN 0x18002001])"
proof -
  have e: "cf_error (frame_of 0x18002001 8 [0x22, 7]) midway = Some N_WRONG_SN" by code_simp
  have t: "pci_type (frame_of 0x18002001 8 [0x22, 7]) \<noteq> ISOTP_PCI_TYPE_FC" by code_simp
  have m: "r_state midway = RX_WAIT_CF" "r_frees midway = 0" "r_addr midway = 0x18002001" by (simp_all add: midway_def)
  show ?thesis
    using bad_frame_ends_reception [OF _ m(1,2) _ _ _ t e, of "idle_node\<lparr>recv_list := [midway]\<rparr>" "env_can 8" classic_can]
    by (simp add: m(3) env_can_def idle_node_def frame_of_def)
qed

text \<open>
  When the driver refuses a flow control frame the context is released in the middle of the state machine, which
  then goes on with it: it starts the timer of a freed context, or frees it a second time.
\<close>

lemma refused_fc_use_after_free:
  assumes "r_state r = RX_TRY_ALLOC" "e_send e \<noteq> 0" "r_error r \<noteq> N_BUFFER_OVERFLW"
  shows "\<exists>r' out. receive_state_machine c x e r = (r', out) \<and> r_frees r' = r_frees r + 1 \<and> r_state r' = RX_WAIT_CF \<and> r_timer r' = Some T_CR"
  using assms by (simp add: receive_state_machine.simps receive_send_fc.simps Let_def receive_report_error_def free_recv_ctx_def)

lemma refused_overflow_double_free:
  assumes "r_state r = RX_ERR" "r_error r = N_BUFFER_OVERFLW" "e_send e \<noteq> 0"
  shows "r_frees (fst (receive_state_machine c x e r)) = r_frees r + 2"
  using assms by (simp add: receive_state_machine.simps receive_send_fc.simps Let_def receive_report_error_def free_recv_ctx_def)

subsection \<open>Errors of the sender\<close>

text \<open>
  C32. Errors of a transmission reach the caller: a sender that waits for flow control and gets a frame that says
  overflow, an unknown status, too many waits, or nothing before the timer runs out, reports that
  error once for its address when its work item runs, and gives the context back; a wait within the
  limit reports nothing and restarts the timer.
\<close>
definition fc_error :: "config \<Rightarrow> can_frame \<Rightarrow> send_ctx \<Rightarrow> isotp_result option" where
  "fc_error c fr s = (let fs = f_data fr ! 0 AND ISOTP_PCI_FS_MASK in
     if fs = ISOTP_PCI_FS_CTS then None
     else if fs = ISOTP_PCI_FS_WAIT then (if unat (s_wft s) \<ge> wftmax c then Some N_WFT_OVRN else None)
     else if fs = ISOTP_PCI_FS_OVFLW then Some N_BUFFER_OVERFLW else Some N_INVALID_FS)"

lemma send_can_rx_error:
  "pci_type fr = ISOTP_PCI_TYPE_FC \<Longrightarrow> s_state s = TX_WAIT_FC \<Longrightarrow> fc_error c fr s = Some err \<Longrightarrow>
   s_state (send_can_rx c fr s) = TX_ERR \<and> s_error (send_can_rx c fr s) = err \<and> s_work (send_can_rx c fr s) \<and>
   s_addr (send_can_rx c fr s) = s_addr s \<and> s_frees (send_can_rx c fr s) = s_frees s"
  unfolding fc_error_def send_can_rx_def send_process_fc_def send_report_error_def Let_def
  by (simp add: pci_defs split: if_split_asm)

lemma send_error_work:
  "send_list x = [s] \<Longrightarrow> s_state s = TX_ERR \<Longrightarrow>
   send_work_handler c e s x = (x\<lparr>send_list := []\<rparr>, [Sent_cb (s_error s) (s_addr s)])"
  by (simp add: send_work_handler_def send_state_machine_def free_send_ctx_def put_send_def)

theorem transmission_errors:
  assumes "send_list x = [s]" "s_state s = TX_WAIT_FC" "s_frees s = 0"
    "isotp_fast_get_reply_addr c x (f_id fr) = s_addr s" "pci_type fr = ISOTP_PCI_TYPE_FC" "fc_error c fr s = Some err"
  shows "(\<exists>s' y. can_rx_callback c e fr x = Some y \<and> send_list y = [s'] \<and> s_work s' \<and>
      send_work_handler c e s' y = (y\<lparr>send_list := []\<rparr>, [Sent_cb err (s_addr s)])) \<and>
    send_work_handler c e (send_timeout_handler s) (x\<lparr>send_list := [send_timeout_handler s]\<rparr>) =
      (x\<lparr>send_list := []\<rparr>, [Sent_cb N_TIMEOUT_BS (s_addr s)])"
proof
  let ?s = "send_can_rx c fr s"
  have p: "s_state ?s = TX_ERR" "s_error ?s = err" "s_work ?s" "s_addr ?s = s_addr s" "s_frees ?s = 0"
    using send_can_rx_error [OF assms(5,2,6)] assms(3) by simp_all
  have "can_rx_callback c e fr x = Some (x\<lparr>send_list := [?s]\<rparr>)"
    using assms(1,4,5) p(4,5) by (simp add: can_rx_callback_def get_send_ctx_def put_send_def)
  moreover have "send_work_handler c e ?s (x\<lparr>send_list := [?s]\<rparr>) = (x\<lparr>send_list := [?s]\<rparr>\<lparr>send_list := []\<rparr>, [Sent_cb err (s_addr s)])"
    using send_error_work [of "x\<lparr>send_list := [?s]\<rparr>" ?s] p by simp
  ultimately show "\<exists>s' y. can_rx_callback c e fr x = Some y \<and> send_list y = [s'] \<and> s_work s' \<and>
      send_work_handler c e s' y = (y\<lparr>send_list := []\<rparr>, [Sent_cb err (s_addr s)])" using p(3) by fastforce
  show "send_work_handler c e (send_timeout_handler s) (x\<lparr>send_list := [send_timeout_handler s]\<rparr>) =
      (x\<lparr>send_list := []\<rparr>, [Sent_cb N_TIMEOUT_BS (s_addr s)])"
    using send_error_work [of "x\<lparr>send_list := [send_timeout_handler s]\<rparr>" "send_timeout_handler s" c e] assms(2)
    by (simp add: send_timeout_handler_def send_report_error_def)
qed

definition awaiting :: send_ctx where
  "awaiting = free_send\<lparr>s_addr := 0x18002001, s_data := [7, 8], s_rem := 2, s_state := TX_WAIT_FC, s_frees := 0\<rparr>"

lemma transmission_errors_witness:
  "\<exists>s' y. can_rx_callback classic_can (env_can 8) (frame_of 0x18000120 3 [0x32]) (idle_node\<lparr>send_list := [awaiting]\<rparr>) = Some y \<and>
      send_list y = [s'] \<and> s_work s' \<and>
      send_work_handler classic_can (env_can 8) s' y = (y\<lparr>send_list := []\<rparr>, [Sent_cb N_BUFFER_OVERFLW 0x18002001])"
proof -
  have r: "isotp_fast_get_reply_addr classic_can (idle_node\<lparr>send_list := [awaiting]\<rparr>) (f_id (frame_of 0x18000120 3 [0x32])) = s_addr awaiting"
    by code_simp
  have e: "fc_error classic_can (frame_of 0x18000120 3 [0x32]) awaiting = Some N_BUFFER_OVERFLW" by code_simp
  have t: "pci_type (frame_of 0x18000120 3 [0x32]) = ISOTP_PCI_TYPE_FC" by code_simp
  have m: "s_state awaiting = TX_WAIT_FC" "s_frees awaiting = 0" "s_addr awaiting = 0x18002001" by (simp_all add: awaiting_def)
  show ?thesis using transmission_errors [OF _ m(1,2) r t e, of "env_can 8"] by (simp add: m(3))
qed

text \<open>
  When the driver refuses a consecutive frame and no completion is outstanding, nothing is left that would run the
  state machine: the error is never reported and the context never given back.
\<close>

lemma refused_cf_stuck:
  assumes "s_state s = TX_SEND_CF" "e_send e < 0" "s_pending s = 0" "\<not> s_loop s"
  shows "\<exists>s'. send_state_machine c x e (s\<lparr>s_work := False\<rparr>) = (s', []) \<and> s_state s' = TX_ERR \<and> \<not> s_work s' \<and> s_timer s' = None \<and>
     s_pending s' = 0 \<and> \<not> s_loop s' \<and> s_frees s' = s_frees s"
  using assms by (simp add: send_state_machine_def send_cf_round_def send_cf_def Let_def send_report_error_def)

text \<open>A context in the error state is freed although completions that point to it are outstanding.\<close>

lemma error_ignores_completions:
  assumes "s_state s = TX_ERR" "s_pending s = 2"
  shows "s_pending (fst (send_state_machine c x e s)) = 2 \<and> s_frees (fst (send_state_machine c x e s)) = s_frees s + 1"
  using assms by (simp add: send_state_machine_def free_send_ctx_def)

text \<open>A second message to the same address takes over the context of the first, in whatever state it is.\<close>

lemma send_overwrites:
  assumes "send_list x = [s]" "s_addr s = a" "s_frees s = 0" "CAN_MAX_DLEN c - ISOTP_FAST_SF_LEN_BYTE c < length d" "length d \<le> 4095"
  shows "isotp_fast_send c e d a x = (x\<lparr>send_list := [s\<lparr>s_data := d, s_rem := of_nat (length d), s_work := True\<rparr>]\<rparr>, [], N_OK)"
  using assms by (simp add: isotp_fast_send_def ISOTP_FAST_MAX_LEN_def get_send_ctx_def put_send_def)

subsection \<open>Unbinding\<close>

lemma fold_unbind_recv:
  assumes "distinct (map r_addr rs)" "recv_list x = rs @ keep" "\<forall>r \<in> set rs. r_frees r = 0"
    "\<forall>q \<in> set keep. r_addr q \<notin> r_addr ` set rs"
  shows "fold unbind_recv rs (x, orph) = (x\<lparr>recv_list := keep\<rparr>, orph\<lparr>recv_list := recv_list orph @
     map (\<lambda>r. orphan_recv_ctx (r\<lparr>r_timer := None, r_work := False\<rparr>)) (filter (\<lambda>r. r_pending r \<noteq> 0) rs)\<rparr>)"
  using assms
proof (induction rs arbitrary: x orph)
  case (Cons r rs)
  have rest: "filter (\<lambda>q. r_addr q \<noteq> r_addr r) (rs @ keep) = rs @ keep"
    using Cons.prems(1,4) by (intro filter_True) (force simp: image_iff)
  let ?x = "x\<lparr>recv_list := rs @ keep\<rparr>"
  let ?o = "if r_pending r = 0 then orph else orph\<lparr>recv_list := recv_list orph @ [orphan_recv_ctx (r\<lparr>r_timer := None, r_work := False\<rparr>)]\<rparr>"
  have step: "unbind_recv r (x, orph) = (?x, ?o)"
    using Cons.prems(2) rest by (simp add: unbind_recv_def Let_def put_recv_def free_recv_ctx_def)
  have "fold unbind_recv rs (?x, ?o) = (?x\<lparr>recv_list := keep\<rparr>, ?o\<lparr>recv_list := recv_list ?o @
     map (\<lambda>r. orphan_recv_ctx (r\<lparr>r_timer := None, r_work := False\<rparr>)) (filter (\<lambda>r. r_pending r \<noteq> 0) rs)\<rparr>)"
    using Cons.prems by (intro Cons.IH) auto
  then show ?case by (simp add: step)
qed simp

lemma fold_unbind_send:
  assumes "distinct (map s_addr ss)" "send_list x = ss @ keep" "\<forall>s \<in> set ss. s_frees s = 0"
    "\<forall>q \<in> set keep. s_addr q \<notin> s_addr ` set ss"
  shows "fold unbind_send ss (x, orph, out) = (x\<lparr>send_list := keep\<rparr>, orph\<lparr>send_list := send_list orph @
     map (\<lambda>s. orphan_send_ctx (s\<lparr>s_timer := None, s_work := False\<rparr>)) (filter (\<lambda>s. s_pending s \<noteq> 0) ss)\<rparr>,
     out @ map (\<lambda>s. Sent_cb N_ERROR (s_addr s)) (filter (\<lambda>s. s_pending s = 0) ss))"
  using assms
proof (induction ss arbitrary: x orph out)
  case (Cons s ss)
  have rest: "filter (\<lambda>q. s_addr q \<noteq> s_addr s) (ss @ keep) = ss @ keep"
    using Cons.prems(1,4) by (intro filter_True) (force simp: image_iff)
  let ?x = "x\<lparr>send_list := ss @ keep\<rparr>"
  let ?o = "if s_pending s = 0 then orph else orph\<lparr>send_list := send_list orph @ [orphan_send_ctx (s\<lparr>s_timer := None, s_work := False\<rparr>)]\<rparr>"
  let ?out = "if s_pending s = 0 then out @ [Sent_cb N_ERROR (s_addr s)] else out"
  have step: "unbind_send s (x, orph, out) = (?x, ?o, ?out)"
    using Cons.prems(2) rest by (simp add: unbind_send_def Let_def put_send_def free_send_ctx_def)
  have "fold unbind_send ss (?x, ?o, ?out) = (?x\<lparr>send_list := keep\<rparr>, ?o\<lparr>send_list := send_list ?o @
     map (\<lambda>s. orphan_send_ctx (s\<lparr>s_timer := None, s_work := False\<rparr>)) (filter (\<lambda>s. s_pending s \<noteq> 0) ss)\<rparr>,
     ?out @ map (\<lambda>s. Sent_cb N_ERROR (s_addr s)) (filter (\<lambda>s. s_pending s = 0) ss))"
    using Cons.prems by (intro Cons.IH) auto
  then show ?case by (simp add: step)
qed simp

text \<open>
  C33. Unbinding leaves nothing behind that the driver could still reach: it empties both lists and removes the filter; a
  context whose frames have all completed is released, and every such sender is told of an error once; a
  context the driver still points to goes to the orphanage with its timer stopped and its work cancelled.
\<close>
theorem unbind_hands_over:
  assumes "distinct (map r_addr (recv_list x))" "distinct (map s_addr (send_list x))"
    "\<forall>r \<in> set (recv_list x). r_frees r = 0" "\<forall>s \<in> set (send_list x). s_frees s = 0" "0 \<le> i_filter x" "i_dev x"
  shows "isotp_fast_unbind x orph =
    (x\<lparr>i_filter := -1, recv_list := [], send_list := []\<rparr>,
     orph\<lparr>recv_list := recv_list orph @
         map (\<lambda>r. r\<lparr>r_timer := None, r_work := False, r_state := RX_UNBOUND\<rparr>) (filter (\<lambda>r. r_pending r \<noteq> 0) (recv_list x)),
       send_list := send_list orph @
         map (\<lambda>s. s\<lparr>s_timer := None, s_work := False, s_state := TX_ERR, s_error := N_ERROR\<rparr>) (filter (\<lambda>s. s_pending s \<noteq> 0) (send_list x))\<rparr>,
     map (\<lambda>s. Sent_cb N_ERROR (s_addr s)) (filter (\<lambda>s. s_pending s = 0) (send_list x)))"
proof -
  let ?x = "x\<lparr>i_filter := -1\<rparr>"
  have r: "fold unbind_recv (recv_list x) (?x, orph) = (?x\<lparr>recv_list := []\<rparr>, orph\<lparr>recv_list := recv_list orph @
     map (\<lambda>r. orphan_recv_ctx (r\<lparr>r_timer := None, r_work := False\<rparr>)) (filter (\<lambda>r. r_pending r \<noteq> 0) (recv_list x))\<rparr>)"
    using assms by (intro fold_unbind_recv) auto
  let ?y = "?x\<lparr>recv_list := []\<rparr>"
  have s: "fold unbind_send (send_list x) (?y, orph', []) = (?y\<lparr>send_list := []\<rparr>, orph'\<lparr>send_list := send_list orph' @
     map (\<lambda>s. orphan_send_ctx (s\<lparr>s_timer := None, s_work := False\<rparr>)) (filter (\<lambda>s. s_pending s \<noteq> 0) (send_list x))\<rparr>,
     [] @ map (\<lambda>s. Sent_cb N_ERROR (s_addr s)) (filter (\<lambda>s. s_pending s = 0) (send_list x)))" for orph'
    using assms by (intro fold_unbind_send) auto
  show ?thesis using assms(5,6)
    by (simp add: isotp_fast_unbind_def r s orphan_recv_ctx_def orphan_send_ctx_def send_report_error_def)
qed

lemma unbind_hands_over_witness:
  "isotp_fast_unbind (idle_node\<lparr>recv_list := [midway], send_list := [awaiting\<lparr>s_pending := 0\<rparr>]\<rparr>) orphanage_init =
    (idle_node\<lparr>i_filter := -1\<rparr>,
     orphanage_init\<lparr>recv_list := [midway\<lparr>r_timer := None, r_work := False, r_state := RX_UNBOUND\<rparr>]\<rparr>,
     [Sent_cb N_ERROR 0x18002001])"
  using unbind_hands_over [of "idle_node\<lparr>recv_list := [midway], send_list := [awaiting\<lparr>s_pending := 0\<rparr>]\<rparr>" orphanage_init]
  by (simp add: idle_node_def midway_def awaiting_def free_recv_def orphanage_init_def)

text \<open>An orphaned receive context whose flow control frame completes is never released: nothing runs its state machine.\<close>

lemma orphan_never_freed:
  assumes "r = orphan_recv_ctx (r0\<lparr>r_timer := None, r_work := False\<rparr>)"
  shows "receive_can_tx 0 r = r\<lparr>r_pending := r_pending r - 1\<rparr>" "\<not> r_work (receive_can_tx 0 r)" "r_timer (receive_can_tx 0 r) = None"
    "fst (receive_state_machine c x e r) = r"
  using assms by (simp_all add: receive_can_tx_def orphan_recv_ctx_def receive_state_machine.simps)

end
