(* ===== verification/AddressClaim.thy ===== *)
theory AddressClaim imports CanFrame begin

text \<open>
  How a node gets its CAN address: bind and the address claimer of
  src/can/socketcan/ThingSetSocketCanInterface.cpp, src/can/ThingSetCanInterface.cpp, and the Zephyr interface
  src/can/zephyr/ThingSetZephyrCanInterface.cpp. A newcomer asks whether an address is taken; the owner answers with
  a claim; without an answer within half a second the newcomer claims the address, otherwise it draws another one.
  What the bus, the kernel and the random device answer in one round of the loop is a record; the loop itself, which
  may run forever, is shared by the two platforms, and the locale \<open>claim_rounds\<close> states what it needs of a round.
\<close>

subsection \<open>Frames\<close>

definition discover_id :: "u8 \<Rightarrow> u8 \<Rightarrow> can_id" where
  "discover_id a random = setMessagePriority networkManagement (setMessageType network
     (setRandomElement random (setTarget a (setSource anonymousAddress CanID_default))))"

definition claim_id :: "u8 \<Rightarrow> can_id" where
  "claim_id a = setMessagePriority networkManagement (setMessageType network
     (setTarget broadcastAddress (setSource a CanID_default)))"

definition claim_frame :: "u8 \<Rightarrow> u8 list \<Rightarrow> frame" where
  "claim_frame a eui = frame_make (claim_id a) eui"

definition discover_frame :: "u8 \<Rightarrow> u8 \<Rightarrow> frame" where
  "discover_frame a random = frame_make (discover_id a random) []"

subsection \<open>The loop of claim rounds\<close>

text \<open>A round ends the loop with an address (Inr) or goes on with the next one to try (Inl).\<close>

partial_function (option) claim_loop :: "('e \<Rightarrow> u8 \<Rightarrow> u8 + u8) \<Rightarrow> (nat \<Rightarrow> 'e) \<Rightarrow> nat \<Rightarrow> u8 \<Rightarrow> u8 option" where
  "claim_loop step env i a = (case step (env i) a of Inr b \<Rightarrow> Some b | Inl a' \<Rightarrow> claim_loop step env (Suc i) a')"

text \<open>The address tried in the i-th round, if the loop gets there.\<close>

fun address_at :: "('e \<Rightarrow> u8 \<Rightarrow> u8 + u8) \<Rightarrow> (nat \<Rightarrow> 'e) \<Rightarrow> u8 \<Rightarrow> nat \<Rightarrow> u8" where
  "address_at step env a 0 = a"
| "address_at step env a (Suc i) =
     (case step (env i) (address_at step env a i) of Inl a' \<Rightarrow> a' | Inr b \<Rightarrow> b)"

definition settles :: "('e \<Rightarrow> u8 \<Rightarrow> u8 + u8) \<Rightarrow> (nat \<Rightarrow> 'e) \<Rightarrow> u8 \<Rightarrow> nat \<Rightarrow> bool" where
  "settles step env a i \<longleftrightarrow> \<not> isl (step (env i) (address_at step env a i))"

locale claim_rounds =
  fixes step :: "'e \<Rightarrow> u8 \<Rightarrow> u8 + u8"
    and draw :: "'e \<Rightarrow> u8"
  assumes settled: "step e a = Inr b \<Longrightarrow> b = a"
    and moved: "step e a = Inl b \<Longrightarrow> b = a \<or> b = draw e"
begin

lemma settles_step: "settles step env a i \<Longrightarrow> step (env i) (address_at step env a i) = Inr (address_at step env a i)"
  using settled by (cases "step (env i) (address_at step env a i)") (auto simp: settles_def)

lemma goes_on: "\<not> settles step env a i \<Longrightarrow> step (env i) (address_at step env a i) = Inl (address_at step env a (Suc i))"
  by (cases "step (env i) (address_at step env a i)") (auto simp: settles_def)

lemma loop_skip:
  "(\<And>j. j < i \<Longrightarrow> \<not> settles step env a j) \<Longrightarrow> claim_loop step env 0 a = claim_loop step env i (address_at step env a i)"
proof (induction i)
  case (Suc i)
  have "claim_loop step env i (address_at step env a i) = claim_loop step env (Suc i) (address_at step env a (Suc i))"
    by (subst claim_loop.simps) (simp only: goes_on Suc.prems lessI not_False_eq_True sum.case)
  then show ?case using Suc by simp
qed simp

lemma loop_settles:
  assumes "settles step env a i" "\<And>j. j < i \<Longrightarrow> \<not> settles step env a j"
  shows "claim_loop step env 0 a = Some (address_at step env a i)"
proof -
  have "claim_loop step env i (address_at step env a i) = Some (address_at step env a i)"
    by (subst claim_loop.simps) (simp add: settles_step [OF assms(1)])
  then show ?thesis using loop_skip [OF assms(2)] by simp
qed

lemma loop_result:
  assumes "claim_loop f env k b = Some r"
  shows "f = step \<longrightarrow> b = address_at step env a k \<longrightarrow> (\<exists>i. settles step env a i)"
  using assms
proof (induction f env k b r rule: claim_loop.raw_induct [rotated, consumes 1, case_names 1])
  case (1 g f env k b r)
  show ?case
  proof (intro impI)
    assume f: "f = step" and b: "b = address_at step env a k"
    show "\<exists>i. settles step env a i"
    proof (cases "settles step env a k")
      case False
      then have "g step env (Suc k) (address_at step env a (Suc k)) = Some r"
        using 1(2) unfolding f b goes_on [OF False] by (simp del: address_at.simps)
      then show ?thesis using 1(1) by blast
    qed blast
  qed
qed

lemma loop_least:
  "\<exists>i. settles step env a i \<Longrightarrow>
   claim_loop step env 0 a = Some (address_at step env a (LEAST i. settles step env a i))"
  by (rule loop_settles) (auto intro: LeastI dest: not_less_Least)

lemma loop_returns: "claim_loop step env 0 a \<noteq> None \<longleftrightarrow> (\<exists>i. settles step env a i)"
proof
  assume "claim_loop step env 0 a \<noteq> None"
  then show "\<exists>i. settles step env a i" using loop_result [of step env 0 a _ a] by auto
next
  assume ex: "\<exists>i. settles step env a i"
  show "claim_loop step env 0 a \<noteq> None" using loop_least [OF ex] by simp
qed

lemma loop_address:
  assumes "claim_loop step env 0 a = Some b"
  shows "b = address_at step env a (LEAST i. settles step env a i)"
    "step (env (LEAST i. settles step env a i)) b = Inr b"
proof -
  have ex: "\<exists>i. settles step env a i" using assms loop_returns by fastforce
  show b: "b = address_at step env a (LEAST i. settles step env a i)"
    using loop_least [OF ex] assms by simp
  show "step (env (LEAST i. settles step env a i)) b = Inr b"
    using settles_step [OF LeastI_ex [OF ex]] by (simp add: b)
qed

lemma address_drawn: "address_at step env a i = a \<or> (\<exists>j < i. address_at step env a i = draw (env j))"
proof (induction i)
  case (Suc i)
  show ?case
  proof (cases "step (env i) (address_at step env a i)")
    case (Inl a')
    then show ?thesis using moved [OF Inl] Suc by (auto simp: less_Suc_eq)
  next
    case (Inr b)
    then show ?thesis using settled [OF Inr] Suc by (auto simp: less_Suc_eq)
  qed
qed simp

lemma loop_drawn: "claim_loop step env 0 a = Some b \<Longrightarrow> b = a \<or> (\<exists>j. b = draw (env j))"
  using loop_address(1) address_drawn by fastforce

end

subsection \<open>SocketCAN\<close>

text \<open>The result is that of the socket's write: the bytes written, or negative.\<close>

definition tryClaimAddress :: "u8 \<Rightarrow> u8 list \<Rightarrow> int \<Rightarrow> bool \<times> frame" where
  "tryClaimAddress a eui result = (result > 0, claim_frame a eui)"

definition claimer_filter :: "u8 \<Rightarrow> can_id" where
  "claimer_filter a = setMessageType network (setTarget a (setSource anonymousAddress CanID_default))"

text \<open>One turn of the claimer's thread: a frame that passes its filter is answered with a claim.\<close>

definition claimer_turn :: "u8 \<Rightarrow> u8 list \<Rightarrow> frame option \<Rightarrow> frame list" where
  "claimer_turn a eui fr = (case fr of None \<Rightarrow> []
     | Some f \<Rightarrow> if filter_accepts (claimer_filter a) f then [snd (tryClaimAddress a eui 1)] else [])"

definition lookout_filter :: can_id where
  "lookout_filter = setMessageType network (setTarget broadcastAddress CanID_default)"

text \<open>
  One round of bind: what tryRead returns with the frame it fills in (all zero when it reads none), what the write of
  the claim returns, and the next draw of the generator.
\<close>

record bind_round =
  br_result :: int
  br_frame :: frame
  br_write :: int
  br_next :: u8

definition address_used :: "bind_round \<Rightarrow> u8 \<Rightarrow> bool" where
  "address_used e a \<longleftrightarrow> br_result e \<noteq> 0 \<and> getSource (frame_getId (br_frame e)) = a"

definition bind_step :: "u8 list \<Rightarrow> bind_round \<Rightarrow> u8 \<Rightarrow> u8 + u8" where
  "bind_step eui e a = (if address_used e a then Inl (br_next e)
     else if \<not> fst (tryClaimAddress a eui (br_write e)) then Inl a else Inr a)"

definition socket_bind :: "u8 list \<Rightarrow> (nat \<Rightarrow> bind_round) \<Rightarrow> u8 \<Rightarrow> u8 option" where
  "socket_bind eui env a = claim_loop (bind_step eui) env 0 a"

text \<open>bind without an address starts with the smallest.\<close>

definition bind_default :: "(u8 \<Rightarrow> 'r) \<Rightarrow> 'r" where
  "bind_default bind = bind minAddress"

interpretation sock: claim_rounds "bind_step eui" br_next for eui
  by unfold_locales (auto simp: bind_step_def tryClaimAddress_def split: if_splits)

text \<open>
  What the lookout's socket has read when the frames given came during its wait: the first that passes the filter.
\<close>

definition lookout_read :: "frame list \<Rightarrow> int \<times> frame" where
  "lookout_read fs = (case filter (filter_accepts lookout_filter) fs of
     [] \<Rightarrow> (0, \<lparr>fr_id = 0, fr_data = replicate 64 0\<rparr>) | f # _ \<Rightarrow> (72, f))"

subsection \<open>Zephyr\<close>

text \<open>
  The callback on a claim of the bus: whether it posts the event alreadyUsed, and what it tells the application. A
  frame with the interface's own EUI is ignored.
\<close>

definition onAddressClaimReceived :: "u8 list \<Rightarrow> u8 \<Rightarrow> frame \<Rightarrow> bool \<times> (u8 list \<times> u8) option" where
  "onAddressClaimReceived eui a f = (let c = CanID_create (fr_id f) in
     if take (length eui) (fr_data f) = eui then (False, None)
     else (a = getSource c, Some (fr_data f, getSource c)))"

text \<open>The two callbacks on a discovery: whether they submit the work item that claims the address.\<close>

definition onAnyAddressDiscoverReceived :: "u8 \<Rightarrow> frame \<Rightarrow> bool" where
  "onAnyAddressDiscoverReceived a f \<longleftrightarrow> a = getTarget (CanID_create (fr_id f))"

definition onAddressDiscoverReceived :: "frame \<Rightarrow> bool" where
  "onAddressDiscoverReceived f \<longleftrightarrow> True"

definition claimAddress :: "u8 \<Rightarrow> u8 list \<Rightarrow> int \<Rightarrow> bool \<times> frame" where
  "claimAddress a eui err = (err = 0, claim_frame a eui)"

text \<open>The filters handed to the driver: for claims, for any discovery while binding, and for those of the own address.\<close>

definition addFilter :: "can_id \<Rightarrow> can_id" where
  "addFilter c = setMessageType network c"

definition zephyr_claim_filter :: can_id where
  "zephyr_claim_filter = addFilter (setBridge 0 (setTarget broadcastAddress CanID_default))"

definition zephyr_any_discover_filter :: can_id where
  "zephyr_any_discover_filter = addFilter (setSource anonymousAddress CanID_default)"

definition zephyr_discover_filter :: "u8 \<Rightarrow> can_id" where
  "zephyr_discover_filter a = addFilter (setTarget a (setSource anonymousAddress CanID_default))"

text \<open>
  One round of bind: what can_send returns for the discovery, the claims the callback is given while bind waits, the
  next random number, what can_send returns for the claim, and the transmit error counters before and after it.
\<close>

record zephyr_round =
  zr_discover :: int
  zr_claims :: "frame list"
  zr_rand :: u32
  zr_claim :: int
  zr_before :: u8
  zr_after :: u8

definition random_address :: "u32 \<Rightarrow> u8" where
  "random_address r = ucast (ucast minAddress + r mod ((ucast maxAddress + 1) - ucast minAddress) :: u32)"

definition zephyr_step :: "u8 list \<Rightarrow> zephyr_round \<Rightarrow> u8 \<Rightarrow> u8 + u8" where
  "zephyr_step eui e a =
    (if zr_discover e \<noteq> 0 then Inl a
     else if \<exists>f \<in> set (zr_claims e). fst (onAddressClaimReceived eui a f) then Inl (random_address (zr_rand e))
     else if \<not> fst (claimAddress a eui (zr_claim e)) then Inl a
     else if zr_after e \<le> zr_before e then Inr a else Inl a)"

interpretation zeph: claim_rounds "zephyr_step eui" "\<lambda>e. random_address (zr_rand e)" for eui
  by unfold_locales (auto simp: zephyr_step_def claimAddress_def split: if_splits)

record zephyr_interface =
  zi_address :: u8
  zi_bound :: bool

definition zephyr_interface_init :: zephyr_interface where
  "zephyr_interface_init = \<lparr>zi_address = broadcastAddress, zi_bound = False\<rparr>"

text \<open>The last number is what adding the filter for discoveries of the own address returns.\<close>

definition zephyr_bind :: "u8 list \<Rightarrow> (nat \<Rightarrow> zephyr_round) \<Rightarrow> int \<Rightarrow> u8 \<Rightarrow> zephyr_interface \<Rightarrow> (bool \<times> zephyr_interface) option" where
  "zephyr_bind eui env flt a st =
    (if zi_address st = broadcastAddress then
       (case claim_loop (zephyr_step eui) env 0 a of None \<Rightarrow> None
        | Some b \<Rightarrow> (let st1 = st\<lparr>zi_address := b\<rparr> in
            if flt < 0 then Some (False, st1)
            else let st2 = st1\<lparr>zi_bound := True\<rparr> in Some (zi_bound st2, st2)))
     else Some (zi_bound st, st))"

definition claimAddress_bound :: "u8 list \<Rightarrow> int \<Rightarrow> zephyr_interface \<Rightarrow> bool \<times> frame list" where
  "claimAddress_bound eui err st = (if \<not> zi_bound st then (False, [])
     else (fst (claimAddress (zi_address st) eui err), [snd (claimAddress (zi_address st) eui err)]))"

definition stub_bind :: "u8 \<Rightarrow> zephyr_interface \<Rightarrow> bool \<times> zephyr_interface" where
  "stub_bind a st = (True, st\<lparr>zi_address := a, zi_bound := True\<rparr>)"

subsection \<open>Discoveries and claims on the bus\<close>

lemma and_or_split: "(x :: u32) AND (m OR n) = y AND (m OR n) \<longleftrightarrow> x AND m = y AND m \<and> x AND n = y AND n"
  by (auto simp: bit_eq_iff bit_simps)

lemma put_target_inj: "push_bit 8 (ucast a) AND targetMask = push_bit 8 (ucast b) AND targetMask \<longleftrightarrow> a = (b :: u8)"
proof
  assume "push_bit 8 (ucast a) AND targetMask = push_bit 8 (ucast b) AND targetMask"
  then have "getTarget (setTarget a CanID_default) = getTarget (setTarget b CanID_default)" unfolding tgt.get_set by simp
  then show "a = b" by (simp only: int_field_get_set)
qed simp

lemma filter_masks:
  "cid_mask (claimer_filter a) = (sourceMask OR targetMask) OR messageTypeMask"
  "cid_mask lookout_filter = targetMask OR messageTypeMask"
  by (simp_all add: claimer_filter_def lookout_filter_def can_masks CanID_default_def)

lemma masks_unflagged:
  "((sourceMask OR targetMask) OR messageTypeMask) AND CAN_EFF_FLAG = 0"
  "(targetMask OR messageTypeMask) AND CAN_EFF_FLAG = 0"
  by (simp_all add: mask_defs CAN_EFF_FLAG_def)

lemmas network_ids = discover_id_def claim_id_def claimer_filter_def lookout_filter_def setRandomElement_def

lemma discovery_accepted: "filter_accepts (claimer_filter b) (discover_frame a r) \<longleftrightarrow> a = b"
  unfolding filter_accepts_def filter_masks discover_frame_def frame_make_id flagged_bits [OF masks_unflagged(1)] and_or_split
  by (simp add: network_ids can_own_bits can_other_bits mask_disjoint put_target_inj)

lemma claim_accepted: "filter_accepts lookout_filter (claim_frame b eui)"
  unfolding filter_accepts_def filter_masks claim_frame_def frame_make_id flagged_bits [OF masks_unflagged(2)] and_or_split
  by (simp add: network_ids can_own_bits can_other_bits mask_disjoint)

lemma zephyr_filter_masks:
  "cid_mask zephyr_claim_filter = (targetMask OR bridgeMask) OR messageTypeMask"
  "cid_mask zephyr_any_discover_filter = sourceMask OR messageTypeMask"
  "zephyr_discover_filter a = claimer_filter a"
  by (simp_all add: zephyr_claim_filter_def zephyr_any_discover_filter_def zephyr_discover_filter_def addFilter_def can_masks
      CanID_default_def claimer_filter_def)

lemma zephyr_masks_unflagged:
  "((targetMask OR bridgeMask) OR messageTypeMask) AND CAN_EFF_FLAG = 0" "(sourceMask OR messageTypeMask) AND CAN_EFF_FLAG = 0"
  by (simp_all add: mask_defs CAN_EFF_FLAG_def)

text \<open>On Zephyr a claim reaches the callback, and a discovery the owner of its target and every node that is binding.\<close>

lemma zephyr_filters:
  "filter_accepts zephyr_claim_filter (claim_frame b eui)"
  "filter_accepts zephyr_any_discover_filter (discover_frame a r)"
  "filter_accepts (zephyr_discover_filter b) (discover_frame a r) \<longleftrightarrow> a = b"
proof -
  show "filter_accepts zephyr_claim_filter (claim_frame b eui)"
    unfolding filter_accepts_def zephyr_filter_masks claim_frame_def frame_make_id flagged_bits [OF zephyr_masks_unflagged(1)] and_or_split
    by (simp add: network_ids zephyr_claim_filter_def addFilter_def can_own_bits can_other_bits mask_disjoint)
      (simp add: CanID_default_def)
  show "filter_accepts zephyr_any_discover_filter (discover_frame a r)"
    unfolding filter_accepts_def zephyr_filter_masks discover_frame_def frame_make_id flagged_bits [OF zephyr_masks_unflagged(2)] and_or_split
    by (simp add: network_ids zephyr_any_discover_filter_def addFilter_def can_own_bits can_other_bits mask_disjoint)
  show "filter_accepts (zephyr_discover_filter b) (discover_frame a r) \<longleftrightarrow> a = b"
    by (simp only: zephyr_filter_masks discovery_accepted)
qed

lemma claim_source: "getSource (frame_getId (claim_frame b eui)) = b"
proof -
  have "cid_id (frame_getId (claim_frame b eui)) = cid_id (claim_id b)"
    by (simp add: claim_frame_def claim_id_def frame_id_roundtrip)
  moreover have "cid_id (claim_id b) AND sourceMask = cid_id (setSource b CanID_default) AND sourceMask"
    by (simp add: claim_id_def can_other_bits mask_disjoint)
  ultimately show ?thesis using int_field_get_set(1) [of b CanID_default] by (simp add: getSource_def)
qed

lemma claim_data [simp]: "fr_data (claim_frame b eui) = eui"
  by (simp add: claim_frame_def)

text \<open>The claims a discovery for an address brings out of a list of owners, each with its EUI.\<close>

definition owner_answers :: "(u8 \<times> u8 list) list \<Rightarrow> u8 \<Rightarrow> u8 \<Rightarrow> frame list" where
  "owner_answers owners a r = concat (map (\<lambda>(b, eui). claimer_turn b eui (Some (discover_frame a r))) owners)"

lemma owner_answers_eq: "owner_answers ws a r = map (\<lambda>w. claim_frame a (snd w)) (filter (\<lambda>w. fst w = a) ws)"
  by (induction ws) (auto simp: owner_answers_def claimer_turn_def discovery_accepted tryClaimAddress_def)

lemma lookout_read_claims: "\<forall>f \<in> set fs. \<exists>eui. f = claim_frame a eui \<Longrightarrow>
  lookout_read fs = (case fs of [] \<Rightarrow> (0, \<lparr>fr_id = 0, fr_data = replicate 64 0\<rparr>) | f # _ \<Rightarrow> (72, f))"
  by (cases fs) (auto simp: lookout_read_def claim_accepted)

lemma answered_used:
  assumes "(br_result e, br_frame e) = lookout_read (owner_answers owners a r)"
  shows "address_used e a \<longleftrightarrow> a \<in> fst ` set owners"
proof -
  have c: "\<forall>f \<in> set (owner_answers owners a r). \<exists>eui. f = claim_frame a eui" by (auto simp: owner_answers_eq)
  show ?thesis
  proof (cases "filter (\<lambda>w. fst w = a) owners")
    case Nil
    then have "a \<notin> fst ` set owners" by (auto simp: filter_empty_conv)
    then show ?thesis using assms lookout_read_claims [OF c] Nil by (simp add: address_used_def owner_answers_eq)
  next
    case (Cons w ws)
    then have "w \<in> set owners \<and> fst w = a" by (auto simp: filter_eq_Cons_iff)
    then show ?thesis
      using assms lookout_read_claims [OF c] Cons by (auto simp: address_used_def owner_answers_eq claim_source)
  qed
qed

lemma claim_received:
  "fst (onAddressClaimReceived me a (claim_frame b eui)) \<longleftrightarrow> take (length me) eui \<noteq> me \<and> a = b"
  using claim_source [of b eui] by (simp add: onAddressClaimReceived_def frame_getId_def Let_def)

lemma random_address_in_range: "minAddress \<le> random_address r \<and> random_address r \<le> maxAddress"
proof -
  have "unat (r mod 253) < 253" by (simp add: unat_mod)
  then have "unat (1 + r mod 253) = 1 + unat (r mod 253)" by (subst unat_add_lem [THEN iffD1]) simp_all
  then have "unat (random_address r) = 1 + unat (r mod 253)"
    using \<open>unat (r mod 253) < 253\<close> by (simp add: random_address_def minAddress_def maxAddress_def unsigned_ucast_eq take_bit_nat_eq_self)
  then show ?thesis using \<open>unat (r mod 253) < 253\<close>
    by (simp add: word_le_nat_alt minAddress_def maxAddress_def)
qed

subsection \<open>Binding\<close>

text \<open>A node that hears exactly the answers of the owners of the bus, on each of the two platforms.\<close>

definition hears_owners :: "(u8 \<times> u8 list) list \<Rightarrow> (nat \<Rightarrow> u8) \<Rightarrow> (nat \<Rightarrow> u8) \<Rightarrow> (nat \<Rightarrow> bind_round) \<Rightarrow> bool" where
  "hears_owners owners tried random env \<longleftrightarrow>
     (\<forall>i. (br_result (env i), br_frame (env i)) = lookout_read (owner_answers owners (tried i) (random i)))"

definition zephyr_hears_owners :: "(u8 \<times> u8 list) list \<Rightarrow> (nat \<Rightarrow> u8) \<Rightarrow> (nat \<Rightarrow> u8) \<Rightarrow> (nat \<Rightarrow> zephyr_round) \<Rightarrow> bool" where
  "zephyr_hears_owners owners tried random env \<longleftrightarrow>
     (\<forall>i. zr_claims (env i) = filter (filter_accepts zephyr_claim_filter) (owner_answers owners (tried i) (random i)))"

lemma all_claims_pass: "filter (filter_accepts zephyr_claim_filter) (owner_answers ws a r) = owner_answers ws a r"
  by (simp add: filter_id_conv owner_answers_eq zephyr_filters)

lemma zephyr_used:
  assumes "zr_claims e = owner_answers owners a r" "me \<notin> (take (length me) \<circ> snd) ` set owners"
  shows "(\<exists>f \<in> set (zr_claims e). fst (onAddressClaimReceived me a f)) \<longleftrightarrow> a \<in> fst ` set owners"
  using assms by (force simp: owner_answers_eq claim_received)

text \<open>
  C5. An address in use is never taken: when the owners on the bus run their claimers and the newcomer hears exactly
  their answers to its discoveries, the address bind returns belongs to none of them, on Linux and on Zephyr, where
  no owner may have the newcomer's own EUI; and a free address whose claim can be written is bound in the first round.
\<close>
theorem bound_address_free:
  assumes "hears_owners owners (address_at (bind_step eui) env a) random env"
    and "zephyr_hears_owners owners (address_at (zephyr_step eui) zenv a) random zenv"
    and "eui \<notin> (take (length eui) \<circ> snd) ` set owners"
  shows "(socket_bind eui env a = Some b \<longrightarrow> b \<notin> fst ` set owners) \<and>
    (claim_loop (zephyr_step eui) zenv 0 a = Some c \<longrightarrow> c \<notin> fst ` set owners) \<and>
    (a \<notin> fst ` set owners \<and> br_write (env 0) > 0 \<longrightarrow> socket_bind eui env a = Some a)"
proof -
  have u: "address_used (env i) (address_at (bind_step eui) env a i) \<longleftrightarrow>
      address_at (bind_step eui) env a i \<in> fst ` set owners" for i
    using assms(1) by (intro answered_used) (simp add: hears_owners_def)
  have z: "(\<exists>f \<in> set (zr_claims (zenv i)). fst (onAddressClaimReceived eui (address_at (zephyr_step eui) zenv a i) f)) \<longleftrightarrow>
      address_at (zephyr_step eui) zenv a i \<in> fst ` set owners" for i
    using assms(2, 3) by (intro zephyr_used) (simp_all add: zephyr_hears_owners_def all_claims_pass)
  have "b \<notin> fst ` set owners" if "socket_bind eui env a = Some b"
    using sock.loop_address [OF that [unfolded socket_bind_def]] u
    by (auto simp: bind_step_def split: if_splits)
  moreover have "c \<notin> fst ` set owners" if "claim_loop (zephyr_step eui) zenv 0 a = Some c"
    using zeph.loop_address [OF that] z by (auto simp: zephyr_step_def split: if_splits)
  moreover have "socket_bind eui env a = Some a" if "a \<notin> fst ` set owners \<and> br_write (env 0) > 0"
    using that u [of 0] sock.loop_settles [of eui env a 0]
    by (simp add: socket_bind_def settles_def bind_step_def tryClaimAddress_def)
  ultimately show ?thesis by blast
qed

definition demo_round :: "nat \<Rightarrow> bind_round" where
  "demo_round i = (if i = 0 then \<lparr>br_result = 72, br_frame = claim_frame 1 [2], br_write = 72, br_next = 7\<rparr>
     else \<lparr>br_result = 0, br_frame = \<lparr>fr_id = 0, fr_data = replicate 64 0\<rparr>, br_write = 72, br_next = 9\<rparr>)"

definition demo_zephyr_round :: "nat \<Rightarrow> zephyr_round" where
  "demo_zephyr_round i = \<lparr>zr_discover = 0, zr_claims = (if i = 0 then [claim_frame 1 [2]] else []), zr_rand = 6,
     zr_claim = 0, zr_before = 0, zr_after = 0\<rparr>"

lemma demo_step: "bind_step [3] (demo_round 0) 1 = Inl 7" "0 < i \<Longrightarrow> bind_step [3] (demo_round i) 7 = Inr 7"
  by (simp_all add: bind_step_def demo_round_def address_used_def claim_source tryClaimAddress_def)

lemma demo_addresses: "address_at (bind_step [3]) demo_round 1 i = (if i = 0 then 1 else 7)"
proof (induction i)
  case (Suc i)
  show ?case by (cases "i = 0") (simp_all add: Suc demo_step)
qed simp

lemma demo_zephyr_step:
  "zephyr_step [3] (demo_zephyr_round 0) 1 = Inl 7" "0 < i \<Longrightarrow> zephyr_step [3] (demo_zephyr_round i) 7 = Inr 7"
  by (simp_all add: zephyr_step_def demo_zephyr_round_def claim_received claimAddress_def random_address_def
      minAddress_def maxAddress_def)

lemma demo_zephyr_addresses: "address_at (zephyr_step [3]) demo_zephyr_round 1 i = (if i = 0 then 1 else 7)"
proof (induction i)
  case (Suc i)
  show ?case by (cases "i = 0") (simp_all add: Suc demo_zephyr_step)
qed simp

lemma demo_hears:
  "hears_owners [(1, [2])] (address_at (bind_step [3]) demo_round 1) (\<lambda>i. 0) demo_round"
  "zephyr_hears_owners [(1, [2])] (address_at (zephyr_step [3]) demo_zephyr_round 1) (\<lambda>i. 0) demo_zephyr_round"
  by (simp_all add: hears_owners_def zephyr_hears_owners_def demo_addresses demo_zephyr_addresses owner_answers_eq
      lookout_read_def claim_accepted zephyr_filters demo_round_def demo_zephyr_round_def)

theorem bound_address_free_witness:
  "socket_bind [3] demo_round 1 \<noteq> Some 1 \<and> claim_loop (zephyr_step [3]) demo_zephyr_round 0 1 \<noteq> Some 1"
  using bound_address_free [OF demo_hears, of 1 1] by simp



text \<open>
  The lookout reads one frame: when a claim of another node comes first, the owner's answer behind it is not looked at,
  and the address is taken a second time. A read error counts as an answer of node 0.
\<close>
lemma answer_hidden:
  assumes "(br_result e, br_frame e) = lookout_read [claim_frame c eui', claim_frame a eui]" "c \<noteq> a" "br_write e > 0"
  shows "bind_step me e a = Inr a"
  using assms by (simp add: lookout_read_def claim_accepted bind_step_def address_used_def claim_source tryClaimAddress_def)

end
