(* ===== verification/Jsmn.thy ===== *)
theory Jsmn imports Prelude begin

text \<open>
  The JSON tokenizer in include/thingset++/internal/jsmn.h as the library compiles it: not strict, without parent
  links, and always with a token array. The text is memory from its first character on, as is the token
  array: what lies behind the text and behind the array is there in the model too, so that a lemma can say
  that the tokenizer neither looks at it nor writes it. Positions are natural numbers: they agree with the
  unsigned and int of the code for texts below 2 GiB.

  The second half is the specification: the documents, the text of a document and the tokens of its parts in preorder.
\<close>

subsection \<open>Tokens and parser\<close>

datatype jsmntype = JSMN_UNDEFINED | JSMN_OBJECT | JSMN_ARRAY | JSMN_STRING | JSMN_PRIMITIVE

definition JSMN_ERROR_NOMEM :: int where "JSMN_ERROR_NOMEM = -1"
definition JSMN_ERROR_INVAL :: int where "JSMN_ERROR_INVAL = -2"
definition JSMN_ERROR_PART :: int where "JSMN_ERROR_PART = -3"

lemmas jsmn_errors = JSMN_ERROR_NOMEM_def JSMN_ERROR_INVAL_def JSMN_ERROR_PART_def

record jsmntok =
  jt_type :: jsmntype
  jt_start :: int
  jt_end :: int
  jt_size :: int

record jsmn_parser =
  jp_pos :: nat
  jp_next :: nat       \<comment> \<open>toknext\<close>
  jp_super :: int      \<comment> \<open>toksuper\<close>

type_synonym mem = "nat \<Rightarrow> u8"
type_synonym toks = "nat \<Rightarrow> jsmntok"

definition jsmn_init :: jsmn_parser where
  "jsmn_init = \<lparr>jp_pos = 0, jp_next = 0, jp_super = -1\<rparr>"

text \<open>The token's type stays what it was; None where the code returns NULL.\<close>

definition jsmn_alloc_token :: "nat \<Rightarrow> jsmn_parser \<Rightarrow> toks \<Rightarrow> (nat \<times> jsmn_parser \<times> toks) option" where
  "jsmn_alloc_token num p t =
    (if num \<le> jp_next p then None
     else Some (jp_next p, p\<lparr>jp_next := jp_next p + 1\<rparr>,
       t(jp_next p := (t (jp_next p))\<lparr>jt_start := -1, jt_end := -1, jt_size := 0\<rparr>)))"

definition jsmn_fill_token :: "nat \<Rightarrow> jsmntype \<Rightarrow> nat \<Rightarrow> nat \<Rightarrow> toks \<Rightarrow> toks" where
  "jsmn_fill_token i ty s e t = t(i := \<lparr>jt_type = ty, jt_start = int s, jt_end = int e, jt_size = 0\<rparr>)"

subsection \<open>Primitives and strings\<close>

definition jsmn_delim :: "u8 \<Rightarrow> bool" where
  "jsmn_delim c \<longleftrightarrow> c \<in> {58, 9, 13, 10, 32, 44, 93, 125}"

text \<open>The loop over a primitive: its end, or None at a character that may not stand in one.\<close>

function prim_scan :: "mem \<Rightarrow> nat \<Rightarrow> nat \<Rightarrow> nat option" where
  "prim_scan js len pos =
    (if pos < len \<and> js pos \<noteq> 0
     then if jsmn_delim (js pos) then Some pos
       else if js pos < 32 \<or> 127 \<le> js pos then None
       else prim_scan js len (Suc pos)
     else Some pos)"
  by auto
termination by (relation "measure (\<lambda>(js, len, pos). len - pos)") auto

definition jsmn_parse_primitive :: "mem \<Rightarrow> nat \<Rightarrow> nat \<Rightarrow> jsmn_parser \<Rightarrow> toks \<Rightarrow> int \<times> jsmn_parser \<times> toks" where
  "jsmn_parse_primitive js len num p t =
    (case prim_scan js len (jp_pos p) of
       None \<Rightarrow> (JSMN_ERROR_INVAL, p, t)
     | Some e \<Rightarrow> (case jsmn_alloc_token num p t of
           None \<Rightarrow> (JSMN_ERROR_NOMEM, p, t)
         | Some (i, p1, t1) \<Rightarrow> (0, p1\<lparr>jp_pos := e - 1\<rparr>, jsmn_fill_token i JSMN_PRIMITIVE (jp_pos p) e t1)))"

definition hex_char :: "u8 \<Rightarrow> bool" where
  "hex_char c \<longleftrightarrow> (48 \<le> c \<and> c \<le> 57) \<or> (65 \<le> c \<and> c \<le> 70) \<or> (97 \<le> c \<and> c \<le> 102)"

fun hex_scan :: "mem \<Rightarrow> nat \<Rightarrow> nat \<Rightarrow> nat \<Rightarrow> nat option" where
  "hex_scan js len 0 pos = Some pos"
| "hex_scan js len (Suc k) pos =
    (if pos < len \<and> js pos \<noteq> 0
     then if hex_char (js pos) then hex_scan js len k (Suc pos) else None
     else Some pos)"

lemma hex_scan_le: "hex_scan js len k pos = Some q \<Longrightarrow> pos \<le> q \<and> (pos \<le> len \<longrightarrow> q \<le> len)"
  by (induction k arbitrary: pos) (fastforce split: if_splits)+

definition escaped_char :: "u8 \<Rightarrow> bool" where
  "escaped_char c \<longleftrightarrow> c \<in> {34, 47, 92, 98, 102, 114, 110, 116}"

text \<open>The loop over a string, from behind its opening quote: the place of the closing quote, or an error.\<close>

function str_scan :: "mem \<Rightarrow> nat \<Rightarrow> nat \<Rightarrow> int + nat" where
  "str_scan js len pos =
    (if pos < len \<and> js pos \<noteq> 0
     then if js pos = 34 then Inr pos
       else if js pos = 92 \<and> pos + 1 < len
       then if escaped_char (js (pos + 1)) then str_scan js len (pos + 2)
         else if js (pos + 1) = 117
         then (case hex_scan js len 4 (pos + 2) of
             None \<Rightarrow> Inl JSMN_ERROR_INVAL
           | Some q \<Rightarrow> str_scan js len q)
         else Inl JSMN_ERROR_INVAL
       else str_scan js len (pos + 1)
     else Inl JSMN_ERROR_PART)"
  by auto
termination by (relation "measure (\<lambda>(js, len, pos). len - pos)") (auto dest: hex_scan_le)

declare prim_scan.simps [simp del] str_scan.simps [simp del]

definition jsmn_parse_string :: "mem \<Rightarrow> nat \<Rightarrow> nat \<Rightarrow> jsmn_parser \<Rightarrow> toks \<Rightarrow> int \<times> jsmn_parser \<times> toks" where
  "jsmn_parse_string js len num p t =
    (case str_scan js len (jp_pos p + 1) of
       Inl err \<Rightarrow> (err, p, t)
     | Inr e \<Rightarrow> (case jsmn_alloc_token num p t of
           None \<Rightarrow> (JSMN_ERROR_NOMEM, p, t)
         | Some (i, p1, t1) \<Rightarrow> (0, p1\<lparr>jp_pos := e\<rparr>, jsmn_fill_token i JSMN_STRING (jp_pos p + 1) e t1)))"

subsection \<open>The parser\<close>

definition tok_open :: "jsmntok \<Rightarrow> bool" where
  "tok_open k \<longleftrightarrow> jt_start k \<noteq> -1 \<and> jt_end k = -1"

definition container :: "jsmntype \<Rightarrow> bool" where
  "container ty \<longleftrightarrow> ty = JSMN_ARRAY \<or> ty = JSMN_OBJECT"

text \<open>The loops \<open>for (i = n - 1; i >= 0; i--)\<close> that look for an open token.\<close>

fun find_last :: "(jsmntok \<Rightarrow> bool) \<Rightarrow> toks \<Rightarrow> nat \<Rightarrow> nat option" where
  "find_last P t 0 = None"
| "find_last P t (Suc i) = (if P (t i) then Some i else find_last P t i)"

definition count_child :: "int \<Rightarrow> toks \<Rightarrow> toks" where
  "count_child s t = (if s \<noteq> -1 then t(nat s := (t (nat s))\<lparr>jt_size := jt_size (t (nat s)) + 1\<rparr>) else t)"

definition jsmn_open :: "jsmntype \<Rightarrow> nat \<Rightarrow> jsmn_parser \<Rightarrow> toks \<Rightarrow> int \<times> jsmn_parser \<times> toks" where
  "jsmn_open ty num p t =
    (case jsmn_alloc_token num p t of
       None \<Rightarrow> (JSMN_ERROR_NOMEM, p, t)
     | Some (i, p1, t1) \<Rightarrow>
         (let t2 = count_child (jp_super p1) t1 in
          (0, p1\<lparr>jp_super := int (jp_next p1) - 1\<rparr>, t2(i := (t2 i)\<lparr>jt_type := ty, jt_start := int (jp_pos p)\<rparr>))))"

definition jsmn_close :: "jsmntype \<Rightarrow> jsmn_parser \<Rightarrow> toks \<Rightarrow> int \<times> jsmn_parser \<times> toks" where
  "jsmn_close ty p t =
    (case find_last tok_open t (jp_next p) of
       None \<Rightarrow> (JSMN_ERROR_INVAL, p, t)
     | Some i \<Rightarrow>
         (if jt_type (t i) \<noteq> ty then (JSMN_ERROR_INVAL, p, t)
          else (let t1 = t(i := (t i)\<lparr>jt_end := int (jp_pos p) + 1\<rparr>) in
            (0, p\<lparr>jp_super := (case find_last tok_open t1 (Suc i) of Some j \<Rightarrow> int j | None \<Rightarrow> -1)\<rparr>, t1))))"

definition jsmn_comma :: "jsmn_parser \<Rightarrow> toks \<Rightarrow> int \<times> jsmn_parser \<times> toks" where
  "jsmn_comma p t =
    (if jp_super p \<noteq> -1 \<and> \<not> container (jt_type (t (nat (jp_super p))))
     then (0, (case find_last (\<lambda>k. container (jt_type k) \<and> tok_open k) t (jp_next p) of
            Some i \<Rightarrow> p\<lparr>jp_super := int i\<rparr> | None \<Rightarrow> p), t)
     else (0, p, t))"

definition jsmn_leaf :: "int \<times> jsmn_parser \<times> toks \<Rightarrow> int \<times> jsmn_parser \<times> toks" where
  "jsmn_leaf x = (if fst x < 0 then x else (fst x, fst (snd x), count_child (jp_super (fst (snd x))) (snd (snd x))))"

text \<open>One round of the switch: a negative result is what the code returns.\<close>

definition jsmn_step :: "mem \<Rightarrow> nat \<Rightarrow> nat \<Rightarrow> jsmn_parser \<Rightarrow> toks \<Rightarrow> int \<times> jsmn_parser \<times> toks" where
  "jsmn_step js len num p t =
    (let c = js (jp_pos p) in
     if c = 123 then jsmn_open JSMN_OBJECT num p t
     else if c = 91 then jsmn_open JSMN_ARRAY num p t
     else if c = 125 then jsmn_close JSMN_OBJECT p t
     else if c = 93 then jsmn_close JSMN_ARRAY p t
     else if c = 34 then jsmn_leaf (jsmn_parse_string js len num p t)
     else if c \<in> {9, 13, 10, 32} then (0, p, t)
     else if c = 58 then (0, p\<lparr>jp_super := int (jp_next p) - 1\<rparr>, t)
     else if c = 44 then jsmn_comma p t
     else jsmn_leaf (jsmn_parse_primitive js len num p t))"

text \<open>The characters after which \<open>count\<close> is increased.\<close>

definition counted :: "u8 \<Rightarrow> int" where
  "counted c = (if c \<in> {125, 93, 9, 13, 10, 32, 58, 44} then 0 else 1)"

definition jsmn_next :: "int \<times> jsmn_parser \<times> toks \<Rightarrow> jsmn_parser \<times> toks" where
  "jsmn_next x = ((fst (snd x))\<lparr>jp_pos := Suc (jp_pos (fst (snd x)))\<rparr>, snd (snd x))"

lemma prim_scan_le: "prim_scan js len pos = Some e \<Longrightarrow> pos \<le> e \<and> (pos \<le> len \<longrightarrow> e \<le> len)"
  by (induction js len pos rule: prim_scan.induct)
    (subst (asm) (2) prim_scan.simps, fastforce split: if_splits)

lemma prim_scan_less:
  assumes "prim_scan js len pos = Some e" "pos < len" "js pos \<noteq> 0" "\<not> jsmn_delim (js pos)"
  shows "pos < e"
  using assms prim_scan_le [of js len "Suc pos" e] by (subst (asm) prim_scan.simps) (auto split: if_splits)

lemma str_scan_step:
  assumes "pos < len \<and> js pos \<noteq> 0 \<and> js pos \<noteq> 34"
  shows "str_scan js len pos = (if js pos = 92 \<and> pos + 1 < len
       then if escaped_char (js (pos + 1)) then str_scan js len (pos + 2)
         else if js (pos + 1) = 117
         then (case hex_scan js len 4 (pos + 2) of None \<Rightarrow> Inl JSMN_ERROR_INVAL | Some q \<Rightarrow> str_scan js len q)
         else Inl JSMN_ERROR_INVAL
       else str_scan js len (pos + 1))"
  using assms by (subst str_scan.simps) simp

lemma str_scan_stop:
  assumes "\<not> (pos < len \<and> js pos \<noteq> 0 \<and> js pos \<noteq> 34)"
  shows "str_scan js len pos = (if pos < len \<and> js pos \<noteq> 0 then Inr pos else Inl JSMN_ERROR_PART)"
  using assms by (subst str_scan.simps) auto

lemma str_scan_le: "str_scan js len pos = Inr e \<Longrightarrow> pos \<le> e \<and> e < len \<and> js e = 34"
proof (induction js len pos rule: str_scan.induct)
  case (1 js len pos)
  show ?case
  proof (cases "pos < len \<and> js pos \<noteq> 0 \<and> js pos \<noteq> 34")
    case True
    with "1.prems" "1.IH" show ?thesis unfolding str_scan_step [where js = js and pos = pos and len = len, OF True]
      by (fastforce split: if_splits option.splits dest: hex_scan_le)
  qed (use "1.prems" in \<open>auto simp: str_scan_stop split: if_splits\<close>)
qed

lemma str_scan_err: "str_scan js len pos = Inl err \<Longrightarrow> err < 0"
proof (induction js len pos rule: str_scan.induct)
  case (1 js len pos)
  show ?case
  proof (cases "pos < len \<and> js pos \<noteq> 0 \<and> js pos \<noteq> 34")
    case True
    with "1.prems" "1.IH" show ?thesis unfolding str_scan_step [where js = js and pos = pos and len = len, OF True]
      by (fastforce simp: jsmn_errors split: if_splits option.splits)
  qed (use "1.prems" in \<open>auto simp: str_scan_stop jsmn_errors split: if_splits\<close>)
qed

lemma leaf_pos [simp]: "jp_pos (fst (snd (jsmn_leaf x))) = jp_pos (fst (snd x))" "fst (jsmn_leaf x) = fst x"
  by (simp_all add: jsmn_leaf_def)

lemma parse_string_pos: "0 \<le> fst (jsmn_parse_string js len num p t) \<Longrightarrow>
    jp_pos p \<le> jp_pos (fst (snd (jsmn_parse_string js len num p t)))"
  by (auto simp: jsmn_parse_string_def jsmn_alloc_token_def dest: str_scan_le split: option.splits sum.splits)

lemma parse_primitive_pos:
  assumes "0 \<le> fst (jsmn_parse_primitive js len num p t)" "jp_pos p < len" "js (jp_pos p) \<noteq> 0" "\<not> jsmn_delim (js (jp_pos p))"
  shows "jp_pos p \<le> jp_pos (fst (snd (jsmn_parse_primitive js len num p t)))"
  using assms
  by (auto simp: jsmn_parse_primitive_def jsmn_alloc_token_def jsmn_errors dest: prim_scan_less split: option.splits)

lemma open_pos [simp]: "jp_pos (fst (snd (jsmn_open ty num p t))) = jp_pos p"
  by (simp add: jsmn_open_def jsmn_alloc_token_def Let_def)

lemma close_pos [simp]: "jp_pos (fst (snd (jsmn_close ty p t))) = jp_pos p"
  by (simp add: jsmn_close_def Let_def split: option.splits)

lemma comma_pos [simp]: "jp_pos (fst (snd (jsmn_comma p t))) = jp_pos p"
  by (simp add: jsmn_comma_def split: option.splits)

lemma jsmn_step_pos:
  assumes "jp_pos p < len" "js (jp_pos p) \<noteq> 0" "0 \<le> fst (jsmn_step js len num p t)"
  shows "jp_pos p \<le> jp_pos (fst (snd (jsmn_step js len num p t)))"
  using assms parse_string_pos [of js len num p t] parse_primitive_pos [of js len num p t]
  by (auto simp: jsmn_step_def Let_def jsmn_delim_def split: if_splits)

function jsmn_loop :: "mem \<Rightarrow> nat \<Rightarrow> nat \<Rightarrow> int \<Rightarrow> jsmn_parser \<Rightarrow> toks \<Rightarrow> int \<times> jsmn_parser \<times> toks" where
  "jsmn_loop js len num n p t =
    (if jp_pos p < len \<and> js (jp_pos p) \<noteq> 0
     then let x = jsmn_step js len num p t in
       if fst x < 0 then x
       else jsmn_loop js len num (n + counted (js (jp_pos p))) (fst (jsmn_next x)) (snd (jsmn_next x))
     else if find_last tok_open t (jp_next p) \<noteq> None then (JSMN_ERROR_PART, p, t) else (n, p, t))"
  by auto
termination
proof (relation "measure (\<lambda>(js, len, num, n, p, t). len - jp_pos p)", goal_cases)
  case (2 js len num n p t x)
  then show ?case using jsmn_step_pos [of p len js num t] by (auto simp: jsmn_next_def)
qed simp

declare jsmn_loop.simps [simp del]

definition jsmn_parse :: "mem \<Rightarrow> nat \<Rightarrow> nat \<Rightarrow> jsmn_parser \<Rightarrow> toks \<Rightarrow> int \<times> jsmn_parser \<times> toks" where
  "jsmn_parse js len num p t = jsmn_loop js len num (int (jp_next p)) p t"

subsection \<open>What the parser reads and writes\<close>

text \<open>
  The state between two rounds: the tokens handed out describe parts of the text, the superior token is one of them,
  and the rest of the memory is as it was.
\<close>

definition tok_ok :: "nat \<Rightarrow> jsmntok \<Rightarrow> bool" where
  "tok_ok len k \<longleftrightarrow> jt_type k \<noteq> JSMN_UNDEFINED \<and> 0 \<le> jt_start k \<and> jt_start k \<le> int len \<and>
     (if container (jt_type k) then jt_end k = -1 \<or> (jt_start k < jt_end k \<and> jt_end k \<le> int len)
      else jt_start k \<le> jt_end k \<and> jt_end k \<le> int len)"

definition jsmn_inv :: "nat \<Rightarrow> toks \<Rightarrow> jsmn_parser \<Rightarrow> toks \<Rightarrow> bool" where
  "jsmn_inv num t0 p t \<longleftrightarrow> jp_next p \<le> num \<and> -1 \<le> jp_super p \<and> jp_super p < int (jp_next p) \<and>
     (\<forall>i < jp_next p. tok_ok (jp_pos p) (t i)) \<and> (\<forall>i \<ge> jp_next p. t i = t0 i)"

lemma jsmn_inv_init: "jsmn_inv num t jsmn_init t"
  by (simp add: jsmn_inv_def jsmn_init_def)

lemma jsmn_invI:
  assumes "jp_next p \<le> num" "-1 \<le> jp_super p" "jp_super p < int (jp_next p)"
    and "\<And>i. i < jp_next p \<Longrightarrow> tok_ok (jp_pos p) (t i)" "\<And>i. jp_next p \<le> i \<Longrightarrow> t i = t0 i"
  shows "jsmn_inv num t0 p t"
  using assms by (simp add: jsmn_inv_def)

lemma find_last_Some: "find_last P t n = Some i \<Longrightarrow> i < n \<and> P (t i) \<and> (\<forall>j < n. i < j \<longrightarrow> \<not> P (t j))"
  by (induction n) (auto split: if_splits simp: less_Suc_eq)

lemma find_last_None: "find_last P t n = None \<longleftrightarrow> (\<forall>j < n. \<not> P (t j))"
  by (induction n) (auto split: if_splits simp: less_Suc_eq)

lemma find_last_cong: "(\<And>j. j < n \<Longrightarrow> P (t j) = P (t' j)) \<Longrightarrow> find_last P t n = find_last P t' n"
  by (induction n) auto

lemma tok_ok_size [simp]: "tok_ok n (k\<lparr>jt_size := s\<rparr>) = tok_ok n k"
  by (simp add: tok_ok_def)

lemma tok_ok_mono: "tok_ok m k \<Longrightarrow> m \<le> n \<Longrightarrow> tok_ok n k"
  by (auto simp: tok_ok_def split: if_splits)

lemma count_child_ok [simp]: "tok_ok n (count_child s t i) = tok_ok n (t i)"
  by (simp add: count_child_def)

lemma count_child_other: "-1 \<le> s \<Longrightarrow> s < int n \<Longrightarrow> n \<le> i \<Longrightarrow> count_child s t i = t i"
  by (auto simp: count_child_def)

lemma ops_error_keep:
  "fst (jsmn_open ty num p t) < 0 \<Longrightarrow> snd (jsmn_open ty num p t) = (p, t)"
  "fst (jsmn_close ty p t) < 0 \<Longrightarrow> snd (jsmn_close ty p t) = (p, t)"
  "fst (jsmn_parse_string js len num p t) < 0 \<Longrightarrow> snd (jsmn_parse_string js len num p t) = (p, t)"
  "fst (jsmn_parse_primitive js len num p t) < 0 \<Longrightarrow> snd (jsmn_parse_primitive js len num p t) = (p, t)"
  "fst (jsmn_comma p t) = 0"
  by (auto simp: jsmn_open_def jsmn_close_def jsmn_comma_def jsmn_parse_string_def Let_def jsmn_parse_primitive_def
      split: option.splits sum.splits)

lemma error_keeps:
  assumes "fst (jsmn_step js len num p t) < 0"
  shows "snd (jsmn_step js len num p t) = (p, t)"
proof -
  have leaf: "fst x < 0 \<Longrightarrow> jsmn_leaf x = x" for x by (simp add: jsmn_leaf_def)
  show ?thesis
    using assms ops_error_keep(1) [of _ num p t] ops_error_keep(2) [of _ p t] ops_error_keep(3,4) [of js len num p t]
    by (auto simp: jsmn_step_def Let_def leaf ops_error_keep(5) split: if_splits)
qed

text \<open>A round that hands out one token and gives it its type and bounds.\<close>

lemma inv_new:
  assumes inv: "jsmn_inv num t0 p t" and n: "jp_next p < num"
    and "jp_pos p \<le> jp_pos q" "jp_next q = Suc (jp_next p)" "-1 \<le> jp_super q" "jp_super q < int (jp_next q)"
    and k: "tok_ok (jp_pos q) k" and s: "-1 \<le> s" "s < int (jp_next q)"
  shows "jsmn_inv num t0 q (count_child s (t(jp_next p := k)))"
proof (rule jsmn_invI)
  fix i assume "i < jp_next q"
  then show "tok_ok (jp_pos q) (count_child s (t(jp_next p := k)) i)"
    using inv k assms(3,4) by (auto simp: jsmn_inv_def less_Suc_eq intro: tok_ok_mono)
next
  fix i assume "jp_next q \<le> i"
  then have "count_child s (t(jp_next p := k)) i = (t(jp_next p := k)) i" using s by (intro count_child_other) auto
  then show "count_child s (t(jp_next p := k)) i = t0 i"
    using inv \<open>jp_next q \<le> i\<close> assms(4) by (simp add: jsmn_inv_def)
qed (use assms in auto)

lemma parse_string_ok:
  assumes "0 \<le> fst (jsmn_parse_string js len num p t)"
  obtains e where "str_scan js len (jp_pos p + 1) = Inr e" "jp_pos p < e" "e < len" "jp_next p < num"
    "jsmn_parse_string js len num p t = (0, p\<lparr>jp_pos := e, jp_next := Suc (jp_next p)\<rparr>,
       t(jp_next p := \<lparr>jt_type = JSMN_STRING, jt_start = 1 + int (jp_pos p), jt_end = int e, jt_size = 0\<rparr>))"
proof (cases "str_scan js len (jp_pos p + 1)")
  case (Inl err)
  with str_scan_err [OF this] assms show ?thesis by (simp add: jsmn_parse_string_def)
next
  case (Inr e)
  with str_scan_le [OF this] assms that [of e] show ?thesis
    by (auto simp: jsmn_parse_string_def jsmn_alloc_token_def jsmn_fill_token_def jsmn_errors split: if_splits)
qed

lemma parse_primitive_ok:
  assumes "0 \<le> fst (jsmn_parse_primitive js len num p t)" "jp_pos p < len" "js (jp_pos p) \<noteq> 0" "\<not> jsmn_delim (js (jp_pos p))"
  obtains e where "prim_scan js len (jp_pos p) = Some e" "jp_pos p < e" "e \<le> len" "jp_next p < num"
    "jsmn_parse_primitive js len num p t = (0, p\<lparr>jp_pos := e - 1, jp_next := Suc (jp_next p)\<rparr>,
       t(jp_next p := \<lparr>jt_type = JSMN_PRIMITIVE, jt_start = int (jp_pos p), jt_end = int e, jt_size = 0\<rparr>))"
proof (cases "prim_scan js len (jp_pos p)")
  case None
  with assms show ?thesis by (simp add: jsmn_parse_primitive_def jsmn_errors)
next
  case (Some e)
  with prim_scan_le [OF this] prim_scan_less [OF this] assms that [of e] show ?thesis
    by (auto simp: jsmn_parse_primitive_def jsmn_alloc_token_def jsmn_fill_token_def jsmn_errors split: if_splits)
qed

lemma open_ok:
  assumes "0 \<le> fst (jsmn_open ty num p t)" "jp_super p < int (jp_next p)" "-1 \<le> jp_super p"
  shows "jp_next p < num" "jsmn_open ty num p t = (0, p\<lparr>jp_super := int (jp_next p), jp_next := Suc (jp_next p)\<rparr>,
    count_child (jp_super p) (t(jp_next p := \<lparr>jt_type = ty, jt_start = int (jp_pos p), jt_end = -1, jt_size = 0\<rparr>)))"
  using assms by (auto simp: jsmn_open_def jsmn_alloc_token_def jsmn_errors Let_def count_child_def fun_eq_iff split: if_splits)

lemma close_ok:
  assumes "0 \<le> fst (jsmn_close ty p t)"
  obtains i where "find_last tok_open t (jp_next p) = Some i" "jt_type (t i) = ty"
    "jsmn_close ty p t = (0, p\<lparr>jp_super := (case find_last tok_open (t(i := (t i)\<lparr>jt_end := int (jp_pos p) + 1\<rparr>)) (Suc i) of
       Some j \<Rightarrow> int j | None \<Rightarrow> -1)\<rparr>, t(i := (t i)\<lparr>jt_end := int (jp_pos p) + 1\<rparr>))"
proof (cases "find_last tok_open t (jp_next p)")
  case None
  with assms show ?thesis by (simp add: jsmn_close_def jsmn_errors)
next
  case (Some i)
  with assms that [of i] show ?thesis by (simp add: jsmn_close_def jsmn_errors Let_def split: if_splits)
qed

lemma super_of_bounds:
  "-1 \<le> (case find_last P t n of Some j \<Rightarrow> int j | None \<Rightarrow> -1)"
  "n \<le> m \<Longrightarrow> (case find_last P t n of Some j \<Rightarrow> int j | None \<Rightarrow> -1) < int m"
  using find_last_Some [of P t n] by (fastforce split: option.splits)+

lemma inv_close:
  assumes "jsmn_inv num t0 p t" "0 \<le> fst (jsmn_close ty p t)"
  shows "jsmn_inv num t0 (fst (jsmn_next (jsmn_close ty p t))) (snd (jsmn_next (jsmn_close ty p t)))"
proof -
  from assms(2) obtain i where i: "find_last tok_open t (jp_next p) = Some i" "jt_type (t i) = ty"
    and r: "jsmn_close ty p t = (0, p\<lparr>jp_super := (case find_last tok_open (t(i := (t i)\<lparr>jt_end := int (jp_pos p) + 1\<rparr>)) (Suc i) of
       Some j \<Rightarrow> int j | None \<Rightarrow> -1)\<rparr>, t(i := (t i)\<lparr>jt_end := int (jp_pos p) + 1\<rparr>))"
    by (rule close_ok)
  from i have i': "i < jp_next p" "tok_open (t i)" using find_last_Some by blast+
  have ok: "tok_ok (jp_pos p) (t j)" if "j < jp_next p" for j using assms(1) that by (simp add: jsmn_inv_def)
  have new: "tok_ok (Suc (jp_pos p)) ((t i)\<lparr>jt_end := int (jp_pos p) + 1\<rparr>)"
    using ok [OF i'(1)] i'(2) by (auto simp: tok_ok_def tok_open_def split: if_splits)
  show ?thesis
    unfolding r jsmn_next_def fst_conv snd_conv
  proof (rule jsmn_invI, goal_cases)
    case (4 j)
    then show ?case using new ok [of j] by (auto intro: tok_ok_mono)
  next
    case (3)
    show ?case using i' by (simp add: super_of_bounds(2) del: find_last.simps)
  qed (use assms(1) i' super_of_bounds(1) in \<open>auto simp: jsmn_inv_def\<close>)
qed

lemma inv_leaf:
  assumes "jsmn_inv num t0 p t" "jp_next p < num" "jp_pos p \<le> e" "tok_ok (Suc e) k"
  shows "jsmn_inv num t0 (fst (jsmn_next (jsmn_leaf (0, p\<lparr>jp_pos := e, jp_next := Suc (jp_next p)\<rparr>, t(jp_next p := k)))))
    (snd (jsmn_next (jsmn_leaf (0, p\<lparr>jp_pos := e, jp_next := Suc (jp_next p)\<rparr>, t(jp_next p := k)))))"
proof -
  have s: "-1 \<le> jp_super p" "jp_super p < int (jp_next p)" using assms(1) by (simp_all add: jsmn_inv_def)
  show ?thesis
    using inv_new [OF assms(1,2), of "p\<lparr>jp_next := Suc (jp_next p), jp_pos := Suc e\<rparr>" k "jp_super p"] assms(3,4) s
    by (simp add: jsmn_leaf_def jsmn_next_def)
qed

lemma inv_open:
  assumes "jsmn_inv num t0 p t" "0 \<le> fst (jsmn_open ty num p t)" "container ty"
  shows "jsmn_inv num t0 (fst (jsmn_next (jsmn_open ty num p t))) (snd (jsmn_next (jsmn_open ty num p t)))"
proof -
  have s: "-1 \<le> jp_super p" "jp_super p < int (jp_next p)" using assms(1) by (simp_all add: jsmn_inv_def)
  note o = open_ok [OF assms(2) s(2,1)]
  have k: "tok_ok (Suc (jp_pos p)) \<lparr>jt_type = ty, jt_start = int (jp_pos p), jt_end = -1, jt_size = 0\<rparr>"
    using assms(3) by (auto simp: tok_ok_def container_def)
  show ?thesis
    using inv_new [OF assms(1) o(1), of "p\<lparr>jp_super := int (jp_next p), jp_next := Suc (jp_next p), jp_pos := Suc (jp_pos p)\<rparr>"
        "\<lparr>jt_type = ty, jt_start = int (jp_pos p), jt_end = -1, jt_size = 0\<rparr>" "jp_super p"] k s
    by (simp add: o(2) jsmn_next_def)
qed

lemma inv_skip:
  assumes "jsmn_inv num t0 p t" "jp_pos q = Suc (jp_pos p)" "jp_next q = jp_next p" "-1 \<le> jp_super q" "jp_super q < int (jp_next p)"
  shows "jsmn_inv num t0 q t"
  using assms tok_ok_mono [of "jp_pos p" _ "jp_pos q"] by (simp add: jsmn_inv_def)

lemma inv_comma:
  assumes "jsmn_inv num t0 p t"
  shows "jsmn_inv num t0 (fst (jsmn_next (jsmn_comma p t))) (snd (jsmn_next (jsmn_comma p t)))"
proof (cases "jp_super p \<noteq> -1 \<and> \<not> container (jt_type (t (nat (jp_super p))))")
  case True
  have s: "-1 \<le> jp_super p" "jp_super p < int (jp_next p)" using assms by (simp_all add: jsmn_inv_def)
  show ?thesis
    using True s find_last_Some [of "\<lambda>k. container (jt_type k) \<and> tok_open k" t "jp_next p"]
    by (cases "find_last (\<lambda>k. container (jt_type k) \<and> tok_open k) t (jp_next p)")
      (auto simp: jsmn_comma_def jsmn_next_def intro!: inv_skip [OF assms])
next
  case False
  then have "jsmn_comma p t = (0, p, t)" by (auto simp: jsmn_comma_def)
  then show ?thesis using assms by (auto simp: jsmn_next_def jsmn_inv_def intro: tok_ok_mono)
qed

lemma step_kind:
  obtains (op) ty where "jsmn_step js len num p t = jsmn_open ty num p t" "container ty" "counted (js (jp_pos p)) = 1"
    | (cl) ty where "jsmn_step js len num p t = jsmn_close ty p t" "counted (js (jp_pos p)) = 0"
    | (str) "jsmn_step js len num p t = jsmn_leaf (jsmn_parse_string js len num p t)" "counted (js (jp_pos p)) = 1"
    | (sp) q where "jsmn_step js len num p t = (0, q, t)" "q = p \<or> q = p\<lparr>jp_super := int (jp_next p) - 1\<rparr>" "counted (js (jp_pos p)) = 0"
    | (com) "jsmn_step js len num p t = jsmn_comma p t" "counted (js (jp_pos p)) = 0"
    | (prim) "jsmn_step js len num p t = jsmn_leaf (jsmn_parse_primitive js len num p t)" "\<not> jsmn_delim (js (jp_pos p))"
        "counted (js (jp_pos p)) = 1"
proof -
  let ?c = "js (jp_pos p)"
  note d = jsmn_step_def Let_def counted_def container_def
  consider "?c = 123" | "?c = 91" | "?c = 125" | "?c = 93" | "?c = 34" | "?c \<in> {9, 13, 10, 32}" | "?c = 58" | "?c = 44"
    | "?c \<notin> {123, 91, 125, 93, 34, 9, 13, 10, 32, 58, 44}" by auto
  then show thesis
  proof cases
    case 1 then show thesis by (intro op [of JSMN_OBJECT]) (simp_all add: d)
  next
    case 2 then show thesis by (intro op [of JSMN_ARRAY]) (simp_all add: d)
  next
    case 3 then show thesis by (intro cl [of JSMN_OBJECT]) (simp_all add: d)
  next
    case 4 then show thesis by (intro cl [of JSMN_ARRAY]) (simp_all add: d)
  next
    case 5 then show thesis by (intro str) (simp_all add: d)
  next
    case 6 then show thesis by (intro sp [of p]) (auto simp: d)
  next
    case 7 then show thesis by (intro sp [OF _ disjI2 [OF refl]]) (simp_all add: d)
  next
    case 8 then show thesis by (intro com) (simp_all add: d)
  next
    case 9 then show thesis by (intro prim) (simp_all add: d jsmn_delim_def)
  qed
qed

lemma step_count:
  assumes pos: "jp_pos p < len" "js (jp_pos p) \<noteq> 0" and r: "0 \<le> fst (jsmn_step js len num p t)"
  shows "int (jp_next (fst (snd (jsmn_step js len num p t)))) = int (jp_next p) + counted (js (jp_pos p))"
proof (cases rule: step_kind [of js len num p t])
  case (op ty)
  with r show ?thesis by (auto simp: jsmn_open_def jsmn_alloc_token_def jsmn_errors Let_def split: if_splits)
next
  case (cl ty)
  with r show ?thesis by (auto elim!: close_ok)
next
  case str
  with r have "0 \<le> fst (jsmn_parse_string js len num p t)" by simp
  with str show ?thesis by (auto simp: jsmn_leaf_def elim!: parse_string_ok)
next
  case com
  then show ?thesis by (simp add: jsmn_comma_def split: option.splits)
next
  case prim
  with r pos have "0 \<le> fst (jsmn_parse_primitive js len num p t)" by simp
  with prim pos show ?thesis by (auto simp: jsmn_leaf_def elim!: parse_primitive_ok)
qed auto

text \<open>One round keeps the invariant and stays within the text.\<close>

lemma inv_step:
  assumes inv: "jsmn_inv num t0 p t" and pos: "jp_pos p < len" "js (jp_pos p) \<noteq> 0"
    and r: "0 \<le> fst (jsmn_step js len num p t)"
  shows "jsmn_inv num t0 (fst (jsmn_next (jsmn_step js len num p t))) (snd (jsmn_next (jsmn_step js len num p t))) \<and>
    jp_pos (fst (jsmn_next (jsmn_step js len num p t))) \<le> len"
proof -
  show ?thesis
  proof (cases rule: step_kind [of js len num p t])
    case op then show ?thesis using inv_open [OF inv] r pos by (auto simp: jsmn_next_def)
  next
    case cl then show ?thesis using inv_close [OF inv] r pos by (auto simp: jsmn_next_def)
  next
    case str
    with r obtain e where e: "jp_pos p < e" "e < len" "jp_next p < num" "jsmn_parse_string js len num p t =
       (0, p\<lparr>jp_pos := e, jp_next := Suc (jp_next p)\<rparr>,
         t(jp_next p := \<lparr>jt_type = JSMN_STRING, jt_start = 1 + int (jp_pos p), jt_end = int e, jt_size = 0\<rparr>))"
      using parse_string_ok [of js len num p t] by auto
    have "tok_ok (Suc e) \<lparr>jt_type = JSMN_STRING, jt_start = 1 + int (jp_pos p), jt_end = int e, jt_size = 0\<rparr>"
      using e by (simp add: tok_ok_def container_def)
    from inv_leaf [OF inv e(3) _ this] e show ?thesis unfolding str by (simp add: jsmn_next_def)
  next
    case sp
    then show ?thesis using inv pos tok_ok_mono [of "jp_pos p" _ "Suc (jp_pos p)"] by (auto simp: jsmn_next_def jsmn_inv_def)
  next
    case com then show ?thesis using inv_comma [OF inv] pos by (simp add: jsmn_next_def)
  next
    case prim
    with r pos obtain e where e: "jp_pos p < e" "e \<le> len" "jp_next p < num" "jsmn_parse_primitive js len num p t =
       (0, p\<lparr>jp_pos := e - 1, jp_next := Suc (jp_next p)\<rparr>,
         t(jp_next p := \<lparr>jt_type = JSMN_PRIMITIVE, jt_start = int (jp_pos p), jt_end = int e, jt_size = 0\<rparr>))"
      using parse_primitive_ok [of js len num p t] by auto
    have "tok_ok (Suc (e - 1)) \<lparr>jt_type = JSMN_PRIMITIVE, jt_start = int (jp_pos p), jt_end = int e, jt_size = 0\<rparr>"
      using e by (simp add: tok_ok_def container_def)
    from inv_leaf [OF inv e(3) _ this] e show ?thesis unfolding prim(1) by (simp add: jsmn_next_def)
  qed
qed

lemma inv_loop:
  assumes "jsmn_inv num t0 p t" "jp_pos p \<le> len" "jsmn_loop js len num n p t = (r, q, u)"
  shows "jsmn_inv num t0 q u \<and> jp_pos q \<le> len \<and> (0 \<le> r \<longrightarrow> (\<forall>i < jp_next q. \<not> tok_open (u i)))"
  using assms
proof (induction js len num n p t rule: jsmn_loop.induct)
  case (1 js len num n p t)
  show ?case
  proof (cases "jp_pos p < len \<and> js (jp_pos p) \<noteq> 0")
    case False
    with "1.prems" show ?thesis
      by (subst (asm) jsmn_loop.simps) (auto simp: find_last_None jsmn_errors split: if_splits)
  next
    case True
    note l = jsmn_loop.simps [of js len num n p t]
    show ?thesis
    proof (cases "fst (jsmn_step js len num p t) < 0")
      case err: True
      with True "1.prems" error_keeps [OF err] show ?thesis by (auto simp: l Let_def)
    next
      case False
      with True "1.prems" inv_step [of num t0 p t len js] show ?thesis
        by (intro "1.IH" [OF True refl False]) (auto simp: l Let_def)
    qed
  qed
qed

subsection \<open>What the parser depends on\<close>

text \<open>Two token memories that agree on the tokens handed out, and a text that agrees up to its length, give the same run.\<close>

lemma prim_scan_cong: "(\<And>i. i < len \<Longrightarrow> js' i = js i) \<Longrightarrow> prim_scan js' len pos = prim_scan js len pos"
proof (induction js len pos rule: prim_scan.induct)
  case (1 js len pos)
  show ?case
  proof (cases "pos < len")
    case True
    with "1.prems" have e: "js' pos = js pos" by blast
    show ?thesis using "1.IH" [OF _ _ _ "1.prems"] True by (simp add: prim_scan.simps [of _ len pos] e)
  qed (simp add: prim_scan.simps [of _ len pos])
qed

lemma hex_scan_cong: "(\<And>i. i < len \<Longrightarrow> js' i = js i) \<Longrightarrow> hex_scan js' len k pos = hex_scan js len k pos"
  by (induction k arbitrary: pos) auto

lemma str_scan_cong: "(\<And>i. i < len \<Longrightarrow> js' i = js i) \<Longrightarrow> str_scan js' len pos = str_scan js len pos"
proof (induction js len pos rule: str_scan.induct)
  case (1 js len pos)
  have h: "hex_scan js' len k q = hex_scan js len k q" for k q using "1.prems" by (rule hex_scan_cong)
  have e: "pos < len \<Longrightarrow> js' pos = js pos" "pos + 1 < len \<Longrightarrow> js' (pos + 1) = js (pos + 1)"
    using "1.prems" by blast+
  show ?case
  proof (cases "pos < len \<and> js pos \<noteq> 0 \<and> js pos \<noteq> 34")
    case True
    with e have t': "pos < len \<and> js' pos \<noteq> 0 \<and> js' pos \<noteq> 34" by simp
    show ?thesis
      using True e "1.IH"(1,2,3) "1.prems"
      unfolding str_scan_step [where js = js and pos = pos and len = len, OF True]
        str_scan_step [where js = js' and pos = pos and len = len, OF t'] h
      by (simp cong: option.case_cong conj_cong if_cong)
  next
    case False
    with e show ?thesis by (auto simp: str_scan_stop)
  qed
qed

definition sup_ok :: "jsmn_parser \<Rightarrow> bool" where
  "sup_ok p \<longleftrightarrow> -1 \<le> jp_super p \<and> jp_super p < int (jp_next p)"

definition agree :: "jsmn_parser \<Rightarrow> toks \<Rightarrow> toks \<Rightarrow> bool" where
  "agree p t t' \<longleftrightarrow> (\<forall>i < jp_next p. t' i = t i)"

definition same_result :: "int \<times> jsmn_parser \<times> toks \<Rightarrow> int \<times> jsmn_parser \<times> toks \<Rightarrow> bool" where
  "same_result x x' \<longleftrightarrow> fst x' = fst x \<and> fst (snd x') = fst (snd x) \<and> agree (fst (snd x)) (snd (snd x)) (snd (snd x'))"

lemma same_string:
  "(\<And>i. i < len \<Longrightarrow> js' i = js i) \<Longrightarrow> agree p t t' \<Longrightarrow>
   same_result (jsmn_parse_string js len num p t) (jsmn_parse_string js' len num p t')"
  using str_scan_cong [of len js' js]
  by (auto simp: same_result_def agree_def jsmn_parse_string_def jsmn_alloc_token_def jsmn_fill_token_def split: sum.splits)

lemma same_primitive:
  "(\<And>i. i < len \<Longrightarrow> js' i = js i) \<Longrightarrow> agree p t t' \<Longrightarrow>
   same_result (jsmn_parse_primitive js len num p t) (jsmn_parse_primitive js' len num p t')"
  using prim_scan_cong [of len js' js]
  by (auto simp: same_result_def agree_def jsmn_parse_primitive_def jsmn_alloc_token_def jsmn_fill_token_def split: option.splits)

lemma same_count: "agree p t t' \<Longrightarrow> -1 \<le> s \<Longrightarrow> s < int (jp_next p) \<Longrightarrow> agree p (count_child s t) (count_child s t')"
  by (auto simp: agree_def count_child_def)

lemma same_leaf: "same_result x x' \<Longrightarrow> sup_ok (fst (snd x)) \<Longrightarrow> same_result (jsmn_leaf x) (jsmn_leaf x')"
  by (auto simp: same_result_def jsmn_leaf_def sup_ok_def intro: same_count)

lemma same_open:
  assumes "agree p t t'" "sup_ok p"
  shows "same_result (jsmn_open ty num p t) (jsmn_open ty num p t')"
  using assms by (auto simp: same_result_def agree_def sup_ok_def jsmn_open_def jsmn_alloc_token_def count_child_def Let_def)

lemma same_close:
  assumes "agree p t t'"
  shows "same_result (jsmn_close ty p t) (jsmn_close ty p t')"
proof -
  have f: "find_last tok_open t' (jp_next p) = find_last tok_open t (jp_next p)"
    using assms by (intro find_last_cong) (simp add: agree_def)
  show ?thesis
  proof (cases "find_last tok_open t (jp_next p)")
    case None
    then show ?thesis using assms by (simp add: jsmn_close_def f same_result_def)
  next
    case (Some i)
    then have i: "i < jp_next p" using find_last_Some by blast
    have e: "t' i = t i" using assms i by (simp add: agree_def)
    have "find_last tok_open (t'(i := k)) (Suc i) = find_last tok_open (t(i := k)) (Suc i)" for k
      using assms i by (intro find_last_cong) (simp add: agree_def)
    then show ?thesis using assms Some e
      by (auto simp: jsmn_close_def f same_result_def agree_def Let_def simp del: find_last.simps)
  qed
qed

lemma same_comma:
  assumes "agree p t t'" "sup_ok p"
  shows "same_result (jsmn_comma p t) (jsmn_comma p t')"
proof -
  let ?P = "\<lambda>k. container (jt_type k) \<and> tok_open k"
  have f: "find_last ?P t' (jp_next p) = find_last ?P t (jp_next p)"
    using assms(1) by (intro find_last_cong) (simp add: agree_def)
  have "jp_super p \<noteq> -1 \<Longrightarrow> nat (jp_super p) < jp_next p" using assms(2) by (auto simp: sup_ok_def)
  then have "jp_super p \<noteq> -1 \<Longrightarrow> t' (nat (jp_super p)) = t (nat (jp_super p))"
    using assms(1) by (simp add: agree_def)
  moreover have "jp_next (case find_last ?P t (jp_next p) of Some i \<Rightarrow> p\<lparr>jp_super := int i\<rparr> | None \<Rightarrow> p) = jp_next p"
    by (simp split: option.splits)
  ultimately show ?thesis
    using assms(1) by (auto simp: same_result_def jsmn_comma_def f agree_def)
qed

lemma same_step:
  assumes js: "\<And>i. i < len \<Longrightarrow> js' i = js i" and "jp_pos p < len" "js (jp_pos p) \<noteq> 0" and a: "agree p t t'" and s: "sup_ok p"
  shows "same_result (jsmn_step js len num p t) (jsmn_step js' len num p t')"
proof -
  have c: "js' (jp_pos p) = js (jp_pos p)" using assms(1,2) by blast
  have str: "sup_ok (fst (snd (jsmn_parse_string js len num p t)))"
    using s by (auto simp: sup_ok_def jsmn_parse_string_def jsmn_alloc_token_def split: sum.splits)
  have prim: "sup_ok (fst (snd (jsmn_parse_primitive js len num p t)))"
    using s by (auto simp: sup_ok_def jsmn_parse_primitive_def jsmn_alloc_token_def split: option.splits)
  note same = same_open [OF a s] same_close [OF a] same_comma [OF a s] same_leaf [OF same_string [OF js a] str]
    same_leaf [OF same_primitive [OF js a] prim]
  show ?thesis
    using same by (simp add: jsmn_step_def Let_def c same_result_def a) (use a in \<open>simp add: agree_def\<close>)
qed

lemma same_loop:
  assumes "\<And>i. i < len \<Longrightarrow> js' i = js i" "jsmn_inv num t0 p t" "jp_pos p \<le> len" "agree p t t'"
  shows "same_result (jsmn_loop js len num n p t) (jsmn_loop js' len num n p t')"
  using assms
proof (induction js len num n p t arbitrary: t' rule: jsmn_loop.induct)
  case (1 js len num n p t)
  note l = jsmn_loop.simps [of js len num n p t] and l' = jsmn_loop.simps [of js' len num n p t']
  have c: "jp_pos p < len \<Longrightarrow> js' (jp_pos p) = js (jp_pos p)" using "1.prems"(1) by blast
  have f: "find_last tok_open t' (jp_next p) = find_last tok_open t (jp_next p)"
    using "1.prems"(4) by (intro find_last_cong) (simp add: agree_def)
  show ?case
  proof (cases "jp_pos p < len \<and> js (jp_pos p) \<noteq> 0")
    case False
    with c "1.prems"(4) show ?thesis by (auto simp: l l' f same_result_def)
  next
    case True
    have "sup_ok p" using "1.prems"(2) by (simp add: jsmn_inv_def sup_ok_def)
    then have st: "same_result (jsmn_step js len num p t) (jsmn_step js' len num p t')"
      using True "1.prems" by (intro same_step) auto
    show ?thesis
    proof (cases "fst (jsmn_step js len num p t) < 0")
      case err: True
      with True c st show ?thesis by (simp add: l l' Let_def same_result_def)
    next
      case False
      have i: "jsmn_inv num t0 (fst (jsmn_next (jsmn_step js len num p t))) (snd (jsmn_next (jsmn_step js len num p t)))"
        "jp_pos (fst (jsmn_next (jsmn_step js len num p t))) \<le> len"
        using inv_step [OF "1.prems"(2)] True False by auto
      have "agree (fst (jsmn_next (jsmn_step js len num p t))) (snd (jsmn_next (jsmn_step js len num p t)))
          (snd (jsmn_next (jsmn_step js' len num p t')))"
        using st by (simp add: same_result_def agree_def jsmn_next_def)
      from "1.IH" [OF True refl False "1.prems"(1) i this] st True False c show ?thesis
        by (simp add: l l' Let_def same_result_def jsmn_next_def)
    qed
  qed
qed

text \<open>
  A run from the start: the tokens lie in the array and describe parts of the text, memory behind them is untouched,
  success means that every bracket is closed and the result is the number of tokens, and nothing depends on what
  the array held or on what stands behind the text.
\<close>

lemma loop_count:
  assumes "jsmn_loop js len num (int (jp_next p)) p t = (r, q, u)" "0 \<le> r"
  shows "r = int (jp_next q)"
  using assms
proof (induction js len num "int (jp_next p)" p t rule: jsmn_loop.induct)
  case (1 js len num p t)
  note l = jsmn_loop.simps [of js len num "int (jp_next p)" p t]
  show ?case
  proof (cases "jp_pos p < len \<and> js (jp_pos p) \<noteq> 0")
    case False
    with "1.prems" show ?thesis by (auto simp: l jsmn_errors split: if_splits)
  next
    case True
    show ?thesis
    proof (cases "fst (jsmn_step js len num p t) < 0")
      case err: True
      with True "1.prems" show ?thesis by (simp add: l Let_def)
    next
      case False
      have "int (jp_next p) + counted (js (jp_pos p)) = int (jp_next (fst (jsmn_next (jsmn_step js len num p t))))"
        using step_count [of p len js num t] True False by (simp add: jsmn_next_def)
      with True False "1.prems" "1.hyps" [OF True refl False this] show ?thesis by (simp add: l Let_def)
    qed
  qed
qed

lemma jsmn_parse_facts:
  assumes "jsmn_parse js len num jsmn_init t0 = (r, p, t)"
  shows "jp_next p \<le> num \<and> jp_pos p \<le> len \<and> (\<forall>i < jp_next p. tok_ok len (t i)) \<and> (\<forall>i \<ge> jp_next p. t i = t0 i) \<and>
    (0 \<le> r \<longrightarrow> r = int (jp_next p) \<and> (\<forall>i < jp_next p. \<not> tok_open (t i))) \<and>
    (\<forall>js' t0'. (\<forall>i < len. js' i = js i) \<longrightarrow>
       same_result (r, p, t) (jsmn_parse js' len num jsmn_init t0'))"
proof -
  have l: "jsmn_loop js len num (int (jp_next jsmn_init)) jsmn_init t0 = (r, p, t)"
    using assms by (simp add: jsmn_parse_def)
  have p0: "jp_pos jsmn_init \<le> len" by (simp add: jsmn_init_def)
  note inv = inv_loop [OF jsmn_inv_init p0 l]
  have "same_result (jsmn_loop js len num (int (jp_next jsmn_init)) jsmn_init t0)
      (jsmn_loop js' len num (int (jp_next jsmn_init)) jsmn_init t0')" if "\<forall>i < len. js' i = js i" for js' t0'
    using that by (intro same_loop [OF _ jsmn_inv_init p0]) (auto simp: agree_def jsmn_init_def)
  then show ?thesis
    using inv loop_count [OF l] by (auto simp: jsmn_inv_def l jsmn_parse_def intro: tok_ok_mono)
qed

text \<open>
  C11. The JSON tokenizer never writes outside its token array and never looks behind the text: whatever the array held before, the
  result, the parser and the tokens handed out are the same, for every text that agrees up to its length. The tokens handed out have a type
  and lie within the text; on success the result is their number and none is left open.
\<close>

theorem jsmn_parse_sound:
  assumes "jsmn_parse js len num jsmn_init t0 = (r, p, t)"
  shows "jp_next p \<le> num \<and> jp_pos p \<le> len \<and> (\<forall>i < jp_next p. tok_ok len (t i)) \<and> (\<forall>i \<ge> jp_next p. t i = t0 i) \<and>
    (0 \<le> r \<longrightarrow> r = int (jp_next p) \<and> (\<forall>i < jp_next p. \<not> tok_open (t i))) \<and>
    (\<forall>js' t0'. (\<forall>i < len. js' i = js i) \<longrightarrow>
       same_result (r, p, t) (jsmn_parse js' len num jsmn_init t0'))"
  using assms by (rule jsmn_parse_facts)

theorem jsmn_parse_sound_witness:
  "\<exists>r p t. jsmn_parse (\<lambda>i. if i = 0 then 49 else 0) 1 4 jsmn_init (\<lambda>i. \<lparr>jt_type = JSMN_UNDEFINED, jt_start = 0, jt_end = 0, jt_size = 0\<rparr>) =
      (r, p, t) \<and> jp_next p \<le> 4 \<and> jt_type (t 4) = JSMN_UNDEFINED \<and>
    same_result (r, p, t) (jsmn_parse (\<lambda>i. 49) 1 4 jsmn_init (\<lambda>i. \<lparr>jt_type = JSMN_STRING, jt_start = 7, jt_end = 9, jt_size = 0\<rparr>))"
proof -
  let ?t0 = "\<lambda>i :: nat. \<lparr>jt_type = JSMN_UNDEFINED, jt_start = 0, jt_end = 0, jt_size = 0\<rparr>"
  obtain r p t where e: "jsmn_parse (\<lambda>i. if i = 0 then 49 else 0) 1 4 jsmn_init ?t0 = (r, p, t)" by (rule prod_cases3)
  from jsmn_parse_sound [OF e] have "jp_next p \<le> 4" "t 4 = ?t0 4"
    "same_result (r, p, t) (jsmn_parse (\<lambda>i. 49) 1 4 jsmn_init (\<lambda>i. \<lparr>jt_type = JSMN_STRING, jt_start = 7, jt_end = 9, jt_size = 0\<rparr>))"
    by simp_all
  with e show ?thesis by auto
qed

end
