(* ===== verification/JsonText.thy ===== *)
theory JsonText imports Jsmn TextEncoder begin

text \<open>
  The specification of the tokenizer: JSON documents, their text without spaces as the text encoder writes it, and
  the tokens of a document's parts in preorder. The tokenizer turns the text of a document into its tokens.
\<close>

subsection \<open>Documents\<close>

datatype json = JPrim "u8 list" | JStr "u8 list" | JArr "json list" | JObj "(u8 list \<times> json) list"

fun jtext :: "json \<Rightarrow> u8 list" where
  "jtext (JPrim b) = b"
| "jtext (JStr b) = 34 # b @ [34]"
| "jtext (JArr ds) = 91 # commas (map jtext ds) @ [93]"
| "jtext (JObj ms) = 123 # commas (map (\<lambda>(k, d). (34 # k @ [34]) @ 58 # jtext d) ms) @ [125]"

type_synonym span = "jsmntype \<times> int \<times> int"

definition core :: "jsmntok \<Rightarrow> span" where
  "core k = (jt_type k, jt_start k, jt_end k)"

fun jtoks :: "nat \<Rightarrow> json \<Rightarrow> span list"
  and jitems :: "nat \<Rightarrow> json list \<Rightarrow> span list"
  and jmembers :: "nat \<Rightarrow> (u8 list \<times> json) list \<Rightarrow> span list" where
  "jtoks p (JPrim b) = [(JSMN_PRIMITIVE, int p, int (p + length b))]"
| "jtoks p (JStr b) = [(JSMN_STRING, int (p + 1), int (p + 1 + length b))]"
| "jtoks p (JArr ds) = (JSMN_ARRAY, int p, int (p + length (jtext (JArr ds)))) # jitems (p + 1) ds"
| "jtoks p (JObj ms) = (JSMN_OBJECT, int p, int (p + length (jtext (JObj ms)))) # jmembers (p + 1) ms"
| "jitems p [] = []"
| "jitems p (d # ds) = jtoks p d @ jitems (p + length (jtext d) + 1) ds"
| "jmembers p [] = []"
| "jmembers p ((k, d) # ms) = (JSMN_STRING, int (p + 1), int (p + 1 + length k)) # jtoks (p + length k + 3) d @
     jmembers (p + length k + 3 + length (jtext d) + 1) ms"

definition prim_char :: "u8 \<Rightarrow> bool" where
  "prim_char c \<longleftrightarrow> 32 < c \<and> c < 127 \<and> c \<notin> {34, 44, 58, 91, 93, 123, 125}"

definition plain :: "u8 list \<Rightarrow> bool" where
  "plain b \<longleftrightarrow> (\<forall>c \<in> set b. c \<noteq> 0 \<and> c \<noteq> 34 \<and> c \<noteq> 92)"

fun jwf :: "json \<Rightarrow> bool" where
  "jwf (JPrim b) = (b \<noteq> [] \<and> list_all prim_char b)"
| "jwf (JStr b) = plain b"
| "jwf (JArr ds) = list_all jwf ds"
| "jwf (JObj ms) = list_all (\<lambda>(k, d). plain k \<and> jwf d) ms"

subsection \<open>Runs of the tokenizer\<close>

definition text_at :: "mem \<Rightarrow> nat \<Rightarrow> u8 list \<Rightarrow> bool" where
  "text_at js p bs \<longleftrightarrow> (\<forall>i < length bs. js (p + i) = bs ! i)"

lemma text_at_Nil [simp]: "text_at js p []"
  by (simp add: text_at_def)

lemma text_at_Cons [simp]: "text_at js p (b # bs) \<longleftrightarrow> js p = b \<and> text_at js (Suc p) bs"
  by (auto simp: text_at_def nth_Cons less_Suc_eq_0_disj split: nat.splits)

lemma text_at_append [simp]: "text_at js p (a @ b) \<longleftrightarrow> text_at js p a \<and> text_at js (p + length a) b"
  by (induction a arbitrary: p) auto

text \<open>A stretch of \<open>k\<close> characters that hands out the tokens \<open>ts\<close>; the sizes of tokens are left open.\<close>

definition scans :: "mem \<Rightarrow> nat \<Rightarrow> nat \<Rightarrow> nat \<Rightarrow> span list \<Rightarrow> jsmn_parser \<Rightarrow> toks \<Rightarrow> jsmn_parser \<Rightarrow> toks \<Rightarrow> bool" where
  "scans js len num k ts p t q u \<longleftrightarrow>
     (\<forall>n. jsmn_loop js len num n p t = jsmn_loop js len num (n + int (length ts)) q u) \<and>
     jp_pos q = jp_pos p + k \<and> jp_next q = jp_next p + length ts \<and>
     (\<forall>i < jp_next p. core (u i) = core (t i)) \<and> (\<forall>i < length ts. core (u (jp_next p + i)) = ts ! i)"

lemma scans_refl [simp]: "scans js len num 0 [] p t p t"
  by (simp add: scans_def)

lemma scans_trans:
  assumes "scans js len num k ts p t q u" "scans js len num l us q u r v"
  shows "scans js len num (k + l) (ts @ us) p t r v"
proof -
  have "core (v (jp_next p + i)) = (ts @ us) ! i" if "i < length (ts @ us)" for i
  proof (cases "i < length ts")
    case True
    then show ?thesis using assms by (simp add: scans_def nth_append)
  next
    case False
    then have "jp_next p + i = jp_next q + (i - length ts)" "i - length ts < length us"
      using assms that by (auto simp: scans_def)
    then show ?thesis using assms(2) False unfolding scans_def by (metis nth_append)
  qed
  then show ?thesis using assms by (simp add: scans_def algebra_simps)
qed

lemma count_child_fields [simp]:
  "jt_type (count_child s t i) = jt_type (t i)" "jt_start (count_child s t i) = jt_start (t i)"
  "jt_end (count_child s t i) = jt_end (t i)"
  by (simp_all add: count_child_def)

lemma core_count [simp]: "core (count_child s t i) = core (t i)"
  by (simp add: core_def)

lemma step_scans:
  assumes "jp_pos p < len" "js (jp_pos p) \<noteq> 0" "0 \<le> fst (jsmn_step js len num p t)"
    and "jp_pos (fst (snd (jsmn_step js len num p t))) + 1 = jp_pos p + k"
    and "\<And>i. i < jp_next p \<Longrightarrow> core (snd (snd (jsmn_step js len num p t)) i) = core (t i)"
    and "counted (js (jp_pos p)) = int (length ts)" "\<And>i. i < length ts \<Longrightarrow> core (snd (snd (jsmn_step js len num p t)) (jp_next p + i)) = ts ! i"
  shows "scans js len num k ts p t (fst (jsmn_next (jsmn_step js len num p t))) (snd (jsmn_next (jsmn_step js len num p t)))"
proof -
  have "jp_next (fst (snd (jsmn_step js len num p t))) = jp_next p + length ts"
    using step_count [of p len js num t] assms(1-3,6) by simp
  then show ?thesis
    using assms unfolding scans_def by (simp add: jsmn_loop.simps [of js len num _ p t] Let_def jsmn_next_def)
qed

lemma scan_separator:
  assumes "jp_pos p < len" "js (jp_pos p) \<in> {58, 44}"
  shows "\<exists>q. scans js len num 1 [] p t q t"
proof (cases "js (jp_pos p) = 58")
  case True
  then show ?thesis
    using step_scans [of p len js num t 1 "[]"] assms by (auto simp: jsmn_step_def counted_def jsmn_next_def)
next
  case False
  then have c: "js (jp_pos p) = 44" using assms by simp
  have "fst (jsmn_comma p t) = 0" "snd (snd (jsmn_comma p t)) = t" by (auto simp: jsmn_comma_def)
  then show ?thesis
    using step_scans [of p len js num t 1 "[]"] assms(1) c by (auto simp: jsmn_step_def counted_def jsmn_next_def)
qed

text \<open>Strings and primitives.\<close>

lemma str_scan_plain:
  "plain b \<Longrightarrow> text_at js pos (b @ [34]) \<Longrightarrow> pos + length b < len \<Longrightarrow> str_scan js len pos = Inr (pos + length b)"
proof (induction b arbitrary: pos)
  case (Cons c b)
  then have "str_scan js len (Suc pos) = Inr (Suc pos + length b)" by (auto simp: plain_def)
  then show ?case using Cons.prems by (simp add: str_scan.simps [of js len pos] plain_def)
qed (simp add: str_scan_stop)

definition stops :: "mem \<Rightarrow> nat \<Rightarrow> nat \<Rightarrow> bool" where
  "stops js len pos \<longleftrightarrow> (pos < len \<and> js pos \<noteq> 0 \<longrightarrow> jsmn_delim (js pos))"

lemma prim_scan_text:
  "list_all prim_char b \<Longrightarrow> text_at js pos b \<Longrightarrow> pos + length b \<le> len \<Longrightarrow> stops js len (pos + length b) \<Longrightarrow>
   prim_scan js len pos = Some (pos + length b)"
proof (induction b arbitrary: pos)
  case Nil
  then show ?case by (auto simp: stops_def prim_scan.simps)
next
  case (Cons c b)
  then have r: "prim_scan js len (Suc pos) = Some (Suc pos + length b)" by auto
  have "\<not> jsmn_delim c" "\<not> c < 32" "\<not> 127 \<le> c" "c \<noteq> 0"
    using Cons.prems(1) by (auto simp: prim_char_def jsmn_delim_def)
  then show ?case using Cons.prems r by (simp add: prim_scan.simps [of js len pos])
qed

lemma scan_string:
  assumes "plain b" "text_at js (jp_pos p) (34 # b @ [34])" "jp_pos p + length b + 2 \<le> len" "jp_next p < num"
  shows "\<exists>q u. scans js len num (length b + 2) [(JSMN_STRING, int (jp_pos p + 1), int (jp_pos p + 1 + length b))] p t q u"
proof -
  have c: "js (jp_pos p) = 34" using assms(2) by simp
  have s: "str_scan js len (jp_pos p + 1) = Inr (jp_pos p + 1 + length b)"
    using str_scan_plain [OF assms(1), of js "jp_pos p + 1" len] assms(2,3) by simp
  let ?k = "\<lparr>jt_type = JSMN_STRING, jt_start = int (jp_pos p + 1), jt_end = int (jp_pos p + 1 + length b), jt_size = 0\<rparr>"
  have st: "jsmn_step js len num p t = (0, p\<lparr>jp_next := Suc (jp_next p), jp_pos := jp_pos p + 1 + length b\<rparr>,
      count_child (jp_super p) (t(jp_next p := ?k)))"
    using assms(4) by (simp add: jsmn_step_def c s [simplified] jsmn_leaf_def jsmn_parse_string_def jsmn_alloc_token_def jsmn_fill_token_def)
  show ?thesis
    by (intro exI, rule step_scans) (use assms(3) in \<open>simp_all add: st c counted_def\<close>, simp_all add: core_def)
qed

lemma scan_primitive:
  assumes "b \<noteq> []" "list_all prim_char b" "text_at js (jp_pos p) b" "jp_pos p + length b \<le> len" "jp_next p < num"
    and "stops js len (jp_pos p + length b)"
  shows "\<exists>q u. scans js len num (length b) [(JSMN_PRIMITIVE, int (jp_pos p), int (jp_pos p + length b))] p t q u"
proof -
  obtain c b' where b: "b = c # b'" using assms(1) by (cases b) auto
  have c: "js (jp_pos p) = c" "prim_char c" using assms(2,3) b by simp_all
  have s: "prim_scan js len (jp_pos p) = Some (jp_pos p + length b)" using prim_scan_text assms by blast
  have ne: "c \<notin> {123, 91, 125, 93, 34, 9, 13, 10, 32, 58, 44}" "c \<noteq> 0" using c(2) by (auto simp: prim_char_def)
  let ?k = "\<lparr>jt_type = JSMN_PRIMITIVE, jt_start = int (jp_pos p), jt_end = int (jp_pos p + length b), jt_size = 0\<rparr>"
  have st: "jsmn_step js len num p t = (0, p\<lparr>jp_next := Suc (jp_next p), jp_pos := jp_pos p + length b - 1\<rparr>,
      count_child (jp_super p) (t(jp_next p := ?k)))"
    using assms(5) ne by (simp add: jsmn_step_def c(1) s jsmn_leaf_def jsmn_parse_primitive_def jsmn_alloc_token_def jsmn_fill_token_def)
  have l: "length b = Suc (length b')" using b by simp
  show ?thesis
    by (intro exI, rule step_scans) (use assms(4) ne c(1) in \<open>simp_all add: st l counted_def\<close>, simp_all add: core_def)
qed

text \<open>Brackets.\<close>

lemma scan_open:
  assumes "ty = JSMN_OBJECT \<and> js (jp_pos p) = 123 \<or> ty = JSMN_ARRAY \<and> js (jp_pos p) = 91" "jp_pos p < len" "jp_next p < num"
  shows "\<exists>q u. scans js len num 1 [(ty, int (jp_pos p), -1)] p t q u"
proof -
  have c: "jsmn_step js len num p t = jsmn_open ty num p t" "js (jp_pos p) \<noteq> 0" "counted (js (jp_pos p)) = 1"
    using assms(1) by (auto simp: jsmn_step_def counted_def)
  show ?thesis
    by (intro exI, rule step_scans) (use assms(2,3) in \<open>simp_all add: c jsmn_open_def jsmn_alloc_token_def Let_def\<close>,
      simp_all add: core_def)
qed

text \<open>Between two positions \<open>m\<close> and \<open>n\<close> of the token array no token is open.\<close>

definition no_open :: "span list \<Rightarrow> bool" where
  "no_open ts \<longleftrightarrow> (\<forall>(ty, s, e) \<in> set ts. e \<noteq> -1)"

lemma tok_open_core: "tok_open k \<longleftrightarrow> (case core k of (ty, s, e) \<Rightarrow> s \<noteq> -1 \<and> e = -1)"
  by (simp add: tok_open_def core_def)

lemma find_open:
  assumes "core (t m) = (ty, int s, -1)" "no_open ts" "\<And>i. i < length ts \<Longrightarrow> core (t (Suc m + i)) = ts ! i"
  shows "find_last tok_open t (Suc m + length ts) = Some m"
  using assms(2,3)
proof (induction ts rule: rev_induct)
  case Nil
  then show ?case using assms(1) by (simp add: tok_open_core)
next
  case (snoc x ts)
  have "core (t (Suc m + length ts)) = x" using snoc.prems(2) [of "length ts"] by simp
  then have "\<not> tok_open (t (Suc m + length ts))" using snoc.prems(1) by (auto simp: tok_open_core no_open_def)
  moreover have "find_last tok_open t (Suc m + length ts) = Some m"
    using snoc.prems by (intro snoc.IH) (auto simp: no_open_def nth_append split: if_splits)
  ultimately show ?case by simp
qed

text \<open>An opening bracket, what stands between, and the closing one.\<close>

lemma scan_container:
  assumes ty: "ty = JSMN_OBJECT \<and> js (jp_pos p) = 123 \<and> js (jp_pos p + 1 + k) = 125 \<or>
      ty = JSMN_ARRAY \<and> js (jp_pos p) = 91 \<and> js (jp_pos p + 1 + k) = 93"
    and len: "jp_pos p + 2 + k \<le> len" and num: "jp_next p < num" and ts: "no_open ts"
    and inner: "\<And>p1 t1. jp_pos p1 = jp_pos p + 1 \<Longrightarrow> jp_next p1 = Suc (jp_next p) \<Longrightarrow> \<exists>q u. scans js len num k ts p1 t1 q u"
  shows "\<exists>q u. scans js len num (k + 2) ((ty, int (jp_pos p), int (jp_pos p + 2 + k)) # ts) p t q u"
proof -
  obtain p1 t1 where 1: "scans js len num 1 [(ty, int (jp_pos p), -1)] p t p1 t1"
    using scan_open [of ty js p len num t] ty len num by auto
  then have "jp_pos p1 = jp_pos p + 1" "jp_next p1 = Suc (jp_next p)" by (auto simp: scans_def)
  from inner [OF this] obtain p2 t2 where 2: "scans js len num k ts p1 t1 p2 t2" by blast
  have 3: "scans js len num (1 + k) ((ty, int (jp_pos p), -1) # ts) p t p2 t2"
    using scans_trans [OF 1 2] by simp
  let ?m = "jp_next p"
  have p2: "jp_pos p2 = jp_pos p + 1 + k" "jp_next p2 = Suc ?m + length ts" using 3 by (auto simp: scans_def)
  have m: "core (t2 ?m) = (ty, int (jp_pos p), -1)" using 3 by (force simp: scans_def)
  have i: "core (t2 (Suc ?m + i)) = ts ! i" if "i < length ts" for i
    using 3 that unfolding scans_def by (metis add_Suc_shift length_Cons not_less_eq nth_Cons_Suc)
  have f: "find_last tok_open t2 (jp_next p2) = Some ?m" unfolding p2 using find_open [OF m ts i] .
  have st: "jsmn_step js len num p2 t2 = jsmn_close ty p2 t2" "js (jp_pos p2) \<noteq> 0" "counted (js (jp_pos p2)) = 0"
    using ty by (auto simp: jsmn_step_def counted_def p2)
  define t3 where "t3 = t2(?m := (t2 ?m)\<lparr>jt_end := int (jp_pos p2) + 1\<rparr>)"
  have cl: "\<exists>s. jsmn_close ty p2 t2 = (0, p2\<lparr>jp_super := s\<rparr>, t3)"
    using m by (simp add: jsmn_close_def f Let_def core_def t3_def del: find_last.simps) blast
  then obtain s where cl: "jsmn_close ty p2 t2 = (0, p2\<lparr>jp_super := s\<rparr>, t3)" by blast
  have run: "jsmn_loop js len num n p2 t2 = jsmn_loop js len num n (p2\<lparr>jp_super := s, jp_pos := Suc (jp_pos p2)\<rparr>) t3" for n
    using len p2 st by (simp add: jsmn_loop.simps [of js len num n p2 t2] Let_def jsmn_next_def cl)
  have "scans js len num (k + 2) ((ty, int (jp_pos p), int (jp_pos p + 2 + k)) # ts) p t
      (p2\<lparr>jp_super := s, jp_pos := Suc (jp_pos p2)\<rparr>) t3"
    using 3 p2 m unfolding scans_def run
    by (auto simp: t3_def nth_Cons i core_def split: nat.splits)
  then show ?thesis by blast
qed

subsection \<open>The tokens of a document\<close>

lemma no_open_append [simp]: "no_open (a @ b) \<longleftrightarrow> no_open a \<and> no_open b"
  by (simp add: no_open_def ball_Un)

lemma no_open_Cons [simp]: "no_open ((ty, s, e) # b) \<longleftrightarrow> e \<noteq> -1 \<and> no_open b"
  by (auto simp: no_open_def)

lemma no_open_Nil [simp]: "no_open []"
  by (simp add: no_open_def)

lemma no_open_tokens: "no_open (jtoks p d)" "no_open (jitems p ds)" "no_open (jmembers p ms)"
  by (induction p d and p ds and p ms rule: jtoks_jitems_jmembers.induct) auto

lemma commas_Cons: "commas (t # ts) = t @ (if ts = [] then [] else 44 # commas ts)"
  by (cases ts) auto

lemma scans_exE:
  assumes "\<exists>q u. scans js len num k ts p t q u"
  obtains q u where "scans js len num k ts p t q u" "jp_pos q = jp_pos p + k" "jp_next q = jp_next p + length ts"
  using assms by (auto simp: scans_def)

lemma scan_tokens:
  "jwf d \<Longrightarrow> jp_pos p = a \<Longrightarrow> text_at js a (jtext d) \<Longrightarrow> a + length (jtext d) \<le> len \<Longrightarrow> stops js len (a + length (jtext d)) \<Longrightarrow>
   jp_next p + length (jtoks a d) \<le> num \<Longrightarrow> \<exists>q u. scans js len num (length (jtext d)) (jtoks a d) p t q u"
  "list_all jwf ds \<Longrightarrow> jp_pos p = a \<Longrightarrow> text_at js a (commas (map jtext ds) @ [93]) \<Longrightarrow> a + length (commas (map jtext ds)) < len \<Longrightarrow>
   jp_next p + length (jitems a ds) \<le> num \<Longrightarrow> \<exists>q u. scans js len num (length (commas (map jtext ds))) (jitems a ds) p t q u"
  "list_all (\<lambda>(k, d). plain k \<and> jwf d) ms \<Longrightarrow> jp_pos p = a \<Longrightarrow>
   text_at js a (commas (map (\<lambda>(k, d). (34 # k @ [34]) @ 58 # jtext d) ms) @ [125]) \<Longrightarrow>
   a + length (commas (map (\<lambda>(k, d). (34 # k @ [34]) @ 58 # jtext d) ms)) < len \<Longrightarrow>
   jp_next p + length (jmembers a ms) \<le> num \<Longrightarrow>
   \<exists>q u. scans js len num (length (commas (map (\<lambda>(k, d). (34 # k @ [34]) @ 58 # jtext d) ms))) (jmembers a ms) p t q u"
proof (induction a d and a ds and a ms arbitrary: p t and p t and p t rule: jtoks_jitems_jmembers.induct)
  case (1 a b)
  then show ?case using scan_primitive [of b js p len num t] by simp
next
  case (2 a b)
  then show ?case using scan_string [of b js p len num t] by simp
next
  case (3 a ds)
  have inner: "\<exists>q u. scans js len num (length (commas (map jtext ds))) (jitems (a + 1) ds) p1 t1 q u"
    if "jp_pos p1 = jp_pos p + 1" "jp_next p1 = Suc (jp_next p)" for p1 t1
    using "3.prems" that by (intro "3.IH") simp_all
  have "\<exists>q u. scans js len num (length (commas (map jtext ds)) + 2)
      ((JSMN_ARRAY, int (jp_pos p), int (jp_pos p + 2 + length (commas (map jtext ds)))) # jitems (a + 1) ds) p t q u"
    by (rule scan_container [OF _ _ _ _ inner]) (use "3.prems" in \<open>simp_all add: no_open_tokens\<close>)
  then show ?case using "3.prems" by (simp add: add.commute add.left_commute)
next
  case (4 a ms)
  let ?k = "length (commas (map (\<lambda>(k, d). (34 # k @ [34]) @ 58 # jtext d) ms))"
  have inner: "\<exists>q u. scans js len num ?k (jmembers (a + 1) ms) p1 t1 q u"
    if "jp_pos p1 = jp_pos p + 1" "jp_next p1 = Suc (jp_next p)" for p1 t1
    using "4.prems" that by (intro "4.IH") simp_all
  have "\<exists>q u. scans js len num (?k + 2)
      ((JSMN_OBJECT, int (jp_pos p), int (jp_pos p + 2 + ?k)) # jmembers (a + 1) ms) p t q u"
    by (rule scan_container [OF _ _ _ _ inner]) (use "4.prems" in \<open>simp_all add: no_open_tokens\<close>)
  then show ?case using "4.prems" by (simp add: add.commute add.left_commute)
next
  case (5 a)
  show ?case by (simp, intro exI, rule scans_refl)
next
  case (6 a d ds)
  let ?l = "length (jtext d)"
  have n: "jp_next p + length (jtoks a d) \<le> num" using "6.prems"(5) by simp
  show ?case
  proof (cases "ds = []")
    case True
    with "6.prems" have "stops js len (a + ?l)" by (simp add: stops_def jsmn_delim_def)
    with "6.prems" n True "6.IH"(1) show ?thesis by (simp add: commas_Cons)
  next
    case False
    with "6.prems" have t: "text_at js a (jtext d)" "js (a + ?l) = 44" "a + ?l < len"
      "text_at js (a + ?l + 1) (commas (map jtext ds) @ [93])" "a + ?l + 1 + length (commas (map jtext ds)) < len"
      by (auto simp: commas_Cons)
    have "stops js len (a + ?l)" using t(2) by (simp add: stops_def jsmn_delim_def)
    with "6.prems"(1,2) t n obtain p1 t1 where 1: "scans js len num ?l (jtoks a d) p t p1 t1"
      and p1: "jp_pos p1 = a + ?l" "jp_next p1 = jp_next p + length (jtoks a d)"
      using "6.IH"(1) [of p t] by (auto elim!: scans_exE)
    obtain p2 where 2: "scans js len num 1 [] p1 t1 p2 t1" using scan_separator [of p1 len js num t1] p1 t by auto
    then have p2: "jp_pos p2 = a + ?l + 1" "jp_next p2 = jp_next p1" using p1 by (auto simp: scans_def)
    obtain q u where 3: "scans js len num (length (commas (map jtext ds))) (jitems (a + ?l + 1) ds) p2 t1 q u"
      using "6.IH"(2) [of p2 t1] "6.prems"(1,5) t p1 p2 by auto
    from scans_trans [OF 1 scans_trans [OF 2 3]] False show ?thesis by (auto simp: commas_Cons)
  qed
next
  case (7 a)
  show ?case by (simp, intro exI, rule scans_refl)
next
  case (8 a k d ms)
  let ?f = "\<lambda>(k, d). (34 # k @ [34]) @ 58 # jtext d"
  let ?l = "length (jtext d)" and ?b = "a + length k + 3"
  have t0: "text_at js a (34 # k @ [34])" "js (a + length k + 2) = 58" "text_at js ?b (jtext d)"
    "text_at js (?b + ?l) ((if ms = [] then [] else 44 # commas (map ?f ms)) @ [125])"
    "?b + ?l + length (if ms = [] then [] else 44 # commas (map ?f ms)) < len"
    using "8.prems"(3,4) by (auto simp: commas_Cons ac_simps eval_nat_numeral split: if_splits)
  have n: "jp_next p + 1 + length (jtoks ?b d) + length (jmembers (?b + ?l + 1) ms) \<le> num" using "8.prems"(5) by simp
  obtain p1 t1 where 1: "scans js len num (length k + 2) [(JSMN_STRING, int (a + 1), int (a + 1 + length k))] p t p1 t1"
    and p1: "jp_pos p1 = a + (length k + 2)" "jp_next p1 = jp_next p + 1"
    using scan_string [of k js p len num t] "8.prems"(1,2) t0 n by (auto elim!: scans_exE)
  obtain p2 where 2: "scans js len num 1 [] p1 t1 p2 t1"
    using scan_separator [of p1 len js num t1] p1 t0 by (auto simp: ac_simps)
  then have p2: "jp_pos p2 = ?b" "jp_next p2 = jp_next p + 1" using p1 by (auto simp: scans_def)
  have "stops js len (?b + ?l)" using t0(4) by (auto simp: stops_def jsmn_delim_def split: if_splits)
  then obtain p3 t3 where 3: "scans js len num ?l (jtoks ?b d) p2 t1 p3 t3"
    and p3: "jp_pos p3 = ?b + ?l" "jp_next p3 = jp_next p + 1 + length (jtoks ?b d)"
    using "8.IH"(1) [of p2 t1] "8.prems"(1) t0 p2 n by (auto elim!: scans_exE)
  note 123 = scans_trans [OF 1 scans_trans [OF 2 3]]
  show ?case
  proof (cases "ms = []")
    case True
    with 123 show ?thesis by (auto simp: ac_simps)
  next
    case False
    obtain p4 where 4: "scans js len num 1 [] p3 t3 p4 t3"
      using scan_separator [of p3 len js num t3] p3 t0(4,5) False by auto
    then have p4: "jp_pos p4 = ?b + ?l + 1" "jp_next p4 = jp_next p3" using p3 by (auto simp: scans_def)
    obtain q u where 5: "scans js len num (length (commas (map ?f ms))) (jmembers (?b + ?l + 1) ms) p4 t3 q u"
      using "8.IH"(2) [of p4 t3] "8.prems"(1) t0(4,5) False p3 p4 n by auto
    from scans_trans [OF 123 scans_trans [OF 4 5]] False show ?thesis by (auto simp: commas_Cons ac_simps)
  qed
qed

lemma document_tokens:
  assumes "jwf d" "text_at js 0 (jtext d)" "length (jtext d) \<le> len" "length (jtext d) < len \<longrightarrow> js (length (jtext d)) = 0"
    and "length (jtoks 0 d) \<le> num"
  shows "\<exists>p t. jsmn_parse js len num jsmn_init t0 = (int (length (jtoks 0 d)), p, t) \<and>
    jp_next p = length (jtoks 0 d) \<and> (\<forall>i < length (jtoks 0 d). core (t i) = jtoks 0 d ! i)"
proof -
  have st: "stops js len (0 + length (jtext d))" using assms(4) by (auto simp: stops_def)
  obtain q u where s: "scans js len num (length (jtext d)) (jtoks 0 d) jsmn_init t0 q u"
    using scan_tokens(1) [of d jsmn_init 0 js len num t0] assms st by (auto simp: jsmn_init_def)
  then have q: "jp_pos q = length (jtext d)" "jp_next q = length (jtoks 0 d)"
    and c: "\<forall>i < length (jtoks 0 d). core (u i) = jtoks 0 d ! i"
    by (auto simp: scans_def jsmn_init_def)
  have "\<not> tok_open (u i)" if "i < length (jtoks 0 d)" for i
  proof -
    from no_open_tokens(1) [of 0 d] nth_mem [OF that] have "snd (snd (jtoks 0 d ! i)) \<noteq> -1"
      by (auto simp: no_open_def)
    then show ?thesis using c that by (auto simp: tok_open_core split: prod.splits)
  qed
  then have "find_last tok_open u (jp_next q) = None" by (simp add: find_last_None q)
  then have "jsmn_loop js len num n q u = (n, q, u)" for n
    using q assms(3,4) by (auto simp: jsmn_loop.simps [of js len num n q u])
  then have "jsmn_parse js len num jsmn_init t0 = (int (length (jtoks 0 d)), q, u)"
    using s by (simp add: jsmn_parse_def scans_def jsmn_init_def)
  with q c show ?thesis by blast
qed

text \<open>
  C12. The tokenizer implements its specification: given the text of a document, followed by the end of the text or a NUL, and an array with room
  for its tokens, it returns their number and hands out exactly the tokens of the document's parts in preorder, whatever the array held before.
\<close>

theorem jsmn_tokens_of_document:
  assumes "jwf d" "text_at js 0 (jtext d)" "length (jtext d) \<le> len" "length (jtext d) < len \<longrightarrow> js (length (jtext d)) = 0"
    and "length (jtoks 0 d) \<le> num"
  shows "\<exists>p t. jsmn_parse js len num jsmn_init t0 = (int (length (jtoks 0 d)), p, t) \<and>
    jp_next p = length (jtoks 0 d) \<and> (\<forall>i < length (jtoks 0 d). core (t i) = jtoks 0 d ! i)"
  using assms by (rule document_tokens)

theorem jsmn_tokens_of_document_witness:
  "\<exists>p t. jsmn_parse (\<lambda>i. if i < 12 then bytes_of ''{\"a\":[1,-2]}'' ! i else 0) 12 5 jsmn_init
      (\<lambda>i. \<lparr>jt_type = JSMN_STRING, jt_start = 7, jt_end = 9, jt_size = 0\<rparr>) = (5, p, t) \<and>
    core (t 0) = (JSMN_OBJECT, 0, 12) \<and> core (t 2) = (JSMN_ARRAY, 5, 11) \<and> core (t 4) = (JSMN_PRIMITIVE, 8, 10)"
proof -
  let ?d = "JObj [(bytes_of ''a'', JArr [JPrim (bytes_of ''1''), JPrim (bytes_of ''-2'')])]"
  have t: "jtext ?d = bytes_of ''{\"a\":[1,-2]}''" by (simp add: bytes_of_def)
  have k: "jtoks 0 ?d = [(JSMN_OBJECT, 0, 12), (JSMN_STRING, 2, 3), (JSMN_ARRAY, 5, 11), (JSMN_PRIMITIVE, 6, 7), (JSMN_PRIMITIVE, 8, 10)]"
    by (simp add: bytes_of_def)
  have w: "jwf ?d" by (simp add: bytes_of_def plain_def prim_char_def)
  have a: "text_at (\<lambda>i. if i < 12 then bytes_of ''{\"a\":[1,-2]}'' ! i else 0) 0 (jtext ?d)"
    unfolding t by (simp add: text_at_def bytes_of_def)
  have l: "length (jtext ?d) = 12" unfolding t by (simp add: bytes_of_def)
  have n: "length (jtoks 0 ?d) = 5" unfolding k by simp
  have "length (jtext ?d) \<le> 12" "length (jtext ?d) < 12 \<longrightarrow> (if length (jtext ?d) < 12 then bytes_of ''{\"a\":[1,-2]}'' ! length (jtext ?d) else 0) = 0"
    "length (jtoks 0 ?d) \<le> 5" unfolding l n by simp_all
  from jsmn_tokens_of_document [OF w a this, of "\<lambda>i. \<lparr>jt_type = JSMN_STRING, jt_start = 7, jt_end = 9, jt_size = 0\<rparr>"]
  obtain p t where r: "jsmn_parse (\<lambda>i. if i < 12 then bytes_of ''{\"a\":[1,-2]}'' ! i else 0) 12 5 jsmn_init
      (\<lambda>i. \<lparr>jt_type = JSMN_STRING, jt_start = 7, jt_end = 9, jt_size = 0\<rparr>) = (5, p, t)"
    and c: "\<forall>i < 5. core (t i) = jtoks 0 ?d ! i" unfolding n by auto
  from c have "core (t 0) = jtoks 0 ?d ! 0" "core (t 2) = jtoks 0 ?d ! 2" "core (t 4) = jtoks 0 ?d ! 4" by simp_all
  then have "core (t 0) = (JSMN_OBJECT, 0, 12) \<and> core (t 2) = (JSMN_ARRAY, 5, 11) \<and> core (t 4) = (JSMN_PRIMITIVE, 8, 10)"
    unfolding k by simp
  with r show ?thesis by blast
qed

end
