(* ===== verification/TextDecoder.thy ===== *)
theory TextDecoder imports JsonText BinaryDecoder begin

text \<open>
  The text decoder: include/thingset++/ThingSetTextDecoder.hpp and src/ThingSetTextDecoder.cpp, an instance of the
  decoder interface over the tokens of Jsmn.thy. The object keeps the text, the place it has read up to, the
  index of the next token, the parser and the token array. The memory from the text's first character on is a list
  that goes on behind the text; bytes behind the list are zero. The array starts as whatever was in its memory.
  strtoul and its relatives are modelled from the C standard for decimal input, infinities and NaN.

  The second half shows that numbers, arrays of numbers and classes with such members that the text encoder wrote are read back,
  and where the decoder departs from what it means to do.
\<close>

subsection \<open>Numbers in C\<close>

definition c_space :: "u8 \<Rightarrow> bool" where "c_space c \<longleftrightarrow> c = 32 \<or> (9 \<le> c \<and> c \<le> 13)"
definition c_digit :: "u8 \<Rightarrow> bool" where "c_digit c \<longleftrightarrow> 48 \<le> c \<and> c \<le> 57"

definition dec_value :: "u8 list \<Rightarrow> nat" where
  "dec_value ds = foldl (\<lambda>n c. 10 * n + (unat c - 48)) 0 ds"

text \<open>Spaces, sign and digits: is it negative, its digits, and the number of characters consumed, 0 without digits.\<close>

definition c_integer :: "u8 list \<Rightarrow> bool \<times> nat \<times> nat" where
  "c_integer s =
    (let sp = length (takeWhile c_space s); t = drop sp s;
         sg = (if t \<noteq> [] \<and> hd t \<in> {43, 45} then 1 else 0);
         ds = takeWhile c_digit (drop sg t)
     in (sg = 1 \<and> hd t = 45, dec_value ds, if ds = [] then 0 else sp + sg + length ds))"

text \<open>\<open>strtoul\<close> and \<open>strtol\<close> for a long of \<open>b\<close> bits.\<close>

definition c_strtoul :: "nat \<Rightarrow> u8 list \<Rightarrow> int \<times> nat" where
  "c_strtoul b s = (case c_integer s of (neg, n, k) \<Rightarrow>
     (if 2 ^ b \<le> n then 2 ^ b - 1 else if neg then (- int n) mod 2 ^ b else int n, k))"

definition c_strtol :: "nat \<Rightarrow> u8 list \<Rightarrow> int \<times> nat" where
  "c_strtol b s = (case c_integer s of (neg, n, k) \<Rightarrow>
     (if neg then max (- (2 ^ (b - 1))) (- int n) else min (2 ^ (b - 1) - 1) (int n), k))"

text \<open>The IEEE 754 number nearest to \<open>n / d\<close>, ties to even.\<close>

fun log2_floor :: "nat \<Rightarrow> nat" where
  "log2_floor n = (if n < 2 then 0 else Suc (log2_floor (n div 2)))"

declare log2_floor.simps [simp del]

definition ieee_nearest :: "nat \<Rightarrow> nat \<Rightarrow> nat \<Rightarrow> nat \<Rightarrow> nat" where
  "ieee_nearest ebits mbits n d =
    (if n = 0 then 0
     else (let e0 = int (log2_floor n) - int (log2_floor d);
             e1 = (if n * 2 ^ nat (- e0) < d * 2 ^ nat e0 then e0 - 1 else e0);
             emin = 2 - 2 ^ (ebits - 1);
             e = max e1 emin;
             q = e - int mbits;
             m = round_half_even (n * 2 ^ nat (- q)) (d * 2 ^ nat q)
           in min (nat (e - emin) * 2 ^ mbits + m) ((2 ^ ebits - 1) * 2 ^ mbits)))"

definition lower :: "u8 \<Rightarrow> u8" where "lower c = (if 65 \<le> c \<and> c \<le> 90 then c + 32 else c)"

definition c_prefix :: "u8 list \<Rightarrow> u8 list \<Rightarrow> bool" where
  "c_prefix w s \<longleftrightarrow> take (length w) (map lower s) = w"

text \<open>A decimal number without sign: numerator, denominator and length, 0 if there is none.\<close>

definition c_decimal :: "u8 list \<Rightarrow> nat \<times> nat \<times> nat" where
  "c_decimal s =
    (let ds = takeWhile c_digit s; t = drop (length ds) s;
         fs = (if t \<noteq> [] \<and> hd t = 46 then takeWhile c_digit (tl t) else []);
         k = length ds + (if t \<noteq> [] \<and> hd t = 46 then 1 + length fs else 0);
         u = drop k s;
         (xneg, x, xk) = (if u \<noteq> [] \<and> lower (hd u) = 101 \<and> tl u \<noteq> [] \<and> \<not> c_space (hd (tl u)) then c_integer (tl u) else (False, 0, 0));
         n = dec_value (ds @ fs)
     in (if ds = [] \<and> fs = [] then (0, 1, 0)
         else (n * (if xneg then 1 else 10 ^ x), 10 ^ length fs * (if xneg then 10 ^ x else 1), k + (if xk = 0 then 0 else 1 + xk))))"

definition c_strtod :: "u8 list \<Rightarrow> u64 \<times> nat" where
  "c_strtod s =
    (let sp = length (takeWhile c_space s); t = drop sp s;
         sg = (if t \<noteq> [] \<and> hd t \<in> {43, 45} then 1 else 0); u = drop sg t;
         (bits, k) = (if c_prefix (bytes_of ''infinity'') u then (0x7FF0000000000000, 8)
           else if c_prefix (bytes_of ''inf'') u then (0x7FF0000000000000, 3)
           else if c_prefix (bytes_of ''nan'') u then (0x7FF8000000000000, 3)
           else case c_decimal u of (n, d, k) \<Rightarrow> (of_nat (ieee_nearest 11 52 n d), k))
     in if k = 0 then (0, 0)
        else ((if sg = 1 \<and> hd t = 45 then bits OR 0x8000000000000000 else bits), sp + sg + k))"

text \<open>Conversion of a double to a float.\<close>

definition f64_to_f32 :: "u64 \<Rightarrow> u32" where
  "f64_to_f32 v =
    (let b = unat v; ex = b div 2 ^ 52 mod 2 ^ 11; fr = b mod 2 ^ 52; sg = b div 2 ^ 63;
         m = (if ex = 0 then fr else fr + 2 ^ 52); e = (if ex = 0 then 1 else int ex) - 1075
     in of_nat (sg * 2 ^ 31 + (if ex = 2047 then 255 * 2 ^ 23 + (if fr = 0 then 0 else 2 ^ 22 + fr div 2 ^ 29 mod 2 ^ 22)
          else ieee_nearest 8 23 (m * 2 ^ nat e) (2 ^ nat (- e)))))"

subsection \<open>The decoder\<close>

record text_decoder =
  td_mem :: "u8 list"        \<comment> \<open>_inputBuffer and what lies behind it\<close>
  td_size :: nat             \<comment> \<open>_bufferSize\<close>
  td_ptr :: nat              \<comment> \<open>_bufferElemPtr\<close>
  td_idx :: nat              \<comment> \<open>_tokenIndex\<close>
  td_parser :: jsmn_parser
  td_toks :: toks

definition TEXT_DECODER_DEFAULT_MAX_TOKENS :: nat where "TEXT_DECODER_DEFAULT_MAX_TOKENS = 64"

definition td_make :: "toks \<Rightarrow> u8 list \<Rightarrow> nat \<Rightarrow> text_decoder" where
  "td_make stale m n = \<lparr>td_mem = m, td_size = n, td_ptr = 0, td_idx = 0, td_parser = jsmn_init, td_toks = stale\<rparr>"

definition mem_at :: "u8 list \<Rightarrow> mem" where "mem_at m i = (if i < length m then m ! i else 0)"

definition size_of_int :: "int \<Rightarrow> nat" where "size_of_int i = nat (i mod 2 ^ 64)"

text \<open>\<open>getTokens\<close>: the result of the parser is not looked at.\<close>

definition td_getTokens :: "nat \<Rightarrow> text_decoder \<Rightarrow> text_decoder" where
  "td_getTokens num d =
    (if jp_next (td_parser d) = 0
     then (case jsmn_parse (mem_at (td_mem d)) (td_size d) num (td_parser d) (td_toks d) of
       (_, p, t) \<Rightarrow> d\<lparr>td_parser := p, td_toks := t\<rparr>)
     else d)"

definition td_expectType :: "nat \<Rightarrow> jsmntype \<Rightarrow> text_decoder \<Rightarrow> jsmntok option \<times> text_decoder" where
  "td_expectType num ty d0 =
    (let d = td_getTokens num d0; k = td_toks d (td_idx d) in
     if jt_type k \<noteq> ty then (None, d)
     else (Some k, d\<lparr>td_ptr := size_of_int (jt_start k + (if container ty then 1 else 0)), td_idx := td_idx d + 1\<rparr>))"

definition td_slice :: "text_decoder \<Rightarrow> jsmntok \<Rightarrow> u8 list" where
  "td_slice d k = map (\<lambda>i. mem_at (td_mem d) (td_ptr d + i)) [0..<size_of_int (jt_end k - jt_start k)]"

definition td_str :: "nat \<Rightarrow> text_decoder \<Rightarrow> string option \<times> text_decoder" where
  "td_str num d = (case td_expectType num JSMN_STRING d of
     (None, d1) \<Rightarrow> (None, d1) | (Some k, d1) \<Rightarrow> (Some (map (\<lambda>b. char_of (unat b)) (td_slice d1 k)), d1))"

text \<open>Into a buffer of \<open>cap\<close> characters: what is written from its start, without a terminator.\<close>

definition td_chars :: "nat \<Rightarrow> nat \<Rightarrow> text_decoder \<Rightarrow> u8 list option \<times> text_decoder" where
  "td_chars num cap d = (case td_expectType num JSMN_STRING d of
     (None, d1) \<Rightarrow> (None, d1)
   | (Some k, d1) \<Rightarrow> if size_of_int (jt_end k - jt_start k) \<le> cap then (Some (strncpy_bytes (td_slice d1 k)), d1) else (None, d1))"

definition td_decodePrimitive :: "nat \<Rightarrow> (u8 list \<Rightarrow> 'v \<times> nat) \<Rightarrow> text_decoder \<Rightarrow> 'v option \<times> text_decoder" where
  "td_decodePrimitive num parse d = (case td_expectType num JSMN_PRIMITIVE d of
     (None, d1) \<Rightarrow> (None, d1)
   | (Some k, d1) \<Rightarrow> (case parse (drop (size_of_int (jt_start k)) (td_mem d1)) of
       (v, consumed) \<Rightarrow> (Some v, d1\<lparr>td_ptr := td_ptr d1 + consumed\<rparr>)))"

definition td_isLiteral :: "string \<Rightarrow> text_decoder \<Rightarrow> bool" where
  "td_isLiteral w d \<longleftrightarrow> text_at (mem_at (td_mem d)) (td_ptr d) (bytes_of w)"

definition td_bool :: "nat \<Rightarrow> text_decoder \<Rightarrow> bool option \<times> text_decoder" where
  "td_bool num d = (case td_expectType num JSMN_PRIMITIVE d of
     (None, d1) \<Rightarrow> (None, d1)
   | (Some k, d1) \<Rightarrow> if td_isLiteral ''true'' d1 then (Some True, d1)
       else if td_isLiteral ''false'' d1 then (Some False, d1) else (None, d1))"

definition td_null :: "nat \<Rightarrow> text_decoder \<Rightarrow> bool \<times> text_decoder" where
  "td_null num d = (case td_expectType num JSMN_PRIMITIVE d of
     (None, d1) \<Rightarrow> (False, d1) | (Some k, d1) \<Rightarrow> (td_isLiteral ''null'' d1, d1))"

definition td_start :: "nat \<Rightarrow> jsmntype \<Rightarrow> text_decoder \<Rightarrow> bool \<times> text_decoder" where
  "td_start num ty d = (case td_expectType num ty d of (k, d1) \<Rightarrow> (k \<noteq> None, d1))"

definition td_end :: "u8 \<Rightarrow> text_decoder \<Rightarrow> bool \<times> text_decoder" where
  "td_end c d = (if mem_at (td_mem d) (td_ptr d) = c then (True, d\<lparr>td_ptr := td_ptr d + 1\<rparr>) else (False, d))"

definition td_in :: "u8 \<Rightarrow> text_decoder \<Rightarrow> bool" where
  "td_in c d \<longleftrightarrow> td_ptr d < td_size d \<and> mem_at (td_mem d) (td_ptr d) \<noteq> c"

definition td_peekType :: "nat \<Rightarrow> text_decoder \<Rightarrow> enc_type" where
  "td_peekType num d0 =
    (let d = td_getTokens num d0 in
     case jt_type (td_toks d (td_idx d)) of
       JSMN_PRIMITIVE \<Rightarrow> et_primitive | JSMN_STRING \<Rightarrow> et_string | JSMN_ARRAY \<Rightarrow> et_list | JSMN_OBJECT \<Rightarrow> et_map
     | JSMN_UNDEFINED \<Rightarrow> et_unknown)"

definition td_skip :: "nat \<Rightarrow> text_decoder \<Rightarrow> bool \<times> text_decoder" where
  "td_skip num d0 =
    (let d = td_getTokens num (d0\<lparr>td_idx := td_idx d0 + 1\<rparr>) in
     (True, d\<lparr>td_ptr := size_of_int (jt_start (td_toks d (td_idx d)))\<rparr>))"

definition td_bytes :: "nat \<Rightarrow> text_decoder \<Rightarrow> u8 list option \<times> text_decoder" where
  "td_bytes cap d = (None, d)"

definition td_ensureListSize :: "nat \<Rightarrow> text_decoder \<Rightarrow> nat option \<times> text_decoder" where
  "td_ensureListSize n d = (Some n, d)"

text \<open>The conversions to the integer types: a static_cast of what strtoul or strtol answers.\<close>

definition td_unsigned :: "nat \<Rightarrow> nat \<Rightarrow> text_decoder \<Rightarrow> ('a::len) word option \<times> text_decoder" where
  "td_unsigned num b = td_decodePrimitive num (\<lambda>s. case c_strtoul b s of (v, k) \<Rightarrow> (of_int v, k))"

definition td_signed :: "nat \<Rightarrow> nat \<Rightarrow> text_decoder \<Rightarrow> ('a::len) word option \<times> text_decoder" where
  "td_signed num b = td_decodePrimitive num (\<lambda>s. case c_strtol b s of (v, k) \<Rightarrow> (of_int v, k))"

definition td_f32 :: "nat \<Rightarrow> text_decoder \<Rightarrow> u32 option \<times> text_decoder" where
  "td_f32 num = td_decodePrimitive num (\<lambda>s. case c_strtod s of (v, k) \<Rightarrow> (f64_to_f32 v, k))"

definition td_f64 :: "nat \<Rightarrow> text_decoder \<Rightarrow> u64 option \<times> text_decoder" where
  "td_f64 num = td_decodePrimitive num c_strtod"

text \<open>The width of a long is that of the platform.\<close>

definition text_decoder_ops :: "nat \<Rightarrow> nat \<Rightarrow> text_decoder decoder_ops" where
  "text_decoder_ops long num = \<lparr>
     d_str = td_str num,
     d_f32 = td_f32 num,
     d_f64 = td_f64 num,
     d_bool = td_bool num,
     d_u8 = td_unsigned num long,
     d_u16 = td_unsigned num long,
     d_u32 = td_unsigned num long,
     d_u64 = td_unsigned num 64,
     d_i8 = td_signed num long,
     d_i16 = td_signed num long,
     d_i32 = td_signed num long,
     d_i64 = td_signed num long,
     d_null = td_null num,
     d_list_start = td_start num JSMN_ARRAY,
     d_list_end = td_end 93,
     d_bytes = td_bytes,
     d_peek = td_peekType num,
     d_skip = td_skip num,
     d_map_start = td_start num JSMN_OBJECT,
     d_map_end = td_end 125,
     d_in_map = td_in 125,
     d_in_list = td_in 93,
     d_list_size = td_ensureListSize\<rparr>"

lemma text_decoder_ops_simps [simp]:
  "d_str (text_decoder_ops long num) = td_str num"
  "d_bool (text_decoder_ops long num) = td_bool num"
  "d_u8 (text_decoder_ops long num) = td_unsigned num long"
  "d_u16 (text_decoder_ops long num) = td_unsigned num long"
  "d_u32 (text_decoder_ops long num) = td_unsigned num long"
  "d_u64 (text_decoder_ops long num) = td_unsigned num 64"
  "d_i8 (text_decoder_ops long num) = td_signed num long"
  "d_i16 (text_decoder_ops long num) = td_signed num long"
  "d_i32 (text_decoder_ops long num) = td_signed num long"
  "d_i64 (text_decoder_ops long num) = td_signed num long"
  "d_list_start (text_decoder_ops long num) = td_start num JSMN_ARRAY"
  "d_list_end (text_decoder_ops long num) = td_end 93"
  "d_skip (text_decoder_ops long num) = td_skip num"
  "d_map_start (text_decoder_ops long num) = td_start num JSMN_OBJECT"
  "d_map_end (text_decoder_ops long num) = td_end 125"
  "d_in_map (text_decoder_ops long num) = td_in 125"
  "d_in_list (text_decoder_ops long num) = td_in 93"
  "d_list_size (text_decoder_ops long num) = td_ensureListSize"
  by (simp_all add: text_decoder_ops_def)

subsection \<open>Reading a text that has been parsed\<close>

text \<open>The state in which the next tokens are \<open>ts\<close>.\<close>

definition td_before :: "span list \<Rightarrow> text_decoder \<Rightarrow> bool" where
  "td_before ts d \<longleftrightarrow> jp_next (td_parser d) > 0 \<and> (\<forall>i < length ts. core (td_toks d (td_idx d + i)) = ts ! i)"

text \<open>Reading moves on in the tokens and in the text, and nothing else changes.\<close>

definition td_moved :: "nat \<Rightarrow> nat \<Rightarrow> text_decoder \<Rightarrow> text_decoder" where
  "td_moved k e d = d\<lparr>td_idx := td_idx d + k, td_ptr := e\<rparr>"

lemma td_moved_simps [simp]:
  "td_mem (td_moved k e d) = td_mem d" "td_size (td_moved k e d) = td_size d" "td_ptr (td_moved k e d) = e"
  "td_idx (td_moved k e d) = td_idx d + k" "td_toks (td_moved k e d) = td_toks d" "td_parser (td_moved k e d) = td_parser d"
  "td_moved l f (td_moved k e d) = td_moved (k + l) f d"
  by (simp_all add: td_moved_def)

lemma td_before_append: "td_before (ts @ us) d \<longleftrightarrow> td_before ts d \<and> td_before us (td_moved (length ts) e d)"
  by (auto simp: td_before_def nth_append add.assoc) (metis add.commute less_diff_conv2 linorder_not_less add_diff_inverse_nat)

lemma td_before_Cons: "td_before (x # us) d \<longleftrightarrow> jp_next (td_parser d) > 0 \<and> core (td_toks d (td_idx d)) = x \<and> td_before us (td_moved 1 e d)"
  by (auto simp: td_before_def nth_Cons less_Suc_eq_0_disj split: nat.splits)

lemma expect_before:
  assumes "td_before ((ty, s, e) # ts) d" "0 \<le> s" "s + 1 < 2 ^ 64"
  shows "\<exists>k. core k = (ty, s, e) \<and> td_expectType num ty d = (Some k, td_moved 1 (nat s + (if container ty then 1 else 0)) d)"
proof -
  have c: "core (td_toks d (td_idx d)) = (ty, s, e)" "jp_next (td_parser d) \<noteq> 0"
    using assms(1) by (force simp: td_before_def)+
  then have "td_expectType num ty d = (Some (td_toks d (td_idx d)), td_moved 1 (nat s + (if container ty then 1 else 0)) d)"
    using assms(2,3) by (simp add: td_expectType_def td_getTokens_def Let_def core_def size_of_int_def td_moved_def nat_add_distrib)
  with c show ?thesis by blast
qed

lemma expect_other:
  assumes "td_before ((ty, s, e) # ts) d" "ty \<noteq> ty'"
  shows "td_expectType num ty' d = (None, d)"
proof -
  have "core (td_toks d (td_idx d)) = (ty, s, e)" "jp_next (td_parser d) \<noteq> 0" using assms(1) by (force simp: td_before_def)+
  then show ?thesis using assms(2) by (simp add: td_expectType_def td_getTokens_def Let_def core_def)
qed

subsection \<open>Numbers are read back\<close>

lemma dec_text_digits: "list_all c_digit (dec_text n) \<and> dec_text n \<noteq> [] \<and> dec_value (dec_text n) = n"
proof (induction n rule: dec_text.induct)
  case (1 n)
  have digit: "c_digit (of_nat (48 + k) :: u8) \<and> unat (of_nat (48 + k) :: u8) = 48 + k" if "k < 10" for k
  proof -
    have "unat (of_nat (48 + k) :: u8) = 48 + k" using that by (subst unat_of_nat) simp
    then show ?thesis using that by (simp add: c_digit_def word_le_nat_alt del: of_nat_add)
  qed
  show ?case
  proof (cases "n < 10")
    case True
    with digit [of n] show ?thesis by (simp add: dec_text.simps [of n] dec_value_def)
  next
    case False
    with digit [of "n mod 10"] 1 [OF False] show ?thesis by (simp add: dec_text.simps [of n] dec_value_def)
  qed
qed

definition no_digit :: "u8 list \<Rightarrow> bool" where
  "no_digit s \<longleftrightarrow> (s = [] \<or> \<not> c_digit (hd s))"

lemma takeWhile_digits: "list_all c_digit ds \<Longrightarrow> no_digit s \<Longrightarrow> takeWhile c_digit (ds @ s) = ds"
  by (induction ds) (auto simp: no_digit_def takeWhile_eq_Nil_iff)

lemma c_integer_digits:
  assumes "list_all c_digit ds" "ds \<noteq> []" "no_digit s"
  shows "c_integer (ds @ s) = (False, dec_value ds, length ds)" "c_integer (45 # ds @ s) = (True, dec_value ds, Suc (length ds))"
proof -
  obtain c cs where d: "ds = c # cs" and c: "c_digit c" using assms(1,2) by (cases ds) auto
  have ns: "\<not> c_space c" "c \<noteq> 43" "c \<noteq> 45" using c by (auto simp: c_digit_def c_space_def word_le_nat_alt)
  have t: "takeWhile c_digit (ds @ s) = ds" using assms(1,3) by (rule takeWhile_digits)
  have h: "takeWhile c_space (ds @ s) = []" "hd (ds @ s) = c" "ds @ s \<noteq> []" using ns by (simp_all add: d)
  have m: "takeWhile c_space (45 # ds @ s) = []" by (simp add: c_space_def)
  show "c_integer (ds @ s) = (False, dec_value ds, length ds)"
    using assms(2) ns unfolding c_integer_def Let_def h list.size drop_0 by (simp add: t)
  show "c_integer (45 # ds @ s) = (True, dec_value ds, Suc (length ds))"
    using assms(2) unfolding c_integer_def Let_def m list.size drop_0 by (simp add: t)
qed

lemma c_integer_text:
  assumes "no_digit s"
  shows "c_integer (int_text i @ s) = (i < 0, nat \<bar>i\<bar>, length (int_text i))"
proof -
  let ?d = "dec_text (nat \<bar>i\<bar>)"
  have d: "list_all c_digit ?d" "?d \<noteq> []" "dec_value ?d = nat \<bar>i\<bar>" using dec_text_digits by blast+
  note r = c_integer_digits [OF d(1,2) assms]
  show ?thesis
  proof (cases "i < 0")
    case True
    then have "int_text i = 45 # ?d" by (simp add: int_text_def)
    with r(2) d(3) True show ?thesis by (simp only: append_Cons list.size) simp
  next
    case False
    then have "int_text i = ?d" by (simp add: int_text_def)
    with r(1) d(3) False show ?thesis by (simp only:)
  qed
qed

lemma strtoul_text:
  "no_digit s \<Longrightarrow> 0 \<le> i \<Longrightarrow> i < 2 ^ b \<Longrightarrow> c_strtoul b (int_text i @ s) = (i, length (int_text i))"
  by (simp add: c_strtoul_def c_integer_text nat_less_iff not_le)

lemma strtol_text:
  "no_digit s \<Longrightarrow> - (2 ^ (b - 1)) \<le> i \<Longrightarrow> i < 2 ^ (b - 1) \<Longrightarrow> c_strtol b (int_text i @ s) = (i, length (int_text i))"
  by (simp add: c_strtol_def c_integer_text)

lemma int_text_wf: "int_text i \<noteq> [] \<and> list_all prim_char (int_text i)"
proof -
  have "list_all prim_char (dec_text n)" for n
    using dec_text_digits [of n] by (auto simp: list_all_iff prim_char_def c_digit_def word_le_nat_alt word_less_nat_alt)
  moreover have "prim_char 45" by (simp add: prim_char_def)
  ultimately show ?thesis using dec_text_digits by (auto simp: int_text_def)
qed

text \<open>The integer types the decoder reads with a long of the platform's width.\<close>

definition reads_kind :: "nat \<Rightarrow> pkind \<Rightarrow> bool" where
  "reads_kind long k \<longleftrightarrow> (32 \<le> long \<and> k \<in> {KU8, KU16, KU32, KI8, KI16, KI32}) \<or> k = KU64 \<or> (64 \<le> long \<and> k = KI64)"

lemma td_integer:
  assumes "td_before ((JSMN_PRIMITIVE, int a, e) # ts) d" "a + 1 < 2 ^ 64" "drop a (td_mem d) = int_text i @ s"
    and "parse (int_text i @ s) = (v, length (int_text i))"
  shows "td_decodePrimitive num parse d = (Some v, td_moved 1 (a + length (int_text i)) d)"
proof -
  obtain k where k: "core k = (JSMN_PRIMITIVE, int a, e)" "td_expectType num JSMN_PRIMITIVE d = (Some k, td_moved 1 a d)"
    using expect_before [OF assms(1), of num] assms(2) by (auto simp: container_def)
  have "size_of_int (jt_start k) = a" using k(1) assms(2) by (simp add: core_def size_of_int_def)
  with k assms(3,4) show ?thesis by (simp add: td_decodePrimitive_def td_moved_def)
qed

lemma unsigned_text:
  fixes v :: "'a::len word"
  assumes "no_digit s" "LENGTH('a) \<le> b"
  shows "c_strtoul b (int_text (uint v) @ s) = (uint v, length (int_text (uint v)))"
proof -
  have "uint v < 2 ^ LENGTH('a)" by (rule uint_lt2p)
  also have "(2 :: int) ^ LENGTH('a) \<le> 2 ^ b" using assms(2) by (simp add: power_increasing)
  finally show ?thesis using assms(1) by (intro strtoul_text) simp_all
qed

lemma signed_text:
  fixes v :: "'a::len word"
  assumes "no_digit s" "LENGTH('a) \<le> b"
  shows "c_strtol b (int_text (sint v) @ s) = (sint v, length (int_text (sint v)))"
proof -
  have "- (2 ^ (LENGTH('a) - 1)) \<le> sint v" "sint v < 2 ^ (LENGTH('a) - 1)" by (rule sint_ge, rule sint_lt)
  moreover have "(2 :: int) ^ (LENGTH('a) - 1) \<le> 2 ^ (b - 1)" using assms(2) by (intro power_increasing) auto
  ultimately have "- (2 ^ (b - 1)) \<le> sint v" "sint v < 2 ^ (b - 1)" by linarith+
  then show ?thesis using assms(1) by (intro strtol_text)
qed

lemma td_unsigned_text:
  fixes v :: "'a::len word"
  assumes "td_before ((JSMN_PRIMITIVE, int a, e) # ts) d" "a + 1 < 2 ^ 64" "no_digit s"
    and "drop a (td_mem d) = int_text (uint v) @ s" "LENGTH('a) \<le> b"
  shows "td_unsigned num b d = (Some v, td_moved 1 (a + length (int_text (uint v))) d)"
  unfolding td_unsigned_def
  by (rule td_integer [OF assms(1,2,4)]) (simp add: unsigned_text [OF assms(3,5)])

lemma td_signed_text:
  fixes v :: "'a::len word"
  assumes "td_before ((JSMN_PRIMITIVE, int a, e) # ts) d" "a + 1 < 2 ^ 64" "no_digit s"
    and "drop a (td_mem d) = int_text (sint v) @ s" "LENGTH('a) \<le> b"
  shows "td_signed num b d = (Some v, td_moved 1 (a + length (int_text (sint v))) d)"
  unfolding td_signed_def
  by (rule td_integer [OF assms(1,2,4)]) (simp add: signed_text [OF assms(3,5)])

lemma dec_prim_text:
  assumes "td_before ((JSMN_PRIMITIVE, int a, e) # ts) d" "a + 1 < 2 ^ 64" "drop a (td_mem d) = text_prim pr p @ s" "no_digit s"
    and "kind_of p = k" "reads_kind long k"
  shows "dec_prim (text_decoder_ops long num) k old d = (True, td_moved 1 (a + length (text_prim pr p)) d, Prim p)"
  using assms(3,5,6)
  by (cases p) (auto simp: reads_kind_def put_prim_def td_unsigned_text [OF assms(1,2,4)] td_signed_text [OF assms(1,2,4)])

subsection \<open>Values are read back\<close>

text \<open>The document of a value; the numbers it holds are integers, whose text has no precision.\<close>

fun jdoc :: "tsval \<Rightarrow> json" where
  "jdoc (Prim p) = JPrim (text_prim 0 p)"
| "jdoc (VArr vs) = JArr (map jdoc vs)"
| "jdoc (VList vs) = JArr (map jdoc vs)"
| "jdoc (VMap kvs) = JObj []"
| "jdoc (VRec fs) = JObj (map (\<lambda>(i, n, v). (c_str n, jdoc v)) fs)"

fun flat :: "nat \<Rightarrow> ttype \<Rightarrow> bool" where
  "flat long (TPrim k) = reads_kind long k"
| "flat long (TArr n t) = flat long t"
| "flat long t = False"

definition reads_text :: "(tsval \<Rightarrow> bool) \<Rightarrow> text_decoder dec_action \<Rightarrow> tsval \<Rightarrow> bool" where
  "reads_text P act v \<longleftrightarrow> (\<forall>old a d s ts. P old \<longrightarrow> td_before (jtoks a (jdoc v) @ ts) d \<longrightarrow> length (td_mem d) < 2 ^ 64 \<longrightarrow>
     drop a (td_mem d) = jtext (jdoc v) @ s \<longrightarrow> no_digit s \<longrightarrow>
     act old d = Some (True, td_moved (length (jtoks a (jdoc v))) (a + length (jtext (jdoc v))) d, v))"

lemma reads_textD:
  assumes "reads_text P act v" "P old" "td_before (jtoks a (jdoc v) @ ts) d" "length (td_mem d) < 2 ^ 64"
    "drop a (td_mem d) = jtext (jdoc v) @ s" "no_digit s"
  shows "act old d = Some (True, td_moved (length (jtoks a (jdoc v))) (a + length (jtext (jdoc v))) d, v)"
  using assms unfolding reads_text_def by blast

lemma td_moved_0: "td_ptr d = a \<Longrightarrow> td_moved 0 a d = d"
  by (simp add: td_moved_def)

lemma drop_step: "drop a m = x @ y \<Longrightarrow> drop (a + length x) m = y"
  by (metis add.commute append_eq_conv_conj drop_drop)

lemma drop_next: "drop a m = c # y \<Longrightarrow> drop (a + 1) m = y"
  by (metis add.commute drop0 drop_Suc_Cons drop_drop plus_1_eq_Suc)

lemma no_digit_Cons [simp]: "no_digit (c # s) \<longleftrightarrow> \<not> c_digit c"
  by (simp add: no_digit_def)

lemma td_before_tail: "td_before (ts @ us) d \<Longrightarrow> td_before us (td_moved (length ts) e d)"
  using td_before_append by blast

lemma dec_items_text:
  assumes "\<And>v. v \<in> set vs \<Longrightarrow> reads_text P act v" "td_before (jitems a (map jdoc vs) @ ts) d" "length (td_mem d) < 2 ^ 64"
    "drop a (td_mem d) = commas (map jtext (map jdoc vs)) @ 93 # s" "vs = [] \<longrightarrow> td_ptr d = a" "i + length vs = length ws" "\<forall>w \<in> set ws. P w"
    "\<forall>v \<in> set vs. P v"
  shows "dec_items act (length vs) i ws d =
    Some (True, td_moved (length (jitems a (map jdoc vs))) (a + length (commas (map jtext (map jdoc vs)))) d, take i ws @ vs)"
  using assms
proof (induction vs arbitrary: a d i ws)
  case Nil
  then show ?case by (simp add: td_moved_0)
next
  case (Cons v vs)
  let ?x = "jtext (jdoc v)" and ?k = "length (jtoks a (jdoc v))"
  let ?r = "(if vs = [] then [] else 44 # commas (map jtext (map jdoc vs))) @ 93 # s"
  have i: "i < length ws" using Cons.prems(6) by simp
  have x: "drop a (td_mem d) = ?x @ ?r" using Cons.prems(4) by (simp add: commas_Cons)
  have b: "td_before (jtoks a (jdoc v) @ (jitems (a + length ?x + 1) (map jdoc vs) @ ts)) d" using Cons.prems(2) by simp
  have act: "act (ws ! i) d = Some (True, td_moved ?k (a + length ?x) d, v)"
    using Cons.prems(1) [of v] Cons.prems(3,7) i x by (intro reads_textD [where P = P, OF _ _ b]) (auto simp: c_digit_def)
  show ?case
  proof (cases "vs = []")
    case True
    with i Cons.prems(6) show ?thesis by (simp add: act commas_Cons take_Suc_conv_app_nth upd_conv_take_nth_drop)
  next
    case False
    let ?b = "a + length ?x + 1" and ?d = "td_moved ?k (a + length ?x) d"
    have y: "drop ?b (td_mem ?d) = commas (map jtext (map jdoc vs)) @ 93 # s"
      using drop_next [OF drop_step [OF x, simplified False if_False append_Cons]] by simp
    have "dec_items act (length vs) (Suc i) (ws[i := v]) ?d =
        Some (True, td_moved (length (jitems ?b (map jdoc vs))) (?b + length (commas (map jtext (map jdoc vs)))) ?d,
          take (Suc i) (ws[i := v]) @ vs)"
      using Cons.prems(3,6-8) False set_update_subset_insert [of ws i v]
      by (intro Cons.IH [OF Cons.prems(1) td_before_tail [OF b] _ y]) auto
    moreover have "take (Suc i) (ws[i := v]) = take i ws @ [v]" using i by (simp add: take_Suc_conv_app_nth)
    ultimately show ?thesis using i False by (simp add: act commas_Cons)
  qed
qed

lemma drop_bound: "drop a m = c # y \<Longrightarrow> a < length m"
  by (metis drop_all linorder_not_less list.distinct(1))

lemma mem_at_drop: "drop a m = c # y \<Longrightarrow> mem_at m a = c"
  using drop_bound [of a m c y] by (simp add: mem_at_def) (metis hd_drop_conv_nth list.sel(1))

lemma text_prim_precision: "kind_of p = k \<Longrightarrow> reads_kind long k \<Longrightarrow> text_prim pr p = text_prim 0 p"
  by (cases p) (auto simp: reads_kind_def)

lemma text_prim_wf: "kind_of p = k \<Longrightarrow> reads_kind long k \<Longrightarrow> text_prim pr p \<noteq> [] \<and> list_all prim_char (text_prim pr p)"
  using int_text_wf by (cases p) (auto simp: reads_kind_def)

lemma text_prim_read:
  assumes "kind_of p = k" "reads_kind long k"
  shows "reads_text P (dec_val (text_decoder_ops long num) (TPrim k)) (Prim p)"
  unfolding reads_text_def
proof (intro allI impI)
  fix old a d s ts
  assume b: "td_before (jtoks a (jdoc (Prim p)) @ ts) d" and l: "length (td_mem d) < 2 ^ 64" and x: "drop a (td_mem d) = jtext (jdoc (Prim p)) @ s"
    and s: "no_digit s"
  obtain c cs where "text_prim 0 p = c # cs" using text_prim_wf [OF assms, of 0] by (cases "text_prim 0 p") auto
  then have "a < length (td_mem d)" using x drop_bound [of a] by simp
  then have "a + 1 < 2 ^ 64" using l by simp
  then show "dec_val (text_decoder_ops long num) (TPrim k) old d =
      Some (True, td_moved (length (jtoks a (jdoc (Prim p)))) (a + length (jtext (jdoc (Prim p)))) d, Prim p)"
    using dec_prim_text [where pr = 0, OF _ _ _ s assms] b x by simp
qed

lemma td_start_before:
  assumes "td_before ((ty, int a, e) # ts) d" "container ty" "a + 1 < 2 ^ 64"
  shows "td_start num ty d = (True, td_moved 1 (a + 1) d)"
  using expect_before [OF assms(1), of num] assms(2,3) by (auto simp: td_start_def)

lemma td_end_at: "drop (td_ptr d) (td_mem d) = c # y \<Longrightarrow> td_end c d = (True, td_moved 0 (td_ptr d + 1) d)"
  by (simp add: td_end_def mem_at_drop td_moved_def)

definition array_of :: "nat \<Rightarrow> (tsval \<Rightarrow> bool) \<Rightarrow> tsval \<Rightarrow> bool" where
  "array_of n P v \<longleftrightarrow> (\<exists>ws. v = VArr ws \<and> length ws = n \<and> (\<forall>w \<in> set ws. P w))"

lemma text_array_read:
  assumes "\<And>v. v \<in> set vs \<Longrightarrow> reads_text P act v" "\<forall>v \<in> set vs. P v"
  shows "reads_text (array_of (length vs) P) (dec_array (text_decoder_ops long num) act) (VArr vs)"
  unfolding reads_text_def
proof (intro allI impI)
  fix old a d s ts
  assume old: "array_of (length vs) P old" and b: "td_before (jtoks a (jdoc (VArr vs)) @ ts) d" and l: "length (td_mem d) < 2 ^ 64"
    and x: "drop a (td_mem d) = jtext (jdoc (VArr vs)) @ s"
  let ?t = "commas (map jtext (map jdoc vs))"
  obtain ws where ws: "old = VArr ws" "length ws = length vs" "\<forall>w \<in> set ws. P w" using old by (auto simp: array_of_def)
  have x1: "drop a (td_mem d) = 91 # ?t @ 93 # s" using x by simp
  have "a + 1 < 2 ^ 64" using drop_bound [OF x1] l by simp
  then have st: "td_start num JSMN_ARRAY d = (True, td_moved 1 (a + 1) d)"
    using b by (intro td_start_before) (auto simp: container_def)
  have b1: "td_before (jitems (a + 1) (map jdoc vs) @ ts) (td_moved 1 (a + 1) d)"
    using b by (simp add: td_before_Cons [where e = "a + 1"])
  have it: "dec_items act (length vs) 0 ws (td_moved 1 (a + 1) d) =
      Some (True, td_moved (length (jitems (a + 1) (map jdoc vs))) (a + 1 + length ?t) (td_moved 1 (a + 1) d), take 0 ws @ vs)"
    using l drop_next [OF x1] ws by (intro dec_items_text [OF assms(1) b1 _ _ _ _ ws(3) assms(2)]) auto
  have en: "td_end 93 (td_moved k (a + 1 + length ?t) d) = (True, td_moved k (a + 1 + length ?t + 1) d)" for k
    using td_end_at [of "td_moved k (a + 1 + length ?t) d" 93 s] drop_step [OF drop_next [OF x1]] by simp
  show "dec_array (text_decoder_ops long num) act old d =
      Some (True, td_moved (length (jtoks a (jdoc (VArr vs)))) (a + length (jtext (jdoc (VArr vs)))) d, VArr vs)"
    using st it en by (simp add: dec_array_def ws td_ensureListSize_def)
qed

lemma text_flat_read: "flat long t \<Longrightarrow> has_type t v \<Longrightarrow> reads_text (has_type t) (dec_val (text_decoder_ops long num) t) v"
proof (induction t arbitrary: v)
  case (TPrim k)
  then obtain p where v: "v = Prim p" "kind_of p = k" by (auto split: tsval.splits)
  show ?case unfolding v(1) using v(2) TPrim(1) by (intro text_prim_read) simp_all
next
  case (TArr n t)
  then obtain vs where v: "v = VArr vs" "length vs = n" "\<forall>v \<in> set vs. has_type t v" by (auto simp: list_all_iff split: tsval.splits)
  have "has_type (TArr n t) = array_of (length vs) (has_type t)"
    using v by (auto simp: array_of_def list_all_iff fun_eq_iff split: tsval.splits)
  then show ?case using text_array_read [of vs "has_type t"] TArr v by auto
qed auto

subsection \<open>Classes\<close>

text \<open>The members of a class with given values.\<close>

definition rec_of :: "(u16 \<times> string \<times> ttype) list \<Rightarrow> tsval list \<Rightarrow> (u16 \<times> string \<times> tsval) list" where
  "rec_of fs vs = map2 (\<lambda>(i, n, t) v. (i, n, v)) fs vs"

lemma rec_of_simps [simp]: "rec_of [] vs = []" "rec_of ((i, n, t) # fs) (v # vs) = (i, n, v) # rec_of fs vs"
  by (simp_all add: rec_of_def)

definition acts_of :: "nat \<Rightarrow> nat \<Rightarrow> (u16 \<times> string \<times> ttype) list \<Rightarrow> (u16 \<times> string \<times> text_decoder dec_action) list" where
  "acts_of long num fs = map (\<lambda>(i, n, t). (i, n, dec_val (text_decoder_ops long num) t)) fs"

lemma switch_named:
  assumes "n \<notin> (\<lambda>(i, n, t). n) ` set pre" "length pvs = length pre"
  shows "switchDecode (\<lambda>x. fst (snd x) = n) (acts_of long num (pre @ (i, n, t) # suf)) (rec_of pre pvs @ (i, n, w) # ws) d =
    map_option (\<lambda>(r, d', v). (r, d', rec_of pre pvs @ (i, n, v) # ws)) (dec_val (text_decoder_ops long num) t w d)"
  using assms
proof (induction pre arbitrary: pvs)
  case Nil
  then show ?case by (simp add: acts_of_def)
next
  case (Cons x pre)
  obtain j m u where x: "x = (j, m, u)" by (cases x) auto
  obtain v vs where "pvs = v # vs" using Cons.prems(2) by (cases pvs) auto
  then show ?case using Cons x by (auto simp: acts_of_def option.map_comp comp_def split_def intro!: option.map_cong)
qed

lemma name_chars: "plain (bytes_of n) \<Longrightarrow> c_str n = bytes_of n"
  by (auto simp: c_str_def plain_def takeWhile_eq_all_conv)

lemma unbytes: "map (\<lambda>b. char_of (unat b)) (bytes_of n) = n"
  by (simp add: bytes_of_def comp_def)

lemma td_key:
  assumes b: "td_before ((JSMN_STRING, int (a + 1), int (a + 1 + length (bytes_of n))) # ts) d" and l: "length (td_mem d) < 2 ^ 64"
    and x: "drop a (td_mem d) = (34 # bytes_of n @ [34]) @ y"
  shows "decodeKey (text_decoder_ops long num) ident name d = (True, ident, Some n, td_moved 1 (a + 1) d)"
proof -
  have al: "a + length (bytes_of n) + 2 \<le> length (td_mem d)" using arg_cong [OF x, of length] by simp
  then have "a + 2 < 2 ^ 64" using l by simp
  then obtain k where k: "core k = (JSMN_STRING, int (a + 1), int (a + 1 + length (bytes_of n)))"
    "td_expectType num JSMN_STRING d = (Some k, td_moved 1 (a + 1) d)"
    using expect_before [OF b, of num] by (auto simp: container_def nat_add_distrib)
  have dr: "drop (a + 1) (td_mem d) = bytes_of n @ 34 # y" using drop_next [of a "td_mem d"] x by simp
  have "mem_at (td_mem d) (a + 1 + i) = bytes_of n ! i" if "i < length (bytes_of n)" for i
    using arg_cong [OF dr, of "\<lambda>l. l ! i"] that al by (simp add: mem_at_def nth_append)
  then have "td_slice (td_moved 1 (a + 1) d) k = bytes_of n"
    using k(1) al l by (intro nth_equalityI) (auto simp: td_slice_def core_def size_of_int_def)
  then have str: "td_str num d = (Some n, td_moved 1 (a + 1) d)" by (simp add: td_str_def k(2) unbytes)
  have "td_unsigned num long d = ((None :: u32 option), d)"
    using expect_other [OF b, of JSMN_PRIMITIVE num] by (simp add: td_unsigned_def td_decodePrimitive_def)
  with str show ?thesis by (simp add: decodeKey_def)
qed

lemma class_member_text:
  assumes r: "reads_text (has_type t) (dec_val (text_decoder_ops long num) t) v" and w: "has_type t w"
    and n: "n \<notin> (\<lambda>(i, n, t). n) ` set pre" "length pvs = length pre"
    and b: "td_before (jtoks a (jdoc v) @ ts) d" "length (td_mem d) < 2 ^ 64" "drop a (td_mem d) = jtext (jdoc v) @ s" "no_digit s"
  shows "class_member (text_decoder_ops long num) (acts_of long num (pre @ (i, n, t) # suf)) None (Some n) d
      (rec_of pre pvs @ (i, n, w) # ws) =
    Some (True, td_moved (length (jtoks a (jdoc v))) (a + length (jtext (jdoc v))) d, rec_of pre pvs @ (i, n, v) # ws)"
  using switch_named [OF n] reads_textD [OF r w b] by (simp add: class_member_def Let_def)

lemma rec_of_snoc: "length pvs = length pre \<Longrightarrow> rec_of (pre @ [(i, n, t)]) (pvs @ [v]) = rec_of pre pvs @ [(i, n, v)]"
  by (simp add: rec_of_def)

definition members_text :: "(u16 \<times> string \<times> tsval) list \<Rightarrow> (u8 list \<times> json) list" where
  "members_text fs = map (\<lambda>(i, n, v). (c_str n, jdoc v)) fs"

text \<open>The rounds of the loop that read the members of a class.\<close>

lemma map_loop_members:
  assumes "list_all2 (\<lambda>(i, n, t) v. flat long t \<and> has_type t v) suf vs" "list_all2 (\<lambda>(i, n, t) w. has_type t w) suf ws"
    and "distinct (map (\<lambda>(i, n, t). n) (pre @ suf))" "length pvs = length pre" "list_all (\<lambda>(i, n, t). plain (bytes_of n)) suf"
    and "td_before (jmembers a (members_text (rec_of suf vs))) d"
    and "length (td_mem d) < 2 ^ 64" "suf = [] \<longrightarrow> td_ptr d = a" "jp_next (td_parser d) > 0"
    and "drop a (td_mem d) = commas (map (\<lambda>(k, d). (34 # k @ [34]) @ 58 # jtext d) (members_text (rec_of suf vs))) @ 125 # s"
  shows "\<exists>name'. map_loop (text_decoder_ops long num) (class_member (text_decoder_ops long num) (acts_of long num (pre @ suf)))
      None name d (rec_of pre pvs @ rec_of suf ws) =
    map_loop (text_decoder_ops long num) (class_member (text_decoder_ops long num) (acts_of long num (pre @ suf))) None name'
      (td_moved (length (jmembers a (members_text (rec_of suf vs))))
        (a + length (commas (map (\<lambda>(k, d). (34 # k @ [34]) @ 58 # jtext d) (members_text (rec_of suf vs))))) d)
      (rec_of (pre @ suf) (pvs @ vs))"
  using assms
proof (induction suf vs arbitrary: pre pvs ws a d name rule: list_all2_induct)
  case Nil
  then show ?case by (auto simp: members_text_def td_moved_0)
next
  case (Cons x suf v vs)
  obtain i n t where x: "x = (i, n, t)" by (cases x) auto
  obtain w ws' where ws: "ws = w # ws'" "has_type t w" "list_all2 (\<lambda>(i, n, t) w. has_type t w) suf ws'"
    using Cons.prems(1) by (cases ws) (auto simp: x)
  let ?f = "\<lambda>(k, d). (34 # k @ [34]) @ 58 # jtext d"
  let ?ms = "members_text (rec_of suf vs)" and ?k = "length (jtoks (a + length (bytes_of n) + 3) (jdoc v))"
  let ?p = "a + length (bytes_of n) + 3" and ?l = "length (jtext (jdoc v))"
  let ?e = "if suf = [] then ?p + ?l else ?p + ?l + 1"
  let ?r = "(if suf = [] then [] else 44 # commas (map ?f ?ms)) @ 125 # s"
  have v: "flat long t" "has_type t v" using Cons.hyps(1) by (simp_all add: x)
  have pl: "plain (bytes_of n)" and pls: "list_all (\<lambda>(i, n, t). plain (bytes_of n)) suf" using Cons.prems(4) by (simp_all add: x)
  have m: "members_text (rec_of (x # suf) (v # vs)) = (bytes_of n, jdoc v) # ?ms"
    using pl by (simp add: members_text_def x name_chars)
  have em: "(?ms = []) = (suf = [])" using list_all2_lengthD [OF Cons.hyps(2)] by (auto simp: members_text_def rec_of_def)
  have t0: "drop a (td_mem d) = (34 # bytes_of n @ [34]) @ 58 # jtext (jdoc v) @ ?r"
    using Cons.prems(9) unfolding m by (simp add: commas_Cons em)
  have tv: "drop ?p (td_mem d) = jtext (jdoc v) @ ?r"
    using drop_next [OF drop_step [OF t0]] by (simp add: ac_simps eval_nat_numeral)
  have b0: "td_before ((JSMN_STRING, int (a + 1), int (a + 1 + length (bytes_of n))) # jtoks ?p (jdoc v) @ jmembers (?p + ?l + 1) ?ms) d"
    using Cons.prems(5) unfolding m by simp
  then have b1: "td_before (jtoks ?p (jdoc v) @ jmembers (?p + ?l + 1) ?ms) (td_moved 1 (a + 1) d)"
    by (simp only: td_before_Cons [where e = "a + 1"])
  let ?d1 = "td_moved 1 (a + 1) d" and ?d2 = "td_moved (1 + ?k) (?p + ?l) d"
  have key: "decodeKey (text_decoder_ops long num) None name d = (True, None, Some n, ?d1)"
    using td_key [OF b0 Cons.prems(6) t0] .
  have fresh: "n \<notin> (\<lambda>(i, n, t). n) ` set pre" using Cons.prems(2) by (auto simp: x)
  have mem: "class_member (text_decoder_ops long num) (acts_of long num (pre @ x # suf)) None (Some n) ?d1
      (rec_of pre pvs @ (i, n, w) # rec_of suf ws') = Some (True, ?d2, rec_of pre pvs @ (i, n, v) # rec_of suf ws')"
    using class_member_text [OF text_flat_read [OF v] ws(2) fresh Cons.prems(3) b1 _ _ _, where s = ?r and suf = suf and ws = "rec_of suf ws'" and i = i] tv Cons.prems(6)
    by (auto simp: x c_digit_def)
  have "\<exists>name'. map_loop (text_decoder_ops long num) (class_member (text_decoder_ops long num) (acts_of long num ((pre @ [x]) @ suf)))
      None (Some n) ?d2 (rec_of (pre @ [x]) (pvs @ [v]) @ rec_of suf ws') =
    map_loop (text_decoder_ops long num) (class_member (text_decoder_ops long num) (acts_of long num ((pre @ [x]) @ suf))) None name'
      (td_moved (length (jmembers ?e ?ms)) (?e + length (commas (map ?f ?ms))) ?d2) (rec_of ((pre @ [x]) @ suf) ((pvs @ [v]) @ vs))"
  proof (rule Cons.IH [OF ws(3)], goal_cases)
    case 4
    show ?case using td_before_tail [OF b1, of "?p + ?l"] by (cases "suf = []") (auto simp: members_text_def td_before_def)
  next
    case 8
    show ?case using drop_step [OF tv] drop_next [of "?p + ?l" "td_mem d"] by (auto simp: em members_text_def)
  qed (use Cons.prems pls in \<open>auto simp: x\<close>)
  then obtain name' where run: "map_loop (text_decoder_ops long num) (class_member (text_decoder_ops long num) (acts_of long num (pre @ x # suf)))
      None (Some n) ?d2 (rec_of pre pvs @ (i, n, v) # rec_of suf ws') =
    map_loop (text_decoder_ops long num) (class_member (text_decoder_ops long num) (acts_of long num (pre @ x # suf))) None name'
      (td_moved (length (jmembers ?e ?ms)) (?e + length (commas (map ?f ?ms))) ?d2) (rec_of (pre @ x # suf) (pvs @ v # vs))"
    using Cons.prems(3) by (auto simp: x rec_of_snoc)
  have cur: "rec_of pre pvs @ rec_of (x # suf) ws = rec_of pre pvs @ (i, n, w) # rec_of suf ws'" by (simp add: x ws(1))
  have l: "length (jmembers ?e ?ms) = length (jmembers (?p + ?l + 1) ?ms)" by (cases "suf = []") (auto simp: members_text_def)
  have "td_moved (length (jmembers ?e ?ms)) (?e + length (commas (map ?f ?ms))) ?d2 =
      td_moved (length (jmembers a (members_text (rec_of (x # suf) (v # vs)))))
        (a + length (commas (map ?f (members_text (rec_of (x # suf) (v # vs)))))) d"
    unfolding m l by (cases "suf = []") (simp_all add: commas_Cons em, simp_all add: members_text_def eval_nat_numeral ac_simps)
  with run have "map_loop (text_decoder_ops long num) (class_member (text_decoder_ops long num) (acts_of long num (pre @ x # suf)))
      None name d (rec_of pre pvs @ rec_of (x # suf) ws) =
    map_loop (text_decoder_ops long num) (class_member (text_decoder_ops long num) (acts_of long num (pre @ x # suf))) None name'
      (td_moved (length (jmembers a (members_text (rec_of (x # suf) (v # vs)))))
        (a + length (commas (map ?f (members_text (rec_of (x # suf) (v # vs)))))) d) (rec_of (pre @ x # suf) (pvs @ v # vs))"
    unfolding cur by (subst map_loop.simps)
      (simp only: Let_def key mem fst_conv snd_conv bind.bind_lunit not_True_eq_False if_False if_True)
  then show ?case by blast
qed

text \<open>The loop ends at a token that is no key.\<close>

lemma map_loop_end:
  assumes "jt_type (td_toks d (td_idx d)) \<notin> {JSMN_STRING, JSMN_PRIMITIVE}" "jp_next (td_parser d) > 0"
  shows "map_loop (text_decoder_ops long num) cb None name d w = Some (True, d, w)"
proof -
  have "td_expectType num ty d = (None, d)" if "ty \<in> {JSMN_STRING, JSMN_PRIMITIVE}" for ty
    using assms that by (auto simp: td_expectType_def td_getTokens_def Let_def)
  then have "decodeKey (text_decoder_ops long num) None name d = (False, None, name, d)"
    by (simp add: decodeKey_def td_unsigned_def td_decodePrimitive_def td_str_def)
  then show ?thesis by (subst map_loop.simps) simp
qed

text \<open>A class is read up to the token behind its last member; what happens then is left to the loop.\<close>

lemma text_class_loop:
  assumes t: "list_all2 (\<lambda>(i, n, t) v. flat long t \<and> has_type t v) fs vs" "list_all2 (\<lambda>(i, n, t) w. has_type t w) fs ws"
    "distinct (map (\<lambda>(i, n, t). n) fs)" "list_all (\<lambda>(i, n, t). plain (bytes_of n)) fs"
    and b: "td_before (jtoks a (jdoc (VRec (rec_of fs vs)))) d"
    and l: "length (td_mem d) < 2 ^ 64" and x: "drop a (td_mem d) = jtext (jdoc (VRec (rec_of fs vs))) @ s"
  shows "\<exists>name. dec_val (text_decoder_ops long num) (TRec fs) (VRec (rec_of fs ws)) d =
    map_option (\<lambda>(r, d', fs). (r, d', VRec fs))
      (Option.bind (map_loop (text_decoder_ops long num) (class_member (text_decoder_ops long num) (acts_of long num fs)) None name
          (td_moved (length (jtoks a (jdoc (VRec (rec_of fs vs))))) (a + length (jtext (jdoc (VRec (rec_of fs vs)))) - 1) d) (rec_of fs vs))
        (\<lambda>(r, d2, w2). if r then (let (r3, d3) = td_end 125 d2 in Some (r3, d3, w2)) else Some (False, d2, w2)))"
proof -
  let ?ms = "members_text (rec_of fs vs)"
  let ?t = "commas (map (\<lambda>(k, d). (34 # k @ [34]) @ 58 # jtext d) ?ms)" and ?k = "length (jmembers (a + 1) ?ms)"
  let ?d1 = "td_moved 1 (a + 1) d"
  have doc: "jdoc (VRec (rec_of fs vs)) = JObj ?ms" by (simp add: members_text_def)
  have x1: "drop a (td_mem d) = 123 # ?t @ 125 # s" using x unfolding doc by simp
  have p: "jp_next (td_parser d) > 0" using b unfolding doc by (simp add: td_before_def)
  have "a + 1 < 2 ^ 64" using drop_bound [OF x1] l by simp
  then have st: "td_start num JSMN_OBJECT d = (True, ?d1)"
    using b unfolding doc by (intro td_start_before [where ts = "jmembers (a + 1) ?ms"]) (auto simp: container_def)
  have b1: "td_before (jmembers (a + 1) ?ms) ?d1"
    using b unfolding doc by (simp add: td_before_Cons [where e = "a + 1"])
  have "\<exists>name'. map_loop (text_decoder_ops long num) (class_member (text_decoder_ops long num) (acts_of long num ([] @ fs)))
      None None ?d1 (rec_of [] [] @ rec_of fs ws) =
    map_loop (text_decoder_ops long num) (class_member (text_decoder_ops long num) (acts_of long num ([] @ fs)))
      None name' (td_moved ?k (a + 1 + length ?t) ?d1) (rec_of ([] @ fs) ([] @ vs))"
    by (rule map_loop_members [OF t(1,2)]) (use t(3,4) b1 l p drop_next [OF x1] in simp_all)
  then obtain name where loop: "map_loop (text_decoder_ops long num) (class_member (text_decoder_ops long num) (acts_of long num fs))
      None None ?d1 (rec_of fs ws) =
    map_loop (text_decoder_ops long num) (class_member (text_decoder_ops long num) (acts_of long num fs))
      None name (td_moved (1 + ?k) (a + 1 + length ?t) d) (rec_of fs vs)" by auto
  have acts: "map (\<lambda>(i, n, t). (i, n, dec_val (text_decoder_ops long num) t)) fs = acts_of long num fs" by (simp add: acts_of_def)
  have l: "length (jtoks a (JObj ?ms)) = 1 + ?k" "a + length (jtext (JObj ?ms)) - 1 = a + 1 + length ?t" by simp_all
  show ?thesis
    by (intro exI [of _ name]) (simp only: doc l dec_val.simps acts dec_class_def members.simps decodeMap_def text_decoder_ops_simps st
        loop prod.case Let_def if_True not_True_eq_False if_False)
qed

lemma text_class_read:
  assumes t: "list_all2 (\<lambda>(i, n, t) v. flat long t \<and> has_type t v) fs vs" "list_all2 (\<lambda>(i, n, t) w. has_type t w) fs ws"
    "distinct (map (\<lambda>(i, n, t). n) fs)" "list_all (\<lambda>(i, n, t). plain (bytes_of n)) fs"
    and b: "td_before (jtoks a (jdoc (VRec (rec_of fs vs)))) d"
    and e: "jt_type (td_toks d (td_idx d + length (jtoks a (jdoc (VRec (rec_of fs vs)))))) \<notin> {JSMN_STRING, JSMN_PRIMITIVE}"
    and l: "length (td_mem d) < 2 ^ 64" and x: "drop a (td_mem d) = jtext (jdoc (VRec (rec_of fs vs))) @ s"
  shows "dec_val (text_decoder_ops long num) (TRec fs) (VRec (rec_of fs ws)) d =
    Some (True, td_moved (length (jtoks a (jdoc (VRec (rec_of fs vs))))) (a + length (jtext (jdoc (VRec (rec_of fs vs))))) d,
      VRec (rec_of fs vs))"
proof -
  let ?k = "length (jtoks a (jdoc (VRec (rec_of fs vs))))" and ?n = "length (jtext (jdoc (VRec (rec_of fs vs))))"
  let ?d = "td_moved ?k (a + ?n - 1) d"
  have p: "jp_next (td_parser d) > 0" using b by (simp add: td_before_def)
  have n: "?n \<ge> 1" by simp
  obtain y where y: "drop a (td_mem d) = y @ 125 # s" "length y + 1 = ?n" using x by (force simp: numeral_eq_Suc)
  have "td_end 125 ?d = (True, td_moved ?k (a + ?n) d)"
    using td_end_at [of ?d 125 s] drop_step [OF y(1)] y(2) by (simp flip: y(2))
  moreover have "map_loop (text_decoder_ops long num) (class_member (text_decoder_ops long num) (acts_of long num fs)) None name ?d
      (rec_of fs vs) = Some (True, ?d, rec_of fs vs)" for name
    using e p by (intro map_loop_end) simp_all
  ultimately show ?thesis
    using text_class_loop [OF t b l x, of num] by auto
qed

subsection \<open>From the text to the value\<close>

text \<open>Numbers, arrays of numbers, nested or not, and classes whose members are such; names need no escapes.\<close>

fun readable :: "nat \<Rightarrow> ttype \<Rightarrow> bool" where
  "readable long (TRec fs) = (distinct (map (\<lambda>(i, n, t). n) fs) \<and> list_all (\<lambda>(i, n, t). plain (bytes_of n) \<and> flat long t) fs)"
| "readable long t = flat long t"

definition whole :: "text_cfg \<Rightarrow> u32 \<Rightarrow> bool" where
  "whole cfg opts \<longleftrightarrow> tc_array_max cfg = None \<or> \<not> opts_any opts opt_abbreviateArrays"

lemma rendered_whole: "whole cfg opts \<Longrightarrow> renderedListLength cfg opts d n = n"
  by (auto simp: whole_def renderedListLength_def split: option.splits)

lemma flat_doc: "flat long t \<Longrightarrow> has_type t v \<Longrightarrow> whole cfg opts \<Longrightarrow> jtext (jdoc v) = text_of cfg opts d v \<and> jwf (jdoc v)"
proof (induction t arbitrary: v d)
  case (TPrim k)
  then obtain p where p: "v = Prim p" "kind_of p = k" "reads_kind long k" by (auto split: tsval.splits)
  from text_prim_precision [OF p(2,3), of "tc_precision cfg"] text_prim_wf [OF p(2,3), of 0] p(1) show ?case by simp
next
  case (TArr n t)
  then obtain vs where v: "v = VArr vs" "\<forall>v \<in> set vs. has_type t v" by (auto simp: list_all_iff split: tsval.splits)
  have "map jtext (map jdoc vs) = map (text_of cfg opts (d + 1)) vs" "list_all jwf (map jdoc vs)"
    using v TArr.IH [where d = "d + 1"] TArr.prems by (auto simp: list_all_iff)
  then show ?case using v TArr.prems(3) by (simp add: text_array_def rendered_whole Let_def del: map_map)
qed auto

lemma fields_rec:
  "fields_typed (map (\<lambda>(i, n, t). (i, n, has_type t)) fs) ms \<Longrightarrow> \<exists>vs. ms = rec_of fs vs \<and> list_all2 (\<lambda>(i, n, t) v. has_type t v) fs vs"
proof (induction fs arbitrary: ms)
  case Nil
  then show ?case by (cases ms) auto
next
  case (Cons f fs)
  obtain i n t where f: "f = (i, n, t)" by (cases f) auto
  with Cons.prems obtain v ms' where m: "ms = (i, n, v) # ms'" "has_type t v"
    "fields_typed (map (\<lambda>(i, n, t). (i, n, has_type t)) fs) ms'" by (cases ms) (auto split: prod.splits)
  from Cons.IH [OF m(3)] obtain vs where "ms' = rec_of fs vs" "list_all2 (\<lambda>(i, n, t) v. has_type t v) fs vs" by blast
  with m f show ?case by (intro exI [of _ "v # vs"]) simp
qed

lemma rec_doc:
  assumes "list_all2 (\<lambda>(i, n, t) v. flat long t \<and> has_type t v) fs vs" "list_all (\<lambda>(i, n, t). plain (bytes_of n)) fs" "whole cfg opts"
  shows "jtext (jdoc (VRec (rec_of fs vs))) = text_of cfg opts d (VRec (rec_of fs vs)) \<and> jwf (jdoc (VRec (rec_of fs vs)))"
proof -
  have "map (\<lambda>(k, x). (34 # k @ [34]) @ 58 # jtext x) (members_text (rec_of fs vs)) =
      map (\<lambda>(k, v). k @ 58 # v) (map (\<lambda>(i, n, v). (34 # c_str n @ [34], text_of cfg opts (d + 1) v)) (rec_of fs vs)) \<and>
      list_all (\<lambda>(k, x). plain k \<and> jwf x) (members_text (rec_of fs vs))"
    using assms(1,2)
  proof (induction fs vs rule: list_all2_induct)
    case (Cons f fs v vs)
    then show ?case using flat_doc [OF _ _ assms(3), of long _ v "d + 1"]
      by (cases f) (auto simp: members_text_def name_chars)
  qed (simp add: members_text_def)
  moreover have "jdoc (VRec (rec_of fs vs)) = JObj (members_text (rec_of fs vs))" by (simp add: members_text_def)
  ultimately show ?thesis by (simp only: jtext.simps jwf.simps text_of.simps text_map_def simp_thms)
qed

lemma getTokens_idem: "td_getTokens num (td_getTokens num d) = td_getTokens num d \<or> jp_next (td_parser (td_getTokens num d)) = 0"
  by (auto simp: td_getTokens_def split: prod.splits)

lemma expect_getTokens:
  "jp_next (td_parser (td_getTokens num d)) \<noteq> 0 \<Longrightarrow> td_expectType num ty (td_getTokens num d) = td_expectType num ty d"
  using getTokens_idem [of num d] by (auto simp: td_expectType_def)

lemma dec_prim_getTokens:
  "jp_next (td_parser (td_getTokens num d)) \<noteq> 0 \<Longrightarrow> reads_kind long k \<Longrightarrow>
   dec_prim (text_decoder_ops long num) k old (td_getTokens num d) = dec_prim (text_decoder_ops long num) k old d"
  by (auto simp: reads_kind_def td_unsigned_def td_signed_def td_decodePrimitive_def expect_getTokens)

lemma dec_val_getTokens:
  assumes "jp_next (td_parser (td_getTokens num d)) \<noteq> 0" "readable long t"
  shows "dec_val (text_decoder_ops long num) t old (td_getTokens num d) = dec_val (text_decoder_ops long num) t old d"
  using assms by (cases t) (simp_all add: dec_prim_getTokens dec_array_def dec_class_def decodeMap_def td_start_def expect_getTokens)

text \<open>The first use of a decoder parses its text.\<close>

lemma td_parsed:
  assumes "jwf doc" "length (jtoks 0 doc) \<le> num"
  shows "td_before (jtoks 0 doc) (td_getTokens num (td_make stale (jtext doc @ rest) (length (jtext doc)))) \<and>
    (\<forall>i \<ge> length (jtoks 0 doc). td_toks (td_getTokens num (td_make stale (jtext doc @ rest) (length (jtext doc)))) i = stale i) \<and>
    td_mem (td_getTokens num (td_make stale (jtext doc @ rest) (length (jtext doc)))) = jtext doc @ rest \<and>
    td_idx (td_getTokens num (td_make stale (jtext doc @ rest) (length (jtext doc)))) = 0"
proof -
  let ?d = "td_make stale (jtext doc @ rest) (length (jtext doc))"
  have "text_at (mem_at (jtext doc @ rest)) 0 (jtext doc)" by (simp add: text_at_def mem_at_def nth_append)
  then obtain p t where r: "jsmn_parse (mem_at (jtext doc @ rest)) (length (jtext doc)) num jsmn_init stale = (int (length (jtoks 0 doc)), p, t)"
    and p: "jp_next p = length (jtoks 0 doc)" "\<forall>i < length (jtoks 0 doc). core (t i) = jtoks 0 doc ! i"
    using document_tokens [OF assms(1) _ le_refl _ assms(2), of "mem_at (jtext doc @ rest)" stale] by auto
  have "td_getTokens num ?d = ?d\<lparr>td_parser := p, td_toks := t\<rparr>"
    by (simp add: td_getTokens_def td_make_def r) (simp add: jsmn_init_def)
  moreover have "length (jtoks 0 doc) > 0" by (cases doc) auto
  ultimately show ?thesis using jsmn_parse_facts [OF r] p by (simp add: td_before_def td_make_def)
qed

lemma rec_val: "has_type (TRec fs) v \<Longrightarrow> \<exists>vs. v = VRec (rec_of fs vs) \<and> list_all2 (\<lambda>(i, n, t) v. has_type t v) fs vs"
  by (cases v) (use fields_rec in \<open>simp_all\<close>)

lemma readable_fields:
  assumes "readable long (TRec fs)" "list_all2 (\<lambda>(i, n, t) v. has_type t v) fs vs"
  shows "list_all2 (\<lambda>(i, n, t) v. flat long t \<and> has_type t v) fs vs" "distinct (map (\<lambda>(i, n, t). n) fs)"
    "list_all (\<lambda>(i, n, t). plain (bytes_of n)) fs"
  using assms by (auto simp: list_all2_conv_all_nth list_all_length split: prod.splits)

lemma readable_doc:
  assumes "readable long t" "has_type t v" "whole cfg opts"
  shows "jtext (jdoc v) = text_of cfg opts dep v \<and> jwf (jdoc v)"
proof (cases "flat long t")
  case False
  then obtain fs where t: "t = TRec fs" using assms(1) by (cases t) auto
  obtain vs where vs: "v = VRec (rec_of fs vs)" "list_all2 (\<lambda>(i, n, t) v. has_type t v) fs vs"
    using rec_val assms(2) unfolding t by blast
  note f = readable_fields [OF assms(1) [unfolded t] vs(2)]
  show ?thesis unfolding vs(1) using rec_doc [OF f(1,3) assms(3)] .
qed (rule flat_doc [OF _ assms(2,3)])

text \<open>Behind the last token of a class, the loop over its members looks at one token more.\<close>

lemma readable_read:
  assumes "readable long t" "has_type t v" "has_type t old" "no_digit rest"
    and d: "td_before (jtoks 0 (jdoc v)) d" "td_mem d = jtext (jdoc v) @ rest" "td_idx d = 0" "length (td_mem d) < 2 ^ 64"
    and next_tok: "jt_type (td_toks d (length (jtoks 0 (jdoc v)))) \<notin> {JSMN_STRING, JSMN_PRIMITIVE}"
  shows "dec_val (text_decoder_ops long num) t old d = Some (True, td_moved (length (jtoks 0 (jdoc v))) (length (jtext (jdoc v))) d, v)"
proof (cases "flat long t")
  case True
  from reads_textD [OF text_flat_read [OF True assms(2)] assms(3), of 0 "[]" d rest] d assms(4) show ?thesis by simp
next
  case False
  then obtain fs where t: "t = TRec fs" using assms(1) by (cases t) auto
  obtain vs ws where vs: "v = VRec (rec_of fs vs)" "list_all2 (\<lambda>(i, n, t) v. has_type t v) fs vs"
    and ws: "old = VRec (rec_of fs ws)" "list_all2 (\<lambda>(i, n, t) w. has_type t w) fs ws"
    using rec_val assms(2,3) unfolding t by blast
  note f = readable_fields [OF assms(1) [unfolded t] vs(2)]
  from text_class_read [OF f(1) ws(2) f(2,3), where a = 0 and d = d and s = rest and num = num] d next_tok show ?thesis unfolding t vs(1) ws(1) by simp
qed

lemma text_value_read:
  assumes "readable long t" "has_type t v" "has_type t old" "whole cfg opts"
    and "length (jtoks 0 (jdoc v)) \<le> num" "length (text_of cfg opts dep v @ rest) < 2 ^ 64" "no_digit rest"
    and "jt_type (stale (length (jtoks 0 (jdoc v)))) \<notin> {JSMN_STRING, JSMN_PRIMITIVE}"
  shows "\<exists>d. dec_val (text_decoder_ops long num) t old
      (td_make stale (text_of cfg opts dep v @ rest) (length (text_of cfg opts dep v))) = Some (True, d, v) \<and>
    td_ptr d = length (text_of cfg opts dep v)"
proof -
  define d where "d = td_getTokens num (td_make stale (jtext (jdoc v) @ rest) (length (jtext (jdoc v))))"
  note doc = readable_doc [OF assms(1,2,4), of dep]
  note parsed = td_parsed [OF conjunct2 [OF doc] assms(5), of stale rest, folded d_def]
  have "dec_val (text_decoder_ops long num) t old d = Some (True, td_moved (length (jtoks 0 (jdoc v))) (length (jtext (jdoc v))) d, v)"
    using parsed assms(6,8) doc by (intro readable_read [OF assms(1,2,3,7)]) simp_all
  moreover have "dec_val (text_decoder_ops long num) t old d =
      dec_val (text_decoder_ops long num) t old (td_make stale (jtext (jdoc v) @ rest) (length (jtext (jdoc v))))"
    unfolding d_def using parsed [unfolded d_def] by (intro dec_val_getTokens [OF _ assms(1)]) (auto simp: td_before_def)
  ultimately show ?thesis using doc by auto
qed

end
