(* ===== verification/TextProtocol.thy ===== *)
theory TextProtocol imports TextDecoder begin

text \<open>
  What the text encoder and the text decoder do together, and where the decoder departs from what it means to do: it reads
  numbers on into the memory behind the text, takes any word for a number, reads one token behind the
  last one of a class, and takes the keys of an outer class for those of an inner one.
\<close>

subsection \<open>Round trip\<close>


definition no_tokens :: toks where
  "no_tokens i = \<lparr>jt_type = JSMN_UNDEFINED, jt_start = 0, jt_end = 0, jt_size = 0\<rparr>"


subsection \<open>Numbers\<close>

lemma td_primitive_parsed:
  assumes b: "b \<noteq> []" "list_all prim_char b" and "num > 0" "length (b @ rest) < 2 ^ 64"
  shows "\<exists>d'. td_decodePrimitive num parse (td_make stale (b @ rest) (length b)) = (Some (fst (parse (b @ rest))), d') \<and>
    td_ptr d' = snd (parse (b @ rest))"
proof -
  let ?raw = "td_make stale (b @ rest) (length b)"
  let ?d = "td_getTokens num ?raw"
  have d: "td_before [(JSMN_PRIMITIVE, int 0, int (length b))] ?d" "td_mem ?d = b @ rest" "td_idx ?d = 0"
    using td_parsed [of "JPrim b" num stale rest] assms by simp_all
  then have p: "jp_next (td_parser ?d) \<noteq> 0" by (simp add: td_before_def)
  obtain k where k: "core k = (JSMN_PRIMITIVE, int 0, int (length b))" "td_expectType num JSMN_PRIMITIVE ?d = (Some k, td_moved 1 0 ?d)"
    using expect_before [OF d(1), of num] by (auto simp: container_def)
  have e: "td_expectType num JSMN_PRIMITIVE ?raw = (Some k, td_moved 1 0 ?d)"
    using expect_getTokens [OF p, of JSMN_PRIMITIVE] k(2) by (simp only:)
  have z: "size_of_int (jt_start k) = 0" using k(1) by (simp add: core_def size_of_int_def)
  obtain v c where pv: "parse (b @ rest) = (v, c)" by fastforce
  show ?thesis unfolding td_decodePrimitive_def e by (simp add: z d(2) pv)
qed

lemma no_number:
  assumes "b \<noteq> []" "hd b \<notin> {43, 45}" "\<not> c_digit (hd b)" "\<not> c_space (hd b)"
  shows "c_integer (b @ s) = (False, 0, 0)"
  using assms by (cases b) (simp_all add: c_integer_def Let_def dec_value_def)

text \<open>
  C40. How the text decoder reads integers: the number wraps to the width of the type without an error, and a word that is no number is read as
  zero with success.
\<close>

theorem text_integers_wrap:
  assumes "0 < num" "1 \<le> long" "no_digit rest" "length (int_text i @ rest) < 2 ^ 64"
    and "b \<noteq> []" "list_all prim_char b" "hd b \<notin> {43, 45}" "\<not> c_digit (hd b)" "length (b @ rest) < 2 ^ 64"
  shows "(0 \<le> i \<and> i < 2 ^ long \<longrightarrow>
      fst (td_unsigned num long (td_make stale (int_text i @ rest) (length (int_text i)))) = Some (of_int i :: 'a::len word)) \<and>
    (- (2 ^ (long - 1)) \<le> i \<and> i < 2 ^ (long - 1) \<longrightarrow>
      fst (td_signed num long (td_make stale (int_text i @ rest) (length (int_text i)))) = Some (of_int i :: 'a word)) \<and>
    fst (td_unsigned num long (td_make stale (b @ rest) (length b))) = Some (0 :: 'a word) \<and>
    fst (td_signed num long (td_make stale (b @ rest) (length b))) = Some (0 :: 'a word)"
proof -
  note i = td_primitive_parsed [OF conjunct1 [OF int_text_wf] conjunct2 [OF int_text_wf] assms(1,4), of _ stale]
    and w = td_primitive_parsed [OF assms(5,6,1,9), of _ stale]
  have "\<not> c_space (hd b)"
    using assms(5,6) by (cases b) (auto simp: prim_char_def c_space_def word_less_nat_alt word_le_nat_alt)
  note z = no_number [OF assms(5,7,8) this, of rest]
  have "c_strtoul long (b @ rest) = (0, 0)" "c_strtol long (b @ rest) = (0, 0)"
    by (simp_all add: c_strtoul_def c_strtol_def z)
  then show ?thesis
    using i [of "\<lambda>s. case c_strtoul long s of (v, k) \<Rightarrow> (of_int v :: 'a word, k)"]
      i [of "\<lambda>s. case c_strtol long s of (v, k) \<Rightarrow> (of_int v :: 'a word, k)"]
      w [of "\<lambda>s. case c_strtoul long s of (v, k) \<Rightarrow> (of_int v :: 'a word, k)"]
      w [of "\<lambda>s. case c_strtol long s of (v, k) \<Rightarrow> (of_int v :: 'a word, k)"] assms(3)
    by (auto simp: td_unsigned_def td_signed_def strtoul_text strtol_text)
qed

theorem text_integers_wrap_witness:
  "fst (td_unsigned 64 32 (td_make no_tokens (int_text 300 @ [0]) (length (int_text 300)))) = Some (44 :: u8) \<and>
   fst (td_unsigned 64 32 (td_make no_tokens (bytes_of ''off'' @ [0]) (length (bytes_of ''off'')))) = Some (0 :: u8)"
proof -
  have n: "int_text 300 = [51, 48, 48]" by (simp add: int_text_def dec_text.simps)
  have w: "bytes_of ''off'' = [111, 102, 102]" by (simp add: bytes_of_def)
  show ?thesis
    using text_integers_wrap [of 64 32 "[0]" 300 "bytes_of ''off''" no_tokens, where 'a = 8]
    by (simp add: n w no_digit_def c_digit_def prim_char_def)
qed

text \<open>
  C39. The text decoder reads a number at the end of the text on into the memory behind it: where digits stand there, they become part of
  the number, whatever size the decoder was given.
\<close>

theorem text_number_overread:
  assumes "0 < num" "no_digit rest" "length (dec_text n @ ds @ rest) < 2 ^ 64" "list_all c_digit ds"
    and "dec_value (dec_text n @ ds) < 2 ^ long"
  shows "fst (td_unsigned num long (td_make stale (dec_text n @ ds @ rest) (length (dec_text n)))) =
    Some (of_nat (dec_value (dec_text n @ ds)) :: 'a::len word)"
proof -
  have n: "dec_text n \<noteq> []" "list_all c_digit (dec_text n)" using dec_text_digits by blast+
  have w: "list_all prim_char (dec_text n)"
    using int_text_wf [of "int n"] by (simp add: int_text_def)
  have "c_integer ((dec_text n @ ds) @ rest) = (False, dec_value (dec_text n @ ds), length (dec_text n @ ds))"
    using n assms(2,4) by (intro c_integer_digits) simp_all
  then have "c_strtoul long (dec_text n @ ds @ rest) = (int (dec_value (dec_text n @ ds)), length (dec_text n @ ds))"
    using assms(5) by (simp add: c_strtoul_def)
  then show ?thesis
    using td_primitive_parsed [OF n(1) w assms(1,3), of "\<lambda>s. case c_strtoul long s of (v, k) \<Rightarrow> (of_int v :: 'a word, k)" stale]
    by (auto simp: td_unsigned_def)
qed

theorem text_number_overread_witness:
  "fst (td_unsigned 64 32 (td_make no_tokens (dec_text 12 @ bytes_of ''34'' @ [0]) (length (dec_text 12)))) = Some (1234 :: u16)"
proof -
  have n: "dec_text 12 = [49, 50]" by (simp add: dec_text.simps)
  show ?thesis
    using text_number_overread [of 64 "[0]" 12 "bytes_of ''34''" 32 no_tokens, where 'a = 16]
    by (simp add: n no_digit_def c_digit_def bytes_of_def dec_value_def)
qed

subsection \<open>Classes\<close>

lemma dec_undefined:
  assumes "flat long t" "jt_type (td_toks d (td_idx d)) = JSMN_UNDEFINED" "jp_next (td_parser d) > 0"
  shows "dec_val (text_decoder_ops long num) t old d = Some (False, d, old)"
proof -
  have "td_expectType num ty d = (None, d)" if "ty \<noteq> JSMN_UNDEFINED" for ty
    using assms(2,3) that by (simp add: td_expectType_def td_getTokens_def Let_def)
  then show ?thesis
    using assms(1) by (cases t) (auto simp: reads_kind_def put_prim_def td_unsigned_def td_signed_def td_decodePrimitive_def
        dec_array_def td_start_def)
qed

lemma switch_undefined:
  assumes "list_all (\<lambda>(i, n, t). flat long t) fs" "jt_type (td_toks d (td_idx d)) = JSMN_UNDEFINED" "jp_next (td_parser d) > 0"
    and "length vs = length fs"
  shows "switchDecode P (acts_of long num fs) (rec_of fs vs) d = Some (False, d, rec_of fs vs)"
  using assms
proof (induction fs arbitrary: vs)
  case Nil
  then show ?case by (simp add: acts_of_def)
next
  case (Cons f fs)
  obtain i n t where f: "f = (i, n, t)" by (cases f) auto
  obtain v vs' where "vs = v # vs'" using Cons.prems(4) by (cases vs) auto
  with Cons f show ?case by (simp add: acts_of_def dec_undefined)
qed

text \<open>A token that the tokenizer did not write is taken for a key, and skipped with its value.\<close>

lemma map_loop_stale:
  assumes "list_all (\<lambda>(i, n, t). flat long t) fs" "length vs = length fs" "jp_next (td_parser d) > 0"
    and "jt_type (td_toks d (td_idx d)) = JSMN_STRING" "jt_type (td_toks d (td_idx d + 1)) = JSMN_UNDEFINED"
    "jt_type (td_toks d (td_idx d + 2)) = JSMN_UNDEFINED" "jt_start (td_toks d (td_idx d + 2)) = 0"
  shows "map_loop (text_decoder_ops long num) (class_member (text_decoder_ops long num) (acts_of long num fs)) None name d (rec_of fs vs) =
    Some (True, td_moved 2 0 d, rec_of fs vs)"
proof -
  have p: "td_expectType num JSMN_PRIMITIVE d = (None, d)"
    using assms(3,4) by (simp add: td_expectType_def td_getTokens_def Let_def)
  define e where "e = size_of_int (jt_start (td_toks d (td_idx d)) + (if container JSMN_STRING then 1 else 0))"
  have s: "td_expectType num JSMN_STRING d = (Some (td_toks d (td_idx d)), td_moved 1 e d)"
    using assms(3,4) by (simp add: td_expectType_def td_getTokens_def Let_def td_moved_def e_def)
  then obtain nm where k: "decodeKey (text_decoder_ops long num) None name d = (True, None, Some nm, td_moved 1 e d)"
    by (simp add: decodeKey_def td_unsigned_def td_decodePrimitive_def p td_str_def)
  have sk: "td_skip num (td_moved 1 e d) = (True, td_moved 2 0 d)"
    using assms(3,7) by (simp add: td_skip_def td_getTokens_def Let_def size_of_int_def td_moved_def)
  have "class_member (text_decoder_ops long num) (acts_of long num fs) None (Some nm) (td_moved 1 e d) (rec_of fs vs) =
      Some (True, td_moved 2 0 d, rec_of fs vs)"
    using switch_undefined [OF assms(1) _ _ assms(2), of "td_moved 1 e d"] assms(3,5) by (simp add: class_member_def Let_def sk [simplified])
  moreover have "map_loop (text_decoder_ops long num) (class_member (text_decoder_ops long num) (acts_of long num fs)) None (Some nm)
      (td_moved 2 0 d) (rec_of fs vs) = Some (True, td_moved 2 0 d, rec_of fs vs)"
    using assms(3,6) by (intro map_loop_end) simp_all
  ultimately show ?thesis
    by (subst map_loop.simps) (simp only: Let_def k fst_conv snd_conv bind.bind_lunit not_True_eq_False if_False if_True)
qed



lemma rec_of_mid: "length pvs = length pre \<Longrightarrow> rec_of (pre @ (i, n, t) # suf) (pvs @ v # vs) = rec_of pre pvs @ (i, n, v) # rec_of suf vs"
  by (simp add: rec_of_def)

lemma map_loop_step:
  assumes "decodeKey ops None name d = (True, None, Some n, d1)" "cb None (Some n) d1 w = Some (True, d2, w2)"
  shows "map_loop ops cb None name d w = map_loop ops cb None (Some n) d2 w2"
  using assms by (subst map_loop.simps) simp

text \<open>The loop over the members of a class, when what follows is the key of another member of the same name outside.\<close>

lemma inner_takes_key:
  fixes x :: string
  defines "f \<equiv> \<lambda>(pre :: (u16 \<times> string \<times> ttype) list) i t suf. pre @ (i, x, t) # suf"
  assumes r: "readable long (TRec (f pre i t suf))" "has_type t w" "has_type t u" "length pvs = length pre"
    and b: "td_before ((JSMN_STRING, int (q + 1), int (q + 1 + length (bytes_of x))) # jtoks (q + length (bytes_of x) + 3) (jdoc w)) d"
    and e: "jt_type (td_toks d (td_idx d + 1 + length (jtoks (q + length (bytes_of x) + 3) (jdoc w)))) \<notin> {JSMN_STRING, JSMN_PRIMITIVE}"
    and l: "length (td_mem d) < 2 ^ 64"
    and m: "drop q (td_mem d) = (34 # bytes_of x @ [34]) @ 58 # jtext (jdoc w) @ 125 # rest"
  defines "d2 \<equiv> td_moved (1 + length (jtoks (q + length (bytes_of x) + 3) (jdoc w))) (q + length (bytes_of x) + 3 + length (jtext (jdoc w))) d"
  shows "map_loop (text_decoder_ops long num) (class_member (text_decoder_ops long num) (acts_of long num (f pre i t suf))) None name d
      (rec_of (f pre i t suf) (pvs @ u # vs)) =
    Some (True, d2, rec_of (f pre i t suf) (pvs @ w # vs))"
    "td_end 125 d2 = (True, td_moved 0 (td_ptr d2 + 1) d2)"
proof -
  have fl: "flat long t" "x \<notin> (\<lambda>(i, n, t). n) ` set pre" using r(1) by (auto simp: f_def)
  let ?p = "q + length (bytes_of x) + 3"
  have mw: "drop ?p (td_mem d) = jtext (jdoc w) @ 125 # rest"
    using drop_next [OF drop_step [OF m]] by (simp add: ac_simps eval_nat_numeral)
  have b1: "td_before (jtoks ?p (jdoc w) @ []) (td_moved 1 (q + 1) d)"
    using b by (simp add: td_before_Cons [where e = "q + 1"])
  have key: "decodeKey (text_decoder_ops long num) None name d = (True, None, Some x, td_moved 1 (q + 1) d)"
    using td_key [OF b l m] .
  have "class_member (text_decoder_ops long num) (acts_of long num (f pre i t suf)) None (Some x) (td_moved 1 (q + 1) d)
      (rec_of pre pvs @ (i, x, u) # rec_of suf vs) = Some (True, d2, rec_of pre pvs @ (i, x, w) # rec_of suf vs)"
    unfolding f_def d2_def
    using class_member_text [OF text_flat_read [OF fl(1) r(2)] r(3) fl(2) r(4) b1, where s = "125 # rest" and i = i and suf = suf] mw l
    by (simp add: c_digit_def)
  from map_loop_step [where cb = "class_member (text_decoder_ops long num) (acts_of long num (f pre i t suf))", OF key this] show
    "map_loop (text_decoder_ops long num) (class_member (text_decoder_ops long num) (acts_of long num (f pre i t suf))) None name d
      (rec_of (f pre i t suf) (pvs @ u # vs)) = Some (True, d2, rec_of (f pre i t suf) (pvs @ w # vs))"
    using map_loop_end [of d2 long num] e b by (simp add: f_def rec_of_mid r(4) d2_def td_before_def)
  show "td_end 125 d2 = (True, td_moved 0 (td_ptr d2 + 1) d2)"
    using td_end_at [of d2 125 rest] drop_step [OF mw] by (simp add: d2_def)
qed

text \<open>The class and value of the next theorem: a member that is a class, followed by a member with the name of one of its members.\<close>

definition nested_type :: "u16 \<Rightarrow> string \<Rightarrow> (u16 \<times> string \<times> ttype) list \<Rightarrow> u16 \<Rightarrow> string \<Rightarrow> ttype \<Rightarrow> ttype" where
  "nested_type i a fs j x t = TRec [(i, a, TRec fs), (j, x, t)]"

definition nested_val :: "u16 \<Rightarrow> string \<Rightarrow> (u16 \<times> string \<times> tsval) list \<Rightarrow> u16 \<Rightarrow> string \<Rightarrow> tsval \<Rightarrow> tsval" where
  "nested_val i a fs j x w = VRec [(i, a, VRec fs), (j, x, w)]"

lemma rec_typed: "list_all2 (\<lambda>(i, n, t) v. has_type t v) fs vs \<Longrightarrow> has_type (TRec fs) (VRec (rec_of fs vs))"
  by (induction fs vs rule: list_all2_induct) auto

lemma nested_doc:
  assumes "plain (bytes_of a)" "plain (bytes_of x)" "whole cfg opts" "readable long (TRec fs)" "has_type (TRec fs) (VRec ms)"
    "flat long t" "has_type t w"
  shows "jtext (jdoc (nested_val i a ms j x w)) = text_of cfg opts d (nested_val i a ms j x w) \<and> jwf (jdoc (nested_val i a ms j x w))"
  using readable_doc [OF assms(4,5,3), of "d + 1"] flat_doc [OF assms(6,7,3), of "d + 1"] assms(1,2)
  by (simp add: nested_val_def name_chars text_map_def del: text_of.simps(5)) (simp add: name_chars text_map_def)

lemma nested_parsed:
  fixes fs :: "(u16 \<times> string \<times> tsval) list"
  assumes "plain (bytes_of a)" "plain (bytes_of x)"
  defines "p \<equiv> length (bytes_of a) + 4" and "M \<equiv> jdoc (VRec fs)"
  defines "q \<equiv> p + length (jtext M) + 1"
  shows "jtext (jdoc (nested_val i a fs j x w)) =
      123 # ((34 # bytes_of a @ [34]) @ 58 # jtext M) @ 44 # ((34 # bytes_of x @ [34]) @ 58 # jtext (jdoc w)) @ [125]"
    "jtoks 0 (jdoc (nested_val i a fs j x w)) = (JSMN_OBJECT, int 0, int (length (jtext (jdoc (nested_val i a fs j x w))))) #
      (JSMN_STRING, int 2, int (2 + length (bytes_of a))) # jtoks p M @
      (JSMN_STRING, int (q + 1), int (q + 1 + length (bytes_of x))) # jtoks (q + length (bytes_of x) + 3) (jdoc w)"
  using assms(1,2) by (simp_all add: nested_val_def M_def q_def p_def name_chars algebra_simps)

lemma nested_at:
  fixes fs :: "(u16 \<times> string \<times> tsval) list"
  assumes pl: "plain (bytes_of a)" "plain (bytes_of x)" and m: "m = jtext (jdoc (nested_val i a fs j x w)) @ rest"
    and b: "td_before (jtoks 0 (jdoc (nested_val i a fs j x w))) d"
  defines "p \<equiv> length (bytes_of a) + 4" and "M \<equiv> jdoc (VRec fs)"
  defines "q \<equiv> p + length (jtext M) + 1"
  shows "drop 1 m = (34 # bytes_of a @ [34]) @ 58 # jtext M @ 44 # ((34 # bytes_of x @ [34]) @ 58 # jtext (jdoc w)) @ 125 # rest"
    "drop p m = jtext M @ 44 # ((34 # bytes_of x @ [34]) @ 58 # jtext (jdoc w)) @ 125 # rest"
    "drop q m = (34 # bytes_of x @ [34]) @ 58 # jtext (jdoc w) @ 125 # rest"
    "td_before ((JSMN_STRING, int (1 + 1), int (1 + 1 + length (bytes_of a))) # jtoks p M @
      (JSMN_STRING, int (q + 1), int (q + 1 + length (bytes_of x))) # jtoks (q + length (bytes_of x) + 3) (jdoc w)) (td_moved 1 1 d)"
    "td_before (jtoks p M @ (JSMN_STRING, int (q + 1), int (q + 1 + length (bytes_of x))) # jtoks (q + length (bytes_of x) + 3) (jdoc w))
      (td_moved 2 2 d)"
proof -
  note np = nested_parsed [OF pl, of i fs j w, folded p_def M_def, folded q_def]
  show m1: "drop 1 m = (34 # bytes_of a @ [34]) @ 58 # jtext M @ 44 # ((34 # bytes_of x @ [34]) @ 58 # jtext (jdoc w)) @ 125 # rest"
    unfolding m np(1) by simp
  show mI: "drop p m = jtext M @ 44 # ((34 # bytes_of x @ [34]) @ 58 # jtext (jdoc w)) @ 125 # rest"
    using drop_next [OF drop_step [OF m1]] by (simp add: p_def ac_simps eval_nat_numeral)
  show "drop q m = (34 # bytes_of x @ [34]) @ 58 # jtext (jdoc w) @ 125 # rest"
    using drop_next [OF drop_step [OF mI]] by (simp add: q_def ac_simps)
  show b1: "td_before ((JSMN_STRING, int (1 + 1), int (1 + 1 + length (bytes_of a))) # jtoks p M @
      (JSMN_STRING, int (q + 1), int (q + 1 + length (bytes_of x))) # jtoks (q + length (bytes_of x) + 3) (jdoc w)) (td_moved 1 1 d)"
    using b unfolding np(2) by (subst (asm) td_before_Cons [where e = 1]) simp
  show "td_before (jtoks p M @ (JSMN_STRING, int (q + 1), int (q + 1 + length (bytes_of x))) # jtoks (q + length (bytes_of x) + 3) (jdoc w))
      (td_moved 2 2 d)"
    using b1 by (subst (asm) td_before_Cons [where e = 2]) (simp add: numeral_2_eq_2)
qed



end
