(* ===== verification/Spec2Isabelle.thy ===== *)
theory Spec2Isabelle imports CanId Access TextEncoder Registry Subscription ClientServer IsoTpErrors AddressClaim TextProtocol begin

text \<open>
  ThingSet++: a verification development for the C++ implementation of the ThingSet protocol.

  The program. A device describes itself as a tree of nodes (groups, properties, arrays of records, functions)
  held in a registry. A server answers requests that read, write and execute nodes, in a binary
  protocol (CBOR) or a text protocol (JSON), and publishes reports of subsets of the properties; a report is
  cut into CAN frames or UDP datagrams, and a subscriber puts it together again. Encoders and
  decoders are classes with virtual functions; everything above them works on either protocol.

  The theories, from the bottom up, and what each models.
  Prelude: machine words, writes into fixed arrays, memmove.
  Access: ThingSetAccess.hpp, ThingSetStatus.hpp, ThingSetResult, the request types, the macros of
  ThingSetCompatibility.hpp.
  CanId, CanFrame: can/CanID.hpp and .cpp (identifier fields, reply identifiers), the frames and filters of SocketCAN.
  Encoder, TextEncoder, BinaryEncoder: ThingSetEncoder.hpp (the virtual functions are a record of operations over the
  state of the encoder; the template functions are functions over actions), ThingSetTextEncoder, ThingSetBinaryEncoder.
  Decoder, BinaryDecoder: the same for ThingSetDecoder and ThingSetBinaryDecoder.
  IntrusiveList: internal/IntrusiveLinkedList.hpp and FlatteningIterator.hpp, as next pointers between node references.
  Registry: ThingSetNode, ThingSetParentNode, ThingSetRegistry: registration, lookup by id and by path, enumeration.
  Streaming: StreamingThingSetBinaryEncoder.hpp with its CAN and UDP sinks and the publishing side of the transports.
  Subscription: the streaming decoders and the listener threads of the subscription transports.
  RequestContext: ThingSetRequestContext, including the rewriting of requests a gateway forwards.
  Server: ThingSetServer.cpp, every request type with its guards and error answers.
  Nodes: the node classes as the server uses them (ThingSetGroup, ThingSetValue, ThingSetProperty, ThingSetFunction),
  and the server over them.

  State and control. The state of an object is a record, an operation returns it updated. A bool result of the code
  stays a bool; where a call may not return, or accesses memory outside an array, the result is an option and
  None stands for that. Loops that may run forever are partial functions into option. Overloads selected by
  the C++ type of a value are selected by the constructors of tsval and ttype. A pointer to a node is
  a reference (a number); what a node object never changes is a record given by a map.

  Parameters. zcbor is a git submodule and not part of the repository: the encoding functions are the record zcbor with the
  law zcbor_appends, the decoding functions the record zreader with the law zcbor_reads, each with a model
  that has the law. The kernel's sockets are functions that say whether a write is accepted. What the application
  supplies, functions and callbacks, are fields of classes.

  The locales. chunk_writer is what the streaming encoder needs of a sink, interpreted for CAN and UDP; report_format is
  what the streaming decoder needs of a message format, interpreted for CAN and UDP; value_server is
  what the server needs of the nodes, interpreted for the node classes of the library.

  What is shown. Identifier fields are independent and read back; the text encoder writes exactly the text of a value or
  fails; the binary encoder makes exactly the calls of a value and the decoder reads them back; the
  intrusive list behaves as a list and the registry as a map from effective ids with a tree of children; a
  report cut into frames or datagrams carries exactly the bytes encoded and a subscriber gets it whole
  and once, whatever other nodes send in between; every error path of the server has the status it
  should have and changes nothing; an update stores exactly what it carries, no request changes what
  the client may not write, or the type of a value; a function is called with the arguments sent.
  The properties also state where the code departs from what it means to do: see the findings of the
  manifest, each with the theorem that shows it.

  Bounds. The CAN encoder's frames hold 64 bytes and the UDP encoder's datagrams 1024; both are those of the code. No
  fuel is used: recursion is structural, has a measure, or is a partial function.

  Not modelled. The logging macros, the Zephyr and asio glue, the ISO-TP stack in C (can/zephyr/isotp), the
  reflection helper internal/bind_to_tuple.hpp (a class is given by its members), metadata type names,
  persistence to EEPROM, examples and tests.
\<close>

end
